(* ===== verification/Prelude.thy ===== *)
theory Prelude
  imports Complex_Main "HOL-Library.List_Lexorder" "HOL-Library.Char_ord"
    "HOL-Library.Multiset" "HOL-Library.Monad_Syntax"
begin

text \<open>
  Shared vocabulary of the development.

  \<^item> Results: a Go function that returns a value and an error is a function into
    \<open>'e + 'a\<close>, \<open>Inl\<close> for the error. \<open>res_bind\<close> is the early return on \<open>err != nil\<close>.
  \<^item> Slices: a Go slice is \<open>None\<close> (nil) or \<open>Some xs\<close>; \<open>elems\<close> is what \<open>range\<close> visits.
    The difference between nil and empty is visible in JSON only.
  \<^item> Maps: a Go \<open>map[K]V\<close> is \<open>None\<close> (nil) or an association list with strictly ascending keys,
    so that equal maps are equal values and the order is the one \<open>encoding/json\<close> prints.
    \<open>gm_get\<close> and \<open>gm_put\<close> are the read and the write; the interface a client needs is
    the locale \<open>key_map\<close>.
\<close>

named_theorems gm_simps "reads and writes of Go maps"

section \<open>Results\<close>

fun res_bind :: "'e + 'a \<Rightarrow> ('a \<Rightarrow> 'e + 'b) \<Rightarrow> 'e + 'b" where
  "res_bind (Inl e) f = Inl e"
| "res_bind (Inr x) f = f x"

fun res_map_err :: "('e \<Rightarrow> 'd) \<Rightarrow> 'e + 'a \<Rightarrow> 'd + 'a" where
  "res_map_err f (Inl e) = Inl (f e)"
| "res_map_err f (Inr x) = Inr x"

text \<open>A loop that appends \<open>f x\<close> for every element and returns at the first error.\<close>

fun res_each :: "('a \<Rightarrow> 'e + 'b) \<Rightarrow> 'a list \<Rightarrow> 'e + 'b list" where
  "res_each f [] = Inr []"
| "res_each f (x # xs) =
     res_bind (f x) (\<lambda>y. res_bind (res_each f xs) (\<lambda>ys. Inr (y # ys)))"

lemma res_bind_Inr_iff: "res_bind r f = Inr y \<longleftrightarrow> (\<exists>x. r = Inr x \<and> f x = Inr y)"
  by (cases r) auto

lemma res_bind_Inl_iff:
  "res_bind r f = Inl e \<longleftrightarrow> r = Inl e \<or> (\<exists>x. r = Inr x \<and> f x = Inl e)"
  by (cases r) auto

lemma res_map_err_Inr_iff [simp]: "res_map_err f r = Inr y \<longleftrightarrow> r = Inr y"
  by (cases r) auto

lemma res_each_Inr_iff:
  "res_each f xs = Inr ys \<longleftrightarrow> list_all2 (\<lambda>x y. f x = Inr y) xs ys"
proof (induction xs arbitrary: ys)
  case Nil
  then show ?case by auto
next
  case (Cons x xs)
  then show ?case by (cases ys) (auto simp: res_bind_Inr_iff)
qed

lemma res_each_total:
  "(\<And>x. x \<in> set xs \<Longrightarrow> f x = Inr (g x)) \<Longrightarrow> res_each f xs = Inr (map g xs)"
  by (induction xs) auto

section \<open>Slices\<close>

type_synonym 'a slice = "'a list option"

definition elems :: "'a slice \<Rightarrow> 'a list" where
  "elems s = (case s of None \<Rightarrow> [] | Some xs \<Rightarrow> xs)"

lemma elems_simps [simp]: "elems None = []" "elems (Some xs) = xs"
  by (simp_all add: elems_def)

text \<open>\<open>append(s, x)\<close>: appending to nil allocates.\<close>

definition slice_append :: "'a slice \<Rightarrow> 'a \<Rightarrow> 'a slice" where
  "slice_append s x = Some (elems s @ [x])"

lemma elems_slice_append [simp]: "elems (slice_append s x) = elems s @ [x]"
  by (simp add: slice_append_def)

section \<open>Maps\<close>

type_synonym ('k, 'v) gomap = "('k \<times> 'v) list option"

definition gm_get :: "('k, 'v) gomap \<Rightarrow> 'k \<Rightarrow> 'v option" where
  "gm_get m k = map_of (elems m) k"

text \<open>A read of a missing key gives the zero value of the element type.\<close>

definition gm_at :: "'v \<Rightarrow> ('k, 'v) gomap \<Rightarrow> 'k \<Rightarrow> 'v" where
  "gm_at zero m k = (case gm_get m k of None \<Rightarrow> zero | Some v \<Rightarrow> v)"

fun al_put :: "'k::linorder \<Rightarrow> 'v \<Rightarrow> ('k \<times> 'v) list \<Rightarrow> ('k \<times> 'v) list" where
  "al_put k v [] = [(k, v)]"
| "al_put k v (p # ps) =
     (if fst p < k then p # al_put k v ps
      else if fst p = k then (k, v) # ps
      else (k, v) # p # ps)"

text \<open>
  A write to the nil map panics in Go. Every map the service writes was made by a literal
  (\<open>Some []\<close>), which \<open>gm_ok\<close> includes, and every lemma on writes assumes it.
\<close>

definition gm_put :: "'k::linorder \<Rightarrow> 'v \<Rightarrow> ('k, 'v) gomap \<Rightarrow> ('k, 'v) gomap" where
  "gm_put k v m = Some (al_put k v (elems m))"

definition gm_ok :: "('k::linorder, 'v) gomap \<Rightarrow> bool" where
  "gm_ok m \<longleftrightarrow> m \<noteq> None \<and> sorted_wrt (<) (map fst (elems m))"

lemma gm_get_empty [gm_simps]: "gm_get (Some []) k = None"
  by (simp add: gm_get_def)

lemma map_of_above: "\<forall>p \<in> set m. k < fst p \<Longrightarrow> map_of m k = None"
  for k :: "'k::linorder"
  by (induction m) auto

lemma map_of_put:
  "sorted_wrt (<) (map fst m) \<Longrightarrow> map_of (al_put k v m) k' = (if k' = k then Some v else map_of m k')"
  by (induction m) auto

lemma gm_get_put [gm_simps]:
  "gm_ok m \<Longrightarrow> gm_get (gm_put k v m) k' = (if k' = k then Some v else gm_get m k')"
  by (simp add: gm_ok_def gm_get_def gm_put_def map_of_put)

lemma fst_set_al_put: "fst ` set (al_put k v m) = insert k (fst ` set m)"
  by (induction m) auto

lemma keys_gm_put: "fst ` set (elems (gm_put k v m)) = insert k (fst ` set (elems m))"
  by (simp add: gm_put_def fst_set_al_put)

lemma gm_ok_empty [simp]: "gm_ok (Some [])"
  by (simp add: gm_ok_def)

lemma sorted_al_put: "sorted_wrt (<) (map fst m) \<Longrightarrow> sorted_wrt (<) (map fst (al_put k v m))"
proof (induction m)
  case (Cons p ps)
  have "set (map fst (al_put k v ps)) = insert k (fst ` set ps)"
    by (simp only: set_map fst_set_al_put)
  then show ?case
    using Cons by auto
qed simp

lemma gm_ok_put [simp]: "gm_ok m \<Longrightarrow> gm_ok (gm_put k v m)"
  by (simp add: gm_ok_def gm_put_def sorted_al_put)

lemma gm_get_eqI:
  assumes "gm_ok m" "gm_ok m'" "\<And>k. gm_get m k = gm_get m' k"
  shows "m = m'"
proof -
  have s: "sorted (map fst (elems m))" "distinct (map fst (elems m))"
      "sorted (map fst (elems m'))" "distinct (map fst (elems m'))"
    using assms(1,2) by (auto simp: gm_ok_def strict_sorted_iff)
  have "map_of (elems m) = map_of (elems m')"
    using assms(3) by (auto simp: gm_get_def)
  then have "set (elems m) = set (elems m')"
    using s(2,4) by (simp add: map_of_inject_set)
  then have "elems m = elems m'"
    using s by (auto intro: map_sorted_distinct_set_unique [of fst] simp: distinct_map)
  then show ?thesis
    using assms(1,2) by (auto simp: gm_ok_def)
qed

text \<open>
  What a client of a map relies on. The provider keeps an invariant; the client's
  counters and accumulators are then folds whose reads are known.
\<close>

locale key_map =
  fixes get :: "'m \<Rightarrow> 'k \<Rightarrow> 'v option"
    and put :: "'k \<Rightarrow> 'v \<Rightarrow> 'm \<Rightarrow> 'm"
    and empty :: "'m"
    and ok :: "'m \<Rightarrow> bool"
  assumes get_empty: "get empty k = None"
    and get_put: "ok m \<Longrightarrow> get (put k v m) k' = (if k' = k then Some v else get m k')"
    and ok_empty: "ok empty"
    and ok_put: "ok m \<Longrightarrow> ok (put k v m)"
begin

lemma ok_fold_upd:
  assumes step: "\<And>x m. step x m = put (key x) (f x (case get m (key x) of None \<Rightarrow> z | Some v \<Rightarrow> v)) m"
    and "ok m"
  shows "ok (fold step xs m)"
  using \<open>ok m\<close> by (induction xs arbitrary: m) (auto simp: step ok_put)

text \<open>Folding updates into a map accumulates, per key, the elements with that key in order.\<close>

lemma get_fold_upd:
  assumes step: "\<And>x m. step x m = put (key x) (f x (case get m (key x) of None \<Rightarrow> z | Some v \<Rightarrow> v)) m"
    and "ok m"
  shows "get (fold step xs m) k =
     (let ys = filter (\<lambda>x. key x = k) xs
      in if ys = [] then get m k
         else Some (fold f ys (case get m k of None \<Rightarrow> z | Some v \<Rightarrow> v)))"
  using \<open>ok m\<close>
proof (induction xs arbitrary: m)
  case Nil
  then show ?case by simp
next
  case (Cons x xs)
  have ok: "ok (step x m)" using Cons.prems by (simp add: step ok_put)
  have get: "get (step x m) k =
      (if key x = k then Some (f x (case get m k of None \<Rightarrow> z | Some v \<Rightarrow> v)) else get m k)"
    using Cons.prems by (auto simp: step get_put)
  show ?case
    by (simp add: Cons.IH [OF ok] get Let_def)
qed

lemma get_fold_upd_empty:
  assumes step: "\<And>x m. step x m = put (key x) (f x (case get m (key x) of None \<Rightarrow> z | Some v \<Rightarrow> v)) m"
  shows "get (fold step xs empty) k =
     (let ys = filter (\<lambda>x. key x = k) xs
      in if ys = [] then None else Some (fold f ys z))"
  using get_fold_upd [OF step ok_empty, where xs = xs and k = k]
  by (simp add: get_empty Let_def)

end

interpretation gm: key_map gm_get gm_put "Some []" gm_ok
  by unfold_locales (auto simp: gm_simps)

text \<open>The sum of a measure over the entries of a map, and how a write changes it.\<close>

definition gm_sum :: "('v \<Rightarrow> int) \<Rightarrow> ('k, 'v) gomap \<Rightarrow> int" where
  "gm_sum f m = sum_list (map (\<lambda>p. f (snd p)) (elems m))"

lemma gm_sum_empty [gm_simps]: "gm_sum f (Some []) = 0"
  by (simp add: gm_sum_def)

lemma sum_al_put:
  "sorted_wrt (<) (map fst m) \<Longrightarrow> sum_list (map (\<lambda>p. f (snd p)) (al_put k v m)) =
     sum_list (map (\<lambda>p. f (snd p)) m) + f v - (case map_of m k of None \<Rightarrow> 0 | Some w \<Rightarrow> f w)"
  for f :: "'v \<Rightarrow> int"
proof (induction m)
  case (Cons p ps)
  consider "fst p < k" | "fst p = k" | "k < fst p" by fastforce
  then show ?case
  proof cases
    case 1
    then have "map_of (p # ps) k = map_of ps k" by auto
    with 1 Cons show ?thesis by simp
  next
    case 2
    then show ?thesis by simp
  next
    case 3
    then have "map_of (p # ps) k = None"
      using Cons.prems by (intro map_of_above) auto
    moreover have "\<not> fst p < k" "fst p \<noteq> k" using 3 by auto
    ultimately show ?thesis by simp
  qed
qed simp

lemma gm_sum_put [gm_simps]:
  "gm_ok m \<Longrightarrow> gm_sum f (gm_put k v m) =
     gm_sum f m + f v - (case gm_get m k of None \<Rightarrow> 0 | Some w \<Rightarrow> f w)"
  by (simp add: gm_ok_def gm_sum_def gm_put_def gm_get_def sum_al_put)

text \<open>A map with its values changed.\<close>

definition gm_map :: "('v \<Rightarrow> 'w) \<Rightarrow> ('k, 'v) gomap \<Rightarrow> ('k, 'w) gomap" where
  "gm_map f m = map_option (map (\<lambda>(k, v). (k, f v))) m"

lemma gm_get_map [gm_simps]: "gm_get (gm_map f m) k = map_option f (gm_get m k)"
  by (cases m) (simp_all add: gm_map_def gm_get_def map_of_map)

lemma gm_ok_map [gm_simps]: "gm_ok (gm_map f m) \<longleftrightarrow> gm_ok m"
  by (cases m) (simp_all add: gm_map_def gm_ok_def comp_def case_prod_unfold)

section \<open>Folds\<close>

text \<open>A component of a state that a loop body updates on its own is computed by its own loop.\<close>

lemma fold_project:
  assumes "\<And>x s. p (f x s) = g x (p s)"
  shows "p (fold f xs s) = fold g xs (p s)"
  by (induction xs arbitrary: s) (simp_all add: assms)

lemma fold_nested:
  "fold (\<lambda>x. fold (f x) (h x)) xs s = fold (\<lambda>(x, y). f x y) (concat (map (\<lambda>x. map (Pair x) (h x)) xs)) s"
proof -
  have "fold (\<lambda>(x, y). f x y) (map (Pair x) ys) s = fold (f x) ys s" for x ys s
    by (induction ys arbitrary: s) simp_all
  then show ?thesis by (induction xs arbitrary: s) simp_all
qed

lemma fold_invariant:
  assumes "\<And>x s. P s \<Longrightarrow> P (f x s)" "P s"
  shows "P (fold f xs s)"
  using assms(2) by (induction xs arbitrary: s) (auto simp: assms(1))

lemma fold_if_filter:
  "fold (\<lambda>x s. if P x then f x s else s) xs s = fold f (filter P xs) s"
  by (induction xs arbitrary: s) auto

lemma fold_const_add: "fold (\<lambda>x n. n + c x) xs n = n + sum_list (map c xs)" for n :: int
  by (induction xs arbitrary: n) auto

end
