(* ===== verification/GoUtf8.thy ===== *)
theory GoUtf8
  imports UnicodeData
begin

text \<open>
  Go strings are byte strings; here a byte is a \<open>char\<close>. A \<open>range\<close> over a string and the
  functions of package \<open>strings\<close> read it as UTF-8: \<open>decode_rune\<close> is
  \<open>utf8.DecodeRuneInString\<close> (an invalid byte is U+FFFD of width 1), \<open>encode_rune\<close> is
  \<open>utf8.AppendRune\<close>, and \<open>segments\<close> cuts a string into its runes with the bytes each covers.
\<close>

section \<open>Bytes and runes\<close>

definition byte :: "char \<Rightarrow> int" where
  "byte c = int (of_char c)"

definition chr :: "int \<Rightarrow> char" where
  "chr n = char_of (nat n)"

definition rune_error :: int where
  "rune_error = 65533"

definition is_cont :: "char \<Rightarrow> bool" where
  "is_cont c \<longleftrightarrow> 128 \<le> byte c \<and> byte c \<le> 191"

definition is_scalar :: "int \<Rightarrow> bool" where
  "is_scalar r \<longleftrightarrow> 0 \<le> r \<and> r < 1114112 \<and> \<not> (55296 \<le> r \<and> r < 57344)"

lemma byte_bounds [simp]: "0 \<le> byte c" "byte c < 256"
  using nat_of_char_less_256 [of c] by (simp_all add: byte_def)

lemma byte_chr [simp]: "0 \<le> n \<Longrightarrow> n < 256 \<Longrightarrow> byte (chr n) = n"
  by (simp add: byte_def chr_def)

lemma chr_byte [simp]: "chr (byte c) = c"
  by (simp add: byte_def chr_def)

lemma byte_inject [simp]: "byte c = byte d \<longleftrightarrow> c = d"
  by (metis chr_byte)

definition encode_rune :: "int \<Rightarrow> string" where
  "encode_rune r =
     (if \<not> is_scalar r then [chr 239, chr 191, chr 189]
      else if r < 128 then [chr r]
      else if r < 2048 then [chr (192 + r div 64), chr (128 + r mod 64)]
      else if r < 65536 then
        [chr (224 + r div 4096), chr (128 + r div 64 mod 64), chr (128 + r mod 64)]
      else
        [chr (240 + r div 262144), chr (128 + r div 4096 mod 64),
         chr (128 + r div 64 mod 64), chr (128 + r mod 64)])"

text \<open>The admissible second bytes of a three and a four byte sequence depend on the first.\<close>

definition second_ok3 :: "int \<Rightarrow> int \<Rightarrow> bool" where
  "second_ok3 b0 b1 \<longleftrightarrow>
     (if b0 = 224 then 160 else 128) \<le> b1 \<and> b1 \<le> (if b0 = 237 then 159 else 191)"

definition second_ok4 :: "int \<Rightarrow> int \<Rightarrow> bool" where
  "second_ok4 b0 b1 \<longleftrightarrow>
     (if b0 = 240 then 144 else 128) \<le> b1 \<and> b1 \<le> (if b0 = 244 then 143 else 191)"

fun decode_rune :: "string \<Rightarrow> int \<times> nat" where
  "decode_rune [] = (rune_error, 0)"
| "decode_rune (c0 # cs) =
     (if byte c0 < 128 then (byte c0, 1)
      else if 194 \<le> byte c0 \<and> byte c0 \<le> 223 then
        (case cs of
           c1 # _ \<Rightarrow>
             if is_cont c1 then ((byte c0 - 192) * 64 + (byte c1 - 128), 2) else (rune_error, 1)
         | _ \<Rightarrow> (rune_error, 1))
      else if 224 \<le> byte c0 \<and> byte c0 \<le> 239 then
        (case cs of
           c1 # c2 # _ \<Rightarrow>
             if second_ok3 (byte c0) (byte c1) \<and> is_cont c2
             then ((byte c0 - 224) * 4096 + (byte c1 - 128) * 64 + (byte c2 - 128), 3)
             else (rune_error, 1)
         | _ \<Rightarrow> (rune_error, 1))
      else if 240 \<le> byte c0 \<and> byte c0 \<le> 244 then
        (case cs of
           c1 # c2 # c3 # _ \<Rightarrow>
             if second_ok4 (byte c0) (byte c1) \<and> is_cont c2 \<and> is_cont c3
             then ((byte c0 - 240) * 262144 + (byte c1 - 128) * 4096
                   + (byte c2 - 128) * 64 + (byte c3 - 128), 4)
             else (rune_error, 1)
         | _ \<Rightarrow> (rune_error, 1))
      else (rune_error, 1))"

declare decode_rune.simps(2) [simp del]

lemma decode_rune_width:
  "1 \<le> snd (decode_rune (c # cs)) \<and> snd (decode_rune (c # cs)) \<le> length (c # cs)"
  by (auto simp: decode_rune.simps(2) split: list.splits)

lemma decode_rune_scalar: "is_scalar (fst (decode_rune s))"
proof (cases s)
  case Nil
  then show ?thesis by (simp add: rune_error_def is_scalar_def)
next
  case (Cons c cs)
  have "0 \<le> byte c" by simp
  then show ?thesis
    unfolding Cons decode_rune.simps(2)
    by (auto simp: rune_error_def is_scalar_def is_cont_def second_ok3_def second_ok4_def
        split: list.splits if_splits)
qed

lemma base64_split:
  "0 \<le> y \<Longrightarrow> y < 64 \<Longrightarrow> (x * 64 + y) div 64 = x"
  "0 \<le> y \<Longrightarrow> y < 64 \<Longrightarrow> (x * 64 + y) mod 64 = y" for x y :: int
  by simp_all

lemma base64_join:
  "n div 64 * 64 + n mod 64 = n"
  "n div 4096 = n div 64 div 64" "n div 262144 = n div 64 div 64 div 64" for n :: int
  by (simp_all add: div_mult_mod_eq flip: zdiv_zmult2_eq)

lemma base64_expand:
  "((n div 262144 * 64 + n div 4096 mod 64) * 64 + n div 64 mod 64) * 64 + n mod 64 = n"
  for n :: int
  by (simp only: base64_join(2,3) div_mult_mod_eq)

text \<open>A decoded rune is invalid (U+FFFD, width 1) or spans exactly its own encoding.\<close>

lemma decode_rune_valid:
  assumes "decode_rune (c # cs) = (r, w)"
  shows "(r = rune_error \<and> w = 1) \<or> take w (c # cs) = encode_rune r"
proof -
  consider (bad) "r = rune_error" "w = 1"
    | (one) "r = byte c" "w = 1" "byte c < 128"
    | (two) c1 ds where "cs = c1 # ds" "w = 2" "194 \<le> byte c" "byte c \<le> 223" "is_cont c1"
        "r = (byte c - 192) * 64 + (byte c1 - 128)"
    | (three) c1 c2 ds where "cs = c1 # c2 # ds" "w = 3" "224 \<le> byte c" "byte c \<le> 239"
        "second_ok3 (byte c) (byte c1)" "is_cont c2"
        "r = (byte c - 224) * 4096 + (byte c1 - 128) * 64 + (byte c2 - 128)"
    | (four) c1 c2 c3 ds where "cs = c1 # c2 # c3 # ds" "w = 4" "240 \<le> byte c" "byte c \<le> 244"
        "second_ok4 (byte c) (byte c1)" "is_cont c2" "is_cont c3"
        "r = (byte c - 240) * 262144 + (byte c1 - 128) * 4096 + (byte c2 - 128) * 64 + (byte c3 - 128)"
    using assms by (auto simp: decode_rune.simps(2) split: list.splits if_splits)
  then show ?thesis
  proof cases
    case bad
    then show ?thesis by simp
  next
    case one
    then show ?thesis by (simp add: encode_rune_def is_scalar_def)
  next
    case two
    let ?x = "byte c - 192" and ?y = "byte c1 - 128"
    have y: "0 \<le> ?y" "?y < 64" using two by (auto simp: is_cont_def)
    have "r div 64 = ?x" "r mod 64 = ?y"
      unfolding two(6) by (rule base64_split [OF y])+
    moreover have "128 \<le> r" "r < 2048" "is_scalar r"
      using two y by (auto simp: is_scalar_def)
    ultimately show ?thesis using two by (simp add: encode_rune_def)
  next
    case three
    let ?x = "byte c - 224" and ?y = "byte c1 - 128" and ?z = "byte c2 - 128"
    have b: "0 \<le> ?y" "?y < 64" "0 \<le> ?z" "?z < 64"
      using three by (auto simp: is_cont_def second_ok3_def split: if_splits)
    have r: "r = (?x * 64 + ?y) * 64 + ?z" using three(7) by simp
    have "r div 4096 = ?x" "r div 64 mod 64 = ?y" "r mod 64 = ?z"
      unfolding base64_join r by (simp_all only: base64_split [OF b(1,2)] base64_split [OF b(3,4)])
    moreover have "2048 \<le> r" "r < 65536" "is_scalar r"
      using three b by (auto simp: is_scalar_def second_ok3_def split: if_splits)
    ultimately show ?thesis using three by (simp add: encode_rune_def)
  next
    case four
    let ?x = "byte c - 240" and ?y = "byte c1 - 128" and ?z = "byte c2 - 128" and ?u = "byte c3 - 128"
    have b: "0 \<le> ?y" "?y < 64" "0 \<le> ?z" "?z < 64" "0 \<le> ?u" "?u < 64"
      using four by (auto simp: is_cont_def second_ok4_def split: if_splits)
    have r: "r = ((?x * 64 + ?y) * 64 + ?z) * 64 + ?u" using four(8) by simp
    have f: "r div 262144 = ?x" "r div 4096 mod 64 = ?y" "r div 64 mod 64 = ?z" "r mod 64 = ?u"
      unfolding base64_join r
      by (simp_all only: base64_split [OF b(1,2)] base64_split [OF b(3,4)] base64_split [OF b(5,6)])
    have g: "65536 \<le> r" "is_scalar r"
      using four b by (auto simp: is_scalar_def second_ok4_def split: if_splits)
    have "encode_rune r = [c, c1, c2, c3]"
      using g by (simp add: encode_rune_def f)
    then show ?thesis using four(1,2) by simp
  qed
qed

text \<open>Decoding a well-formed encoding gives the rune back, whatever follows.\<close>

lemma encode_rune_decode:
  assumes "is_scalar r"
  shows "decode_rune (encode_rune r @ s) = (r, length (encode_rune r))"
proof -
  consider (one) "r < 128" | (two) "128 \<le> r" "r < 2048" | (three) "2048 \<le> r" "r < 65536"
    | (four) "65536 \<le> r" by linarith
  then show ?thesis
  proof cases
    case one
    then show ?thesis using assms by (simp add: encode_rune_def is_scalar_def decode_rune.simps(2))
  next
    case two
    obtain x y where xy: "x = r div 64" "y = r mod 64" by blast
    have b: "2 \<le> x" "x < 32" "0 \<le> y" "y < 64" and r: "r = x * 64 + y"
      using two by (simp_all add: xy)
    have "encode_rune r = [chr (192 + x), chr (128 + y)]"
      using two assms by (simp add: encode_rune_def xy)
    then show ?thesis using b
      by (simp add: decode_rune.simps(2) is_cont_def r)
  next
    case three
    obtain x y z where xyz: "x = r div 4096" "y = r div 64 mod 64" "z = r mod 64" by blast
    have r: "r = x * 4096 + y * 64 + z"
      using base64_join(1) [of r] base64_join(1) [of "r div 64"] base64_join(2) [of r] xyz by linarith
    have b: "0 \<le> x" "x < 16" "0 \<le> y" "y < 64" "0 \<le> z" "z < 64"
      using three by (simp_all add: xyz)
    have s: "second_ok3 (224 + x) (128 + y)"
      unfolding second_ok3_def using assms three(1) b r by (auto simp: is_scalar_def)
    have "encode_rune r = [chr (224 + x), chr (128 + y), chr (128 + z)]"
      using three assms by (simp add: encode_rune_def xyz)
    then show ?thesis using b s
      by (simp add: decode_rune.simps(2) is_cont_def r)
  next
    case four
    obtain x y z u where xyzu: "x = r div 262144" "y = r div 4096 mod 64" "z = r div 64 mod 64"
      "u = r mod 64" by blast
    have r: "r = x * 262144 + y * 4096 + z * 64 + u"
      using base64_expand [of r] unfolding xyzu [symmetric] by simp
    have b: "0 \<le> y" "y < 64" "0 \<le> z" "z < 64" "0 \<le> u" "u < 64"
      by (simp_all add: xyzu)
    have r': "r < 1114112" using assms by (simp add: is_scalar_def)
    have "0 < x * 262144 + 262144" using four b unfolding r by linarith
    moreover have "x * 262144 < 1114112" using r' b unfolding r by linarith
    ultimately have x: "0 \<le> x" "x < 5" by linarith+
    have x0: "x = 0 \<Longrightarrow> 16 \<le> y" using four(1) b unfolding r by linarith
    have x4: "x = 4 \<Longrightarrow> y \<le> 15" using r' b unfolding r by linarith
    have s: "second_ok4 (240 + x) (128 + y)"
      unfolding second_ok4_def using b x x0 x4 by auto
    have "encode_rune r = [chr (240 + x), chr (128 + y), chr (128 + z), chr (128 + u)]"
      using four assms by (simp add: encode_rune_def xyzu)
    then show ?thesis using b x s
      by (simp add: decode_rune.simps(2) is_cont_def r)
  qed
qed

section \<open>Cutting a string into runes\<close>

function segments :: "string \<Rightarrow> (int \<times> string) list" where
  "segments [] = []"
| "segments (c # cs) =
     (case decode_rune (c # cs) of (r, w) \<Rightarrow>
        (r, take w (c # cs)) # segments (drop w (c # cs)))"
  by pat_completeness auto
termination
proof (relation "measure length", goal_cases)
  case (2 c cs r w)
  then have "w = snd (decode_rune (c # cs))" by (metis snd_conv)
  then show ?case
    using decode_rune_width [of c cs] by auto
qed simp

definition runes :: "string \<Rightarrow> int list" where
  "runes s = map fst (segments s)"

definition encode_runes :: "int list \<Rightarrow> string" where
  "encode_runes rs = concat (map encode_rune rs)"

text \<open>Well-formed UTF-8, the only strings \<open>encoding/json\<close> produces.\<close>

definition valid_utf8 :: "string \<Rightarrow> bool" where
  "valid_utf8 s \<longleftrightarrow> encode_runes (runes s) = s"

lemma segments_concat [simp]: "concat (map snd (segments s)) = s"
  by (induction s rule: segments.induct) (auto split: prod.splits)

lemma segments_eq_Nil [simp]: "segments s = [] \<longleftrightarrow> s = []"
  by (cases s) (auto split: prod.splits)

lemma runes_simps:
  "runes [] = []"
  "runes (c # cs) =
     fst (decode_rune (c # cs)) # runes (drop (snd (decode_rune (c # cs))) (c # cs))"
  by (simp_all add: runes_def case_prod_beta)

lemma runes_scalar: "r \<in> set (runes s) \<Longrightarrow> is_scalar r"
proof (induction s rule: segments.induct)
  case 1
  then show ?case by (simp add: runes_def)
next
  case (2 c cs)
  have "r \<in> set (runes (drop (snd (decode_rune (c # cs))) (c # cs))) \<Longrightarrow> is_scalar r"
    by (rule 2(1) [of "fst (decode_rune (c # cs))" "snd (decode_rune (c # cs))"]) simp_all
  then show ?case
    using decode_rune_scalar [of "c # cs"] 2(2) unfolding runes_simps by auto
qed

lemma encode_rune_not_Nil [simp]: "encode_rune r \<noteq> []"
  by (simp add: encode_rune_def)

lemma segments_encode:
  assumes "is_scalar r"
  shows "segments (encode_rune r @ s) = (r, encode_rune r) # segments s"
proof -
  obtain c cs where c: "encode_rune r @ s = c # cs"
    by (cases "encode_rune r @ s") auto
  show ?thesis
    using encode_rune_decode [OF assms, of s] unfolding c segments.simps
    by (simp flip: c)
qed

lemma segments_encode_runes:
  "(\<And>r. r \<in> set rs \<Longrightarrow> is_scalar r) \<Longrightarrow>
     segments (encode_runes rs) = map (\<lambda>r. (r, encode_rune r)) rs"
  by (induction rs) (auto simp: encode_runes_def segments_encode)

lemma runes_encode_runes:
  "(\<And>r. r \<in> set rs \<Longrightarrow> is_scalar r) \<Longrightarrow> runes (encode_runes rs) = rs"
  by (simp add: runes_def segments_encode_runes comp_def)

lemma encode_runes_inject:
  assumes "\<And>r. r \<in> set rs \<Longrightarrow> is_scalar r" "\<And>r. r \<in> set rs' \<Longrightarrow> is_scalar r"
  shows "encode_runes rs = encode_runes rs' \<longleftrightarrow> rs = rs'"
  using runes_encode_runes [of rs] runes_encode_runes [of rs'] assms by metis

lemma valid_utf8_encode_runes: "valid_utf8 (encode_runes (runes s))"
  by (simp add: valid_utf8_def runes_encode_runes runes_scalar)

text \<open>ASCII strings decode byte by byte.\<close>

definition ascii :: "string \<Rightarrow> bool" where
  "ascii s \<longleftrightarrow> (\<forall>c \<in> set s. byte c < 128)"

lemma segments_ascii: "ascii s \<Longrightarrow> segments s = map (\<lambda>c. (byte c, [c])) s"
  by (induction s) (auto simp: ascii_def decode_rune.simps(2))

lemma runes_ascii: "ascii s \<Longrightarrow> runes s = map byte s"
  by (simp add: runes_def segments_ascii comp_def)

lemma valid_utf8_ascii: "list_all (\<lambda>c. byte c < 128) s \<Longrightarrow> valid_utf8 s"
proof -
  assume a: "list_all (\<lambda>c. byte c < 128) s"
  then have "ascii s" by (simp add: ascii_def list_all_iff)
  moreover have "encode_rune (byte c) = [c]" if "byte c < 128" for c
    using that by (simp add: encode_rune_def is_scalar_def)
  ultimately show ?thesis using a by (induction s) (simp_all add: valid_utf8_def encode_runes_def runes_ascii ascii_def)
qed

text \<open>
  A decoder that saw a longer string and stopped before its end decided on what it consumed;
  so a contiguous part of the segments of a string are the segments of their own bytes.
\<close>

lemma decode_rune_take:
  assumes "decode_rune (s @ t) = (r, w)" "s \<noteq> []" "w \<le> length s"
  shows "decode_rune s = (r, w)"
proof -
  obtain c cs where s: "s = c # cs" using assms(2) by (cases s) auto
  show ?thesis
  proof (cases cs)
    case Nil
    with assms s show ?thesis
      by (auto simp: decode_rune.simps(2) split: list.splits if_splits)
  next
    case (Cons c1 cs1)
    note cs = this
    show ?thesis
    proof (cases cs1)
      case Nil
      with assms s cs show ?thesis
        by (auto simp: decode_rune.simps(2) split: list.splits if_splits)
    next
      case (Cons c2 cs2)
      with assms s cs show ?thesis
        by (cases cs2) (auto simp: decode_rune.simps(2) split: list.splits if_splits)
    qed
  qed
qed

lemma segments_prefix:
  "segments s = a @ b \<Longrightarrow> segments (concat (map snd a)) = a"
proof (induction s arbitrary: a rule: segments.induct)
  case 1
  then show ?case by simp
next
  case (2 c cs)
  obtain r w where d: "decode_rune (c # cs) = (r, w)" by fastforce
  have w: "1 \<le> w" "w \<le> length (c # cs)" using decode_rune_width [of c cs] d by auto
  let ?s = "c # cs"
  show ?case
  proof (cases a)
    case Nil
    then show ?thesis by simp
  next
    case (Cons x a')
    with 2(2) d have x: "x = (r, take w ?s)" and rest: "segments (drop w ?s) = a' @ b"
      by simp_all
    have IH: "segments (concat (map snd a')) = a'"
      by (rule 2(1)) (use d rest in auto)
    have "drop w ?s = concat (map snd a') @ concat (map snd b)"
      using segments_concat [of "drop w ?s"] rest by simp
    then have s: "?s = (take w ?s @ concat (map snd a')) @ concat (map snd b)"
      by (metis append_assoc append_take_drop_id)
    have len: "length (take w ?s) = w" using w by simp
    have dec: "decode_rune (take w ?s @ concat (map snd a')) = (r, w)"
    proof (rule decode_rune_take)
      show "decode_rune ((take w ?s @ concat (map snd a')) @ concat (map snd b)) = (r, w)"
        unfolding s [symmetric] by (rule d)
      show "take w ?s @ concat (map snd a') \<noteq> []" using len w by auto
      show "w \<le> length (take w ?s @ concat (map snd a'))" using len by simp
    qed
    have "take w ?s @ concat (map snd a') = c # tl (take w ?s) @ concat (map snd a')"
      using w by (cases w) auto
    then obtain ds where ds: "take w ?s @ concat (map snd a') = c # ds" by blast
    have "segments (c # ds) = (r, take w (c # ds)) # segments (drop w (c # ds))"
      using dec ds by simp
    also have "\<dots> = (r, take w ?s) # segments (concat (map snd a'))"
      using ds [symmetric] len by simp
    finally show ?thesis using Cons x IH ds by simp
  qed
qed

lemma segments_suffix: "segments s = a @ b \<Longrightarrow> segments (concat (map snd b)) = b"
proof (induction a arbitrary: s)
  case Nil
  then show ?case using segments_concat [of s] by simp
next
  case (Cons x a)
  obtain c cs where s: "s = c # cs" using Cons.prems by (cases s) auto
  show ?case
    by (rule Cons.IH [of "drop (snd (decode_rune s)) s"])
      (use Cons.prems s in \<open>auto simp: case_prod_beta\<close>)
qed

end
