(* ===== verification/GoStrings.thy ===== *)
theory GoStrings
  imports GoUtf8
begin

text \<open>
  The functions of Go's packages \<open>strings\<close> and \<open>strconv\<close> the service calls. Names are the
  Go names in lower case: \<open>trim_space\<close> for \<open>strings.TrimSpace\<close>, \<open>atoi\<close> for \<open>strconv.Atoi\<close>.
  Searching and splitting work on bytes, lower-casing and white space on runes.
\<close>

section \<open>Lower case and white space\<close>

definition to_lower :: "string \<Rightarrow> string" where
  "to_lower s = encode_runes (map unicode_lower (runes s))"

definition trim_ends :: "('a \<Rightarrow> bool) \<Rightarrow> 'a list \<Rightarrow> 'a list" where
  "trim_ends P xs = rev (dropWhile P (rev (dropWhile P xs)))"

definition trim_space :: "string \<Rightarrow> string" where
  "trim_space s = concat (map snd (trim_ends (\<lambda>(r, bs). unicode_space r) (segments s)))"

lemma trim_ends_Nil [simp]: "trim_ends P [] = []"
  by (simp add: trim_ends_def)

lemma trim_ends_infix: "\<exists>a b. xs = a @ trim_ends P xs @ b"
proof -
  let ?ys = "dropWhile P xs"
  have "rev ?ys = takeWhile P (rev ?ys) @ dropWhile P (rev ?ys)" by simp
  then have "?ys = trim_ends P xs @ rev (takeWhile P (rev ?ys))"
    unfolding trim_ends_def by (metis rev_append rev_rev_ident)
  moreover have "xs = takeWhile P xs @ ?ys" by simp
  ultimately show ?thesis by metis
qed

lemma trim_ends_map: "trim_ends P (map f xs) = map f (trim_ends (\<lambda>x. P (f x)) xs)"
  by (simp add: trim_ends_def dropWhile_map rev_map comp_def)

lemma trim_ends_cong: "(\<And>x. x \<in> set xs \<Longrightarrow> P x = Q x) \<Longrightarrow> trim_ends P xs = trim_ends Q xs"
proof -
  assume a: "\<And>x. x \<in> set xs \<Longrightarrow> P x = Q x"
  then have d: "dropWhile P xs = dropWhile Q xs" by (intro dropWhile_cong) auto
  have "dropWhile P (rev (dropWhile Q xs)) = dropWhile Q (rev (dropWhile Q xs))"
    using a by (intro dropWhile_cong) (auto dest: set_dropWhileD)
  with d show ?thesis by (simp add: trim_ends_def)
qed

lemma hd_trim_ends: "trim_ends P xs \<noteq> [] \<Longrightarrow> \<not> P (hd (trim_ends P xs))"
proof -
  assume ne: "trim_ends P xs \<noteq> []"
  let ?ys = "dropWhile P xs"
  obtain b where b: "?ys = trim_ends P xs @ b"
    unfolding trim_ends_def by (metis rev_append rev_rev_ident takeWhile_dropWhile_id)
  with ne have "?ys \<noteq> []" "hd ?ys = hd (trim_ends P xs)" by auto
  then show ?thesis using hd_dropWhile by metis
qed

lemma last_trim_ends: "trim_ends P xs \<noteq> [] \<Longrightarrow> \<not> P (last (trim_ends P xs))"
  unfolding trim_ends_def by (simp add: last_rev hd_dropWhile)

lemma trim_ends_id:
  assumes "xs \<noteq> []" "\<not> P (hd xs)" "\<not> P (last xs)"
  shows "trim_ends P xs = xs"
proof -
  have "dropWhile P xs = xs" using assms(1,2) by (cases xs) auto
  moreover have "dropWhile P (rev xs) = rev xs"
    using assms(1,3) by (cases "rev xs") (auto simp flip: hd_rev)
  ultimately show ?thesis by (simp add: trim_ends_def)
qed

lemma trim_ends_idem [simp]: "trim_ends P (trim_ends P xs) = trim_ends P xs"
  by (cases "trim_ends P xs = []") (simp_all add: trim_ends_id hd_trim_ends last_trim_ends)

lemma segments_trim_space:
  "segments (trim_space s) = trim_ends (\<lambda>(r, bs). unicode_space r) (segments s)"
proof -
  obtain a b where "segments s = a @ trim_ends (\<lambda>(r, bs). unicode_space r) (segments s) @ b"
    using trim_ends_infix by blast
  then show ?thesis
    unfolding trim_space_def by (metis segments_prefix segments_suffix)
qed

lemma runes_trim_space: "runes (trim_space s) = trim_ends unicode_space (runes s)"
  by (simp add: runes_def segments_trim_space trim_ends_map case_prod_unfold)

lemma runes_lower: "runes (to_lower s) = map unicode_lower (runes s)"
  unfolding to_lower_def
  by (rule runes_encode_runes)
    (use runes_scalar [of _ s] unicode_lower_scalar in \<open>auto simp: is_scalar_def\<close>)

lemma trim_space_idem [simp]: "trim_space (trim_space s) = trim_space s"
  unfolding trim_space_def [of "trim_space s"] segments_trim_space trim_ends_idem
  by (simp add: trim_space_def)

lemma valid_utf8_to_lower [simp]: "valid_utf8 (to_lower s)"
  unfolding valid_utf8_def runes_lower by (simp add: to_lower_def)

text \<open>Trimming commutes with lower-casing: no white space is created or destroyed.\<close>

lemma to_lower_trim_space: "runes (to_lower (trim_space s)) = trim_ends unicode_space (runes (to_lower s))"
  by (simp add: runes_lower runes_trim_space trim_ends_map)

lemma to_lower_eq_iff: "to_lower s = to_lower t \<longleftrightarrow> runes (to_lower s) = runes (to_lower t)"
  by (metis runes_lower to_lower_def)

lemma to_lower_trim_eq:
  "to_lower s = to_lower t \<Longrightarrow> to_lower (trim_space s) = to_lower (trim_space t)"
  by (simp add: to_lower_eq_iff to_lower_trim_space)

lemma trim_space_to_lower: "trim_space (to_lower s) = to_lower (trim_space s)"
proof -
  have "segments (to_lower s) = map (\<lambda>r. (r, encode_rune r)) (map unicode_lower (runes s))"
    unfolding to_lower_def
    by (rule segments_encode_runes)
      (use runes_scalar [of _ s] unicode_lower_scalar in \<open>auto simp: is_scalar_def\<close>)
  then show ?thesis
    unfolding trim_space_def [of "to_lower s"]
    by (simp add: trim_ends_map to_lower_def encode_runes_def runes_trim_space comp_def)
qed

lemma trim_space_infix: "\<exists>a b. s = a @ trim_space s @ b"
proof -
  obtain a b where ab: "segments s = a @ trim_ends (\<lambda>(r, bs). unicode_space r) (segments s) @ b"
    using trim_ends_infix by blast
  have "s = concat (map snd (segments s))" by simp
  also have "\<dots> = concat (map snd a) @ trim_space s @ concat (map snd b)"
    by (subst ab) (simp add: trim_space_def)
  finally show ?thesis by blast
qed

text \<open>ASCII, where both are byte operations.\<close>

lemma trim_space_ascii_id:
  assumes "ascii s" "s \<noteq> []" "\<not> unicode_space (byte (hd s))" "\<not> unicode_space (byte (last s))"
  shows "trim_space s = s"
proof -
  have "trim_ends (\<lambda>(r, bs). unicode_space r) (segments s) = segments s"
    using assms by (intro trim_ends_id) (auto simp: segments_ascii hd_map last_map)
  then show ?thesis by (simp add: trim_space_def)
qed

lemma to_lower_ascii:
  "ascii s \<Longrightarrow> to_lower s = map (\<lambda>c. chr (unicode_lower (byte c))) s"
  by (induction s)
    (auto simp: ascii_def to_lower_def encode_runes_def runes_ascii encode_rune_def is_scalar_def
      unicode_lower_def)

section \<open>Searching, splitting, joining\<close>

fun has_prefix :: "string \<Rightarrow> string \<Rightarrow> bool" where
  "has_prefix [] s = True"
| "has_prefix (p # ps) [] = False"
| "has_prefix (p # ps) (c # cs) = (p = c \<and> has_prefix ps cs)"

text \<open>\<open>contains s sub\<close> is \<open>strings.Contains(s, sub)\<close>.\<close>

fun contains :: "string \<Rightarrow> string \<Rightarrow> bool" where
  "contains [] sub = (sub = [])"
| "contains (c # cs) sub = (has_prefix sub (c # cs) \<or> contains cs sub)"

lemma has_prefix_iff: "has_prefix p s \<longleftrightarrow> (\<exists>t. s = p @ t)"
  by (induction p s rule: has_prefix.induct) auto

lemma contains_iff: "contains s sub \<longleftrightarrow> (\<exists>a b. s = a @ sub @ b)"
proof (induction s)
  case Nil
  then show ?case by auto
next
  case (Cons c cs)
  show ?case
    unfolding contains.simps Cons.IH has_prefix_iff
    by (metis append_Cons append_Nil neq_Nil_conv list.inject)
qed

text \<open>\<open>strings.Split(s, sep)\<close> for a separator that is not empty; \<open>cur\<close> is the part being read.\<close>

fun split_from :: "string \<Rightarrow> string \<Rightarrow> string \<Rightarrow> string list" where
  "split_from sep cur [] = [cur]"
| "split_from sep cur (c # cs) =
     (if has_prefix sep (c # cs) then cur # split_from sep [] (drop (length sep - 1) cs)
      else split_from sep (cur @ [c]) cs)"

definition split_on :: "string \<Rightarrow> string \<Rightarrow> string list" where
  "split_on s sep = split_from sep [] s"

fun join :: "string list \<Rightarrow> string \<Rightarrow> string" where
  "join [] sep = []"
| "join [x] sep = x"
| "join (x # y # ys) sep = x @ sep @ join (y # ys) sep"

lemma split_from_not_Nil [simp]: "split_from sep cur s \<noteq> []"
  by (induction sep cur s rule: split_from.induct) auto

lemma split_on_not_Nil [simp]: "split_on s sep \<noteq> []"
  by (simp add: split_on_def)

lemma join_Cons: "ys \<noteq> [] \<Longrightarrow> join (x # ys) sep = x @ sep @ join ys sep"
  by (cases ys) auto

lemma join_snoc: "xs \<noteq> [] \<Longrightarrow> join (xs @ [y]) sep = join xs sep @ sep @ y"
proof (induction xs)
  case (Cons x xs)
  then show ?case by (cases "xs = []") (simp_all add: join_Cons)
qed simp

lemma join_split_from: "sep \<noteq> [] \<Longrightarrow> join (split_from sep cur s) sep = cur @ s"
proof (induction sep cur s rule: split_from.induct)
  case (1 sep cur)
  then show ?case by simp
next
  case (2 sep cur c cs)
  show ?case
  proof (cases "has_prefix sep (c # cs)")
    case True
    then obtain t where t: "c # cs = sep @ t" by (auto simp: has_prefix_iff)
    obtain d ds where "sep = d # ds" using 2(3) by (cases sep) auto
    with t have d: "drop (length sep - 1) cs = t" by auto
    then have "join (split_from sep [] t) sep = t" using 2(1,3) True by simp
    moreover have "split_from sep cur (c # cs) = cur # split_from sep [] t"
      using True d by simp
    ultimately show ?thesis using t by (simp add: join_Cons del: split_from.simps)
  next
    case False
    then show ?thesis using 2 by simp
  qed
qed

lemma join_split_on: "sep \<noteq> [] \<Longrightarrow> join (split_on s sep) sep = s"
  by (simp add: split_on_def join_split_from)

text \<open>The last part holds no separator, and there is one part only if the string holds none.\<close>

lemma split_from_last:
  assumes "sep \<noteq> []"
  shows "(split_from sep cur s = [cur @ s] \<and> \<not> contains s sep) \<or>
    (2 \<le> length (split_from sep cur s) \<and> \<not> contains (last (split_from sep cur s)) sep \<and> contains s sep)"
  using assms
proof (induction sep cur s rule: split_from.induct)
  case (1 sep cur)
  then show ?case by simp
next
  case (2 sep cur c cs)
  show ?case
  proof (cases "has_prefix sep (c # cs)")
    case True
    then have "split_from sep cur (c # cs) = cur # split_from sep [] (drop (length sep - 1) cs)"
      by simp
    moreover have "contains (c # cs) sep" using True by simp
    ultimately show ?thesis
      using 2(1) [OF True 2(3)] by (auto simp: Suc_le_eq simp del: split_from.simps contains.simps)
  next
    case False
    then show ?thesis using 2(2) [OF False 2(3)] by simp
  qed
qed

lemma split_on_last:
  assumes "sep \<noteq> []"
  shows "\<not> contains s sep \<Longrightarrow> split_on s sep = [s]"
    "contains s sep \<Longrightarrow> 2 \<le> length (split_on s sep) \<and> \<not> contains (last (split_on s sep)) sep"
  using split_from_last [OF assms, of "[]" s] by (auto simp: split_on_def)

text \<open>Splitting at a single byte leaves no such byte in any part.\<close>

lemma split_from_byte:
  "p \<in> set (split_from [x] cur s) \<Longrightarrow> x \<notin> set cur \<Longrightarrow> x \<notin> set p"
  by (induction "[x]" cur s arbitrary: p rule: split_from.induct) (auto split: if_splits)

lemma split_on_byte: "p \<in> set (split_on s [x]) \<Longrightarrow> x \<notin> set p"
  unfolding split_on_def by (rule split_from_byte) auto

lemma split_from_no_sep: "x \<notin> set s \<Longrightarrow> split_from [x] cur s = [cur @ s]"
  by (induction "[x]" cur s rule: split_from.induct) auto

lemma split_from_sep: "x \<notin> set s \<Longrightarrow> split_from [x] cur (s @ x # t) = (cur @ s) # split_from [x] [] t"
  by (induction "[x]" cur s rule: split_from.induct) (auto simp: has_prefix_iff)

lemma split_on_join:
  "xs \<noteq> [] \<Longrightarrow> (\<And>y. y \<in> set xs \<Longrightarrow> x \<notin> set y) \<Longrightarrow> split_on (join xs [x]) [x] = xs"
proof (induction xs)
  case (Cons y ys)
  show ?case
  proof (cases ys)
    case Nil
    then show ?thesis using Cons.prems(2) [of y] by (simp add: split_on_def split_from_no_sep)
  next
    case (Cons z zs)
    then show ?thesis
      using Cons.IH Cons.prems(2) split_from_sep [of x y "[]"] by (simp add: split_on_def join_Cons)
  qed
qed simp

text \<open>\<open>strings.Cut(s, sep)\<close> for a one-byte separator: before, after, found.\<close>

fun cut_byte :: "string \<Rightarrow> char \<Rightarrow> string \<times> string \<times> bool" where
  "cut_byte [] x = ([], [], False)"
| "cut_byte (c # cs) x =
     (if c = x then ([], cs, True)
      else case cut_byte cs x of (a, b, found) \<Rightarrow> (c # a, b, found))"

text \<open>\<open>strings.Trim\<close> and \<open>strings.TrimRight\<close> with a cutset of one ASCII byte.\<close>

definition trim_byte :: "char \<Rightarrow> string \<Rightarrow> string" where
  "trim_byte x s = trim_ends (\<lambda>c. c = x) s"

definition trim_right_byte :: "char \<Rightarrow> string \<Rightarrow> string" where
  "trim_right_byte x s = rev (dropWhile (\<lambda>c. c = x) (rev s))"

text \<open>
  \<open>strings.EqualFold(s, t)\<close> for an ASCII \<open>t\<close>: rune by rune, equal or two cases of one letter.
  The only runes outside ASCII that fold to an ASCII letter are U+017F (long s) and
  U+212A (Kelvin sign).
\<close>

definition fold_ascii :: "int \<Rightarrow> int" where
  "fold_ascii r = (if 65 \<le> r \<and> r \<le> 90 then r + 32 else if r = 383 then 115
     else if r = 8490 then 107 else r)"

definition equal_fold :: "string \<Rightarrow> string \<Rightarrow> bool" where
  "equal_fold s t \<longleftrightarrow> map fold_ascii (runes s) = map fold_ascii (runes t)"

end
