(* ===== verification/Auth.thy ===== *)
theory Auth
  imports GoStrings
begin

text \<open>
  \<open>internal/httpapi/auth.go\<close>: which requests carry an accepted token. The headers of a request are
  the function \<open>Header.Get\<close>, which returns the empty string for a header that is absent; its path
  is \<open>URL.Path\<close> and, as it came, \<open>URL.EscapedPath()\<close>; \<open>sha\<close> is \<open>sha256.Sum256\<close>. The comparison keeps the shape of the source: every candidate is compared
  with every digest, and the results are combined with a bitwise or.
\<close>

unbundle bit_operations_syntax

record http_request =
  hq_Method :: string
  hq_Path :: string
  hq_EscapedPath :: string
  hq_Header :: "string \<Rightarrow> string"

record authenticator =
  auth_digests :: "string list"

definition new_authenticator :: "(string \<Rightarrow> string) \<Rightarrow> string list \<Rightarrow> authenticator" where
  "new_authenticator sha tokens = \<lparr>auth_digests = map sha tokens\<rparr>"

definition constant_time_compare :: "string \<Rightarrow> string \<Rightarrow> int" where
  "constant_time_compare x y = (if x = y then 1 else 0)"

definition presented_tokens :: "http_request \<Rightarrow> string list" where
  "presented_tokens r =
     (let tokens = [];
          header = hq_Header r ''Authorization'';
          tokens =
            (if header \<noteq> [] then
               (case cut_byte header (CHR '' '') of (scheme, value, found) \<Rightarrow>
                  if found \<and> equal_fold scheme ''Bearer'' then
                    (let token = trim_space value in if token \<noteq> [] then tokens @ [token] else tokens)
                  else tokens)
             else tokens);
          key = trim_space (hq_Header r ''X-Api-Key'')
      in if key \<noteq> [] then tokens @ [key] else tokens)"

definition allows :: "(string \<Rightarrow> string) \<Rightarrow> authenticator \<Rightarrow> http_request \<Rightarrow> bool" where
  "allows sha a r \<longleftrightarrow>
     fold (\<lambda>presented matched.
         fold (\<lambda>want matched. matched OR constant_time_compare (sha presented) want)
           (auth_digests a) matched)
       (presented_tokens r) 0 = 1"

lemma or_bits: "m \<in> {0, 1} \<Longrightarrow> m OR constant_time_compare x y = (if m = 1 \<or> x = y then 1 else 0 :: int)"
  by (auto simp: constant_time_compare_def)

lemma compare_loop:
  "m \<in> {0, 1} \<Longrightarrow>
     fold (\<lambda>want matched. matched OR constant_time_compare d want) ws m = (if m = 1 \<or> d \<in> set ws then 1 else 0)"
proof (induction ws arbitrary: m)
  case (Cons w ws)
  then show ?case using Cons.IH [of "m OR constant_time_compare d w"] by (auto simp: or_bits)
qed auto

lemma allows_loop:
  "m \<in> {0, 1} \<Longrightarrow>
     fold (\<lambda>presented matched.
         fold (\<lambda>want matched. matched OR constant_time_compare (sha presented) want) ws matched) ps m
     = (if m = 1 \<or> (\<exists>p \<in> set ps. sha p \<in> set ws) then 1 else 0)"
proof (induction ps arbitrary: m)
  case (Cons p ps)
  then show ?case
    using Cons.IH [of "if m = 1 \<or> sha p \<in> set ws then 1 else 0"] by (auto simp: compare_loop)
qed auto

lemma allows_iff: "allows sha a r \<longleftrightarrow> (\<exists>p \<in> set (presented_tokens r). sha p \<in> set (auth_digests a))"
  by (simp add: allows_def allows_loop)

lemma cut_byte_append: "x \<notin> set s \<Longrightarrow> cut_byte (s @ x # t) x = (s, t, True)"
  by (induction s) auto

text \<open>Which headers present a token.\<close>

lemma api_key_presented:
  assumes "trim_space (hq_Header req ''X-Api-Key'') = t" "t \<noteq> []"
  shows "t \<in> set (presented_tokens req)"
  using assms(2) unfolding presented_tokens_def Let_def assms(1)
  by (simp only: if_True set_append list.simps Un_iff insert_iff simp_thms not_False_eq_True)

lemma bearer_presented:
  assumes "hq_Header req ''Authorization'' = scheme @ '' '' @ v" "CHR '' '' \<notin> set scheme"
    "equal_fold scheme ''Bearer''" "trim_space v = t" "t \<noteq> []"
  shows "t \<in> set (presented_tokens req)"
proof -
  have "cut_byte (hq_Header req ''Authorization'') (CHR '' '') = (scheme, v, True)"
    unfolding assms(1) using cut_byte_append [OF assms(2), of v] by simp
  moreover have "hq_Header req ''Authorization'' \<noteq> []" unfolding assms(1) by simp
  ultimately show ?thesis
    using assms(3-5) by (simp add: presented_tokens_def Let_def)
qed

section \<open>Properties\<close>

text \<open>
  C24. The constant-time loop decides membership: a request is let in exactly when the digest of one
  of the tokens it presents, in either header, is the digest of a configured token; the work done,
  one comparison for every pair, does not depend on the tokens.
\<close>

theorem auth_allows:
  "allows sha (new_authenticator sha tokens) req
     \<longleftrightarrow> list_ex (\<lambda>p. list_ex (\<lambda>t. sha p = sha t) tokens) (presented_tokens req)"
  by (auto simp: allows_iff new_authenticator_def list_ex_iff)

end
