(* ===== verification/GoFloat.thy ===== *)
theory GoFloat
  imports Prelude
begin

text \<open>
  Go's \<open>float64\<close>: IEEE 754 binary64 with round-to-nearest, ties to even, which is what the
  Go specification prescribes for its arithmetic and conversions.

  A finite value is a sign, a mantissa and an exponent that counts in units of the least
  positive float, \<open>2 ^ -1074\<close>: \<open>FFin s m e\<close> stands for \<open>(-1)^s * m * 2^e * 2^-1074\<close>. In canonical
  form (\<open>f64_ok\<close>) the mantissa has 53 bits unless the exponent is 0, so equal numbers are equal
  values (up to the sign of zero). \<open>f64_round s p q e\<close> is the one rounding step of every
  operation: the float nearest to \<open>p / q * 2^e\<close> units.
\<close>

datatype float64 = FNaN | FInf bool | FFin bool int int

section \<open>Rounding a ratio to an integer, ties to even\<close>

definition round_half_even :: "int \<Rightarrow> int \<Rightarrow> int" where
  "round_half_even a b =
     (let q = a div b; r = a mod b
      in if 2 * r < b then q else if b < 2 * r then q + 1 else if even q then q else q + 1)"

lemma round_half_even_bounds:
  "a div b \<le> round_half_even a b" "round_half_even a b \<le> a div b + 1"
  by (simp_all add: round_half_even_def Let_def)

lemma round_half_even_err:
  assumes "0 < b"
  shows "\<bar>2 * (b * round_half_even a b - a)\<bar> \<le> b"
proof -
  let ?q = "a div b" and ?r = "a mod b"
  have r: "0 \<le> ?r" "?r < b" using assms by simp_all
  have "round_half_even a b = ?q \<and> 2 * ?r \<le> b \<or> round_half_even a b = ?q + 1 \<and> b \<le> 2 * ?r"
    by (auto simp: round_half_even_def Let_def)
  then consider "round_half_even a b = ?q" "2 * ?r \<le> b"
    | "round_half_even a b = ?q + 1" "b \<le> 2 * ?r"
    by blast
  then show ?thesis
  proof cases
    case 1
    then have "b * round_half_even a b - a = - ?r"
      using minus_mult_div_eq_mod [of a b] by simp
    with 1 r show ?thesis by simp
  next
    case 2
    then have "b * round_half_even a b - a = b - ?r"
      using minus_mult_div_eq_mod [of a b] by (simp add: algebra_simps)
    with 2 r show ?thesis by simp
  qed
qed

lemma round_half_even_exact: "0 < b \<Longrightarrow> round_half_even (b * k) b = k"
  by (simp add: round_half_even_def)

lemma round_half_even_real:
  assumes "0 < b"
  shows "\<bar>real_of_int (round_half_even a b) - real_of_int a / real_of_int b\<bar> \<le> 1 / 2"
proof -
  let ?m = "round_half_even a b"
  have "2 * (b * ?m - a) \<le> b" "- b \<le> 2 * (b * ?m - a)"
    using round_half_even_err [OF assms, of a] by linarith+
  then have "real_of_int (2 * (b * ?m - a)) \<le> real_of_int b"
    "real_of_int (- b) \<le> real_of_int (2 * (b * ?m - a))"
    by (simp_all only: of_int_le_iff)
  then have "real_of_int ?m \<le> real_of_int a / real_of_int b + 1 / 2"
    "real_of_int a / real_of_int b \<le> real_of_int ?m + 1 / 2"
    using assms by (simp_all add: field_simps)
  then show ?thesis by linarith
qed

text \<open>The integer nearest to a ratio within less than a half is the rounded one.\<close>

lemma round_half_even_unique:
  assumes "0 < b" "\<bar>real_of_int a / real_of_int b - real_of_int k\<bar> < 1 / 2"
  shows "round_half_even a b = k"
  using round_half_even_real [OF assms(1), of a] assms(2) by linarith

section \<open>Bit length\<close>

function nbits :: "int \<Rightarrow> int" where
  "nbits n = (if n \<le> 0 then 0 else 1 + nbits (n div 2))"
  by pat_completeness auto
termination by (relation "measure nat") auto

declare nbits.simps [simp del]

lemma nbits_nonneg [simp]: "0 \<le> nbits n"
  by (induction n rule: nbits.induct) (subst nbits.simps, auto)

lemma nbits_bounds: "0 < n \<Longrightarrow> 2 ^ nat (nbits n - 1) \<le> n \<and> n < 2 ^ nat (nbits n)"
proof (induction n rule: nbits.induct)
  case (1 n)
  show ?case
  proof (cases "n = 1")
    case True
    then show ?thesis by (simp add: nbits.simps)
  next
    case False
    with "1.IH" "1.prems" have IH: "2 ^ nat (nbits (n div 2) - 1) \<le> n div 2" "n div 2 < 2 ^ nat (nbits (n div 2))"
      by simp_all
    have pos: "1 \<le> nbits (n div 2)"
      using False 1(2) by (subst nbits.simps) simp
    have n: "nbits n = 1 + nbits (n div 2)" using 1(2) by (subst nbits.simps) simp
    have "(2::int) ^ nat (nbits n) = 2 * 2 ^ nat (nbits (n div 2))"
      using n by (simp add: nat_add_distrib)
    moreover have "(2::int) ^ nat (nbits n - 1) = 2 * 2 ^ nat (nbits (n div 2) - 1)"
      using n pos by (simp add: nat_diff_distrib flip: power_Suc)
    ultimately show ?thesis using IH by linarith
  qed
qed

lemma nbits_powi:
  assumes "0 < n"
  shows "2 powi (nbits n - 1) \<le> real_of_int n" "real_of_int n < 2 powi nbits n"
proof -
  have "1 \<le> nbits n" using assms by (subst nbits.simps) simp
  then show "2 powi (nbits n - 1) \<le> real_of_int n" "real_of_int n < 2 powi nbits n"
    using nbits_bounds [OF assms] of_int_le_iff [of "2 ^ nat (nbits n - 1)" n, where ?'a = real]
      of_int_less_iff [of n "2 ^ nat (nbits n)", where ?'a = real]
    by (simp_all add: power_int_def)
qed

section \<open>Rounding to a float\<close>

definition f64_pack :: "bool \<Rightarrow> int \<Rightarrow> int \<Rightarrow> float64" where
  "f64_pack s m t =
     (let (m', t') = (if m = 2 ^ 53 then (2 ^ 52, t + 1) else (m, t))
      in if 2045 < t' then FInf s else FFin s m' t')"

text \<open>The exponent of the unit in the last place for \<open>p / q * 2^e\<close>.\<close>

definition f64_ulp_exp :: "int \<Rightarrow> int \<Rightarrow> int \<Rightarrow> int" where
  "f64_ulp_exp p q e =
     (let t0 = max 0 (nbits p - nbits q + e - 53)
      in if p * 2 ^ nat (e - t0) div (q * 2 ^ nat (t0 - e)) < 2 ^ 53 then t0 else t0 + 1)"

definition f64_round :: "bool \<Rightarrow> int \<Rightarrow> int \<Rightarrow> int \<Rightarrow> float64" where
  "f64_round s p q e =
     (if p = 0 then FFin s 0 0
      else
        let t = f64_ulp_exp p q e
        in f64_pack s (round_half_even (p * 2 ^ nat (e - t)) (q * 2 ^ nat (t - e))) t)"

definition f64_ok :: "float64 \<Rightarrow> bool" where
  "f64_ok x \<longleftrightarrow>
     (case x of FNaN \<Rightarrow> True | FInf s \<Rightarrow> True
      | FFin s m e \<Rightarrow> 0 \<le> m \<and> m < 2 ^ 53 \<and> 0 \<le> e \<and> e \<le> 2045 \<and> (e = 0 \<or> 2 ^ 52 \<le> m))"

text \<open>The value of a finite float, in units of \<open>2 ^ -1074\<close>, and the value itself.\<close>

fun f64_units :: "float64 \<Rightarrow> int" where
  "f64_units (FFin s m e) = (if s then - m else m) * 2 ^ nat e"
| "f64_units _ = 0"

fun f64_finite :: "float64 \<Rightarrow> bool" where
  "f64_finite (FFin s m e) = True"
| "f64_finite _ = False"

definition f64_val :: "float64 \<Rightarrow> real" where
  "f64_val x = real_of_int (f64_units x) / 2 ^ 1074"

text \<open>The ratio the rounding step is given, as a real number of units.\<close>

definition units_of :: "int \<Rightarrow> int \<Rightarrow> int \<Rightarrow> real" where
  "units_of p q e = real_of_int p / real_of_int q * 2 powi e"

lemma units_of_scale:
  assumes "0 < q"
  shows "real_of_int (p * 2 ^ nat (e - t)) / real_of_int (q * 2 ^ nat (t - e)) = units_of p q e / 2 powi t"
proof -
  have "(2::real) powi e / 2 powi t = 2 powi (e - t)"
    by (simp add: power_int_diff)
  also have "\<dots> = 2 ^ nat (e - t) / 2 ^ nat (t - e)"
    by (auto simp: power_int_def inverse_eq_divide power_one_over)
  finally have ratio: "(2::real) powi e / 2 powi t = 2 ^ nat (e - t) / 2 ^ nat (t - e)" .
  have "units_of p q e / 2 powi t = real_of_int p / real_of_int q * (2 powi e / 2 powi t)"
    by (simp add: units_of_def)
  then show ?thesis
    unfolding ratio by (simp only: times_divide_times_eq of_int_mult of_int_power of_int_numeral)
qed

lemma powi2_add_nat: "(2::real) powi (t + int n) = 2 powi t * 2 ^ n"
  by (simp add: power_int_add)

lemma powi2_less_imp: "(2::real) powi a < 2 powi b \<Longrightarrow> a < b"
  using power_int_increasing [of b a "2::real"] by (cases "a < b") auto

lemma floor_div_less:
  assumes "0 < b"
  shows "a div b < n \<longleftrightarrow> real_of_int a / real_of_int b < real_of_int n"
proof -
  have "a div b = \<lfloor>real_of_int a / real_of_int b\<rfloor>" by (simp add: floor_divide_of_int_eq)
  then show ?thesis by (simp add: floor_less_iff)
qed

lemma f64_ulp_exp_bounds:
  fixes p q e :: int
  assumes "0 < p" "0 < q"
  defines "t \<equiv> f64_ulp_exp p q e"
  shows "0 \<le> t" "units_of p q e / 2 powi t < 2 ^ 53" "t = 0 \<or> 2 ^ 52 \<le> units_of p q e / 2 powi t"
proof -
  let ?x = "units_of p q e"
  define b where "b = nbits p - nbits q + e"
  define t0 where "t0 = max 0 (b - 53)"
  have lo: "2 powi (b - 1) \<le> ?x" and hi: "?x < 2 powi (b + 1)"
  proof -
    have p: "2 powi (nbits p - 1) \<le> real_of_int p" "real_of_int p < 2 powi nbits p"
      and q: "2 powi (nbits q - 1) \<le> real_of_int q" "real_of_int q < 2 powi nbits q"
      using nbits_powi assms by blast+
    have q0: "0 < real_of_int q" using assms by simp
    have "2 powi (nbits p - 1) / 2 powi nbits q \<le> real_of_int p / real_of_int q"
      using p q q0 assms(1) by (intro frac_le) auto
    then have "2 powi (nbits p - 1) / 2 powi nbits q * 2 powi e \<le> ?x"
      unfolding units_of_def by (intro mult_right_mono) auto
    then show "2 powi (b - 1) \<le> ?x"
      by (simp add: b_def flip: power_int_diff power_int_add) (simp add: algebra_simps)
    have "real_of_int p / real_of_int q < 2 powi nbits p / 2 powi (nbits q - 1)"
      using p q q0 assms(1) by (intro frac_less) auto
    then have "?x < 2 powi nbits p / 2 powi (nbits q - 1) * 2 powi e"
      unfolding units_of_def by (intro mult_strict_right_mono) auto
    then show "?x < 2 powi (b + 1)"
      by (simp add: b_def flip: power_int_diff power_int_add) (simp add: algebra_simps)
  qed
  have cond: "p * 2 ^ nat (e - t0) div (q * 2 ^ nat (t0 - e)) < 2 ^ 53 \<longleftrightarrow> ?x / 2 powi t0 < 2 ^ 53"
    using floor_div_less [of "q * 2 ^ nat (t0 - e)" "p * 2 ^ nat (e - t0)" "2 ^ 53"]
      units_of_scale [OF assms(2), of p e t0] assms(2) by simp
  have t: "t = (if ?x / 2 powi t0 < 2 ^ 53 then t0 else t0 + 1)"
    unfolding t_def f64_ulp_exp_def Let_def b_def [symmetric] t0_def [symmetric] cond ..
  have t0: "0 \<le> t0" "b - 53 \<le> t0" "t0 = 0 \<or> t0 = b - 53" by (auto simp: t0_def)
  show "0 \<le> t" using t t0 by simp
  have up: "?x / 2 powi t0 < 2 ^ 54"
  proof -
    have "?x < 2 powi (t0 + 54)"
      using hi t0(2) power_int_increasing [of "b + 1" "t0 + 54" "2::real"] by simp
    also have "\<dots> = 2 powi t0 * 2 ^ 54" using powi2_add_nat [of t0 54] by simp
    finally show ?thesis by (simp add: field_simps)
  qed
  show "?x / 2 powi t < 2 ^ 53"
    using up by (auto simp: t power_int_add field_simps)
  show "t = 0 \<or> 2 ^ 52 \<le> ?x / 2 powi t"
  proof (cases "?x / 2 powi t0 < 2 ^ 53")
    case True
    then have "t = t0" by (simp add: t)
    moreover have "2 ^ 52 \<le> ?x / 2 powi t0" if "t0 = b - 53"
    proof -
      have "b - 1 = t0 + int 52" using that by simp
      then have "2 powi t0 * 2 ^ 52 = (2::real) powi (b - 1)"
        by (simp only: powi2_add_nat)
      with lo show ?thesis by (simp add: field_simps)
    qed
    ultimately show ?thesis using t0(3) by auto
  next
    case False
    then have "t = t0 + 1" by (simp add: t)
    with False show ?thesis by (simp add: power_int_add field_simps)
  qed
qed

text \<open>No integer is nearer to the ratio than the rounded one.\<close>

lemma round_half_even_nearest:
  assumes "0 < b"
  shows "\<bar>real_of_int (round_half_even a b) - real_of_int a / real_of_int b\<bar>
    \<le> \<bar>real_of_int k - real_of_int a / real_of_int b\<bar>"
proof (cases "k = round_half_even a b")
  case False
  then have "1 \<le> \<bar>real_of_int k - real_of_int (round_half_even a b)\<bar>" by linarith
  with round_half_even_real [OF assms, of a] show ?thesis by linarith
qed simp

text \<open>What the rounding step computes before it is packed: a mantissa \<open>m\<close> at exponent \<open>t\<close>.\<close>

definition f64_mant :: "int \<Rightarrow> int \<Rightarrow> int \<Rightarrow> int" where
  "f64_mant p q e =
     (let t = f64_ulp_exp p q e
      in round_half_even (p * 2 ^ nat (e - t)) (q * 2 ^ nat (t - e)))"

lemma f64_mant_nearest:
  assumes "0 < p" "0 < q"
  shows "\<bar>real_of_int (f64_mant p q e) - units_of p q e / 2 powi f64_ulp_exp p q e\<bar>
    \<le> \<bar>real_of_int k - units_of p q e / 2 powi f64_ulp_exp p q e\<bar>"
  using round_half_even_nearest [of "q * 2 ^ nat (f64_ulp_exp p q e - e)"
      "p * 2 ^ nat (e - f64_ulp_exp p q e)" k]
    units_of_scale [OF assms(2), of p e "f64_ulp_exp p q e"] assms(2)
  by (simp add: f64_mant_def Let_def)

lemma f64_mant_err:
  assumes "0 < p" "0 < q"
  shows "\<bar>real_of_int (f64_mant p q e) - units_of p q e / 2 powi f64_ulp_exp p q e\<bar> \<le> 1 / 2"
  using round_half_even_real [of "q * 2 ^ nat (f64_ulp_exp p q e - e)"
      "p * 2 ^ nat (e - f64_ulp_exp p q e)"]
    units_of_scale [OF assms(2), of p e "f64_ulp_exp p q e"] assms(2)
  by (simp add: f64_mant_def Let_def)

lemma units_of_nonneg: "0 \<le> p \<Longrightarrow> 0 < q \<Longrightarrow> 0 \<le> units_of p q e"
  by (simp add: units_of_def)

lemma f64_mant_bounds:
  assumes "0 < p" "0 < q"
  shows "0 \<le> f64_mant p q e" "f64_mant p q e \<le> 2 ^ 53"
    "f64_ulp_exp p q e = 0 \<or> 2 ^ 52 \<le> f64_mant p q e"
proof -
  let ?x = "units_of p q e / 2 powi f64_ulp_exp p q e"
  have x: "0 \<le> ?x" "?x < 2 ^ 53"
    using assms units_of_nonneg f64_ulp_exp_bounds(2) [OF assms, of e] by auto
  have near: "\<bar>real_of_int (f64_mant p q e) - ?x\<bar> \<le> 1 / 2" by (rule f64_mant_err [OF assms])
  show "0 \<le> f64_mant p q e" using near x by linarith
  have "real_of_int (f64_mant p q e) < 2 ^ 53 + 1" using near x by linarith
  then have "f64_mant p q e < 2 ^ 53 + 1" by simp
  then show "f64_mant p q e \<le> 2 ^ 53" by simp
  show "f64_ulp_exp p q e = 0 \<or> 2 ^ 52 \<le> f64_mant p q e"
  proof (cases "f64_ulp_exp p q e = 0")
    case False
    then have "2 ^ 52 \<le> ?x" using f64_ulp_exp_bounds(3) [OF assms, of e] by blast
    then have "2 ^ 52 - 1 < real_of_int (f64_mant p q e)" using near by linarith
    then show ?thesis by simp
  qed simp
qed

lemma f64_round_mant:
  "p \<noteq> 0 \<Longrightarrow> f64_round s p q e = f64_pack s (f64_mant p q e) (f64_ulp_exp p q e)"
  by (simp add: f64_round_def f64_mant_def Let_def)

lemma f64_ok_round:
  assumes "0 \<le> p" "0 < q"
  shows "f64_ok (f64_round s p q e)"
proof (cases "p = 0")
  case True
  then show ?thesis by (simp add: f64_round_def f64_ok_def)
next
  case False
  with assms have p: "0 < p" by simp
  show ?thesis
    using f64_mant_bounds [OF p assms(2), of e] f64_ulp_exp_bounds(1) [OF p assms(2), of e] False
    by (auto simp: f64_round_mant f64_pack_def f64_ok_def Let_def)
qed

lemma f64_units_pack:
  assumes "0 \<le> t" "f64_finite (f64_pack s m t)"
  shows "f64_units (f64_pack s m t) = (if s then - m else m) * 2 ^ nat t"
  using assms by (auto simp: f64_pack_def Let_def nat_add_distrib split: if_splits)

lemma powi2_nat: "0 \<le> t \<Longrightarrow> (2::real) powi t = 2 ^ nat t"
  by (simp add: power_int_def)

lemma f64_units_round:
  assumes "0 < p" "0 < q" "f64_finite (f64_round s p q e)"
  shows "real_of_int (f64_units (f64_round s p q e))
    = (if s then - 1 else 1) * real_of_int (f64_mant p q e) * 2 powi f64_ulp_exp p q e"
proof -
  have t: "0 \<le> f64_ulp_exp p q e" by (rule f64_ulp_exp_bounds(1) [OF assms(1,2)])
  have "p \<noteq> 0" using assms(1) by simp
  then show ?thesis
    using f64_units_pack [OF t, of s "f64_mant p q e"] assms(3)
    by (simp add: f64_round_mant powi2_nat [OF t])
qed

text \<open>The rounding error: half a unit in the last place.\<close>

lemma f64_round_err:
  assumes "0 \<le> p" "0 < q" "f64_finite (f64_round False p q e)"
  shows "\<bar>real_of_int (f64_units (f64_round False p q e)) - units_of p q e\<bar>
    \<le> max (units_of p q e / 2 ^ 53) (1 / 2)"
proof (cases "p = 0")
  case True
  then show ?thesis by (simp add: f64_round_def units_of_def)
next
  case False
  with assms(1) have p: "0 < p" by simp
  let ?t = "f64_ulp_exp p q e" and ?x = "units_of p q e" and ?m = "real_of_int (f64_mant p q e)"
  have pos: "(0::real) < 2 powi ?t" by simp
  have "\<bar>?m * 2 powi ?t - ?x\<bar> = \<bar>?m - ?x / 2 powi ?t\<bar> * 2 powi ?t"
  proof -
    have "?m * 2 powi ?t - ?x = (?m - ?x / 2 powi ?t) * 2 powi ?t" by (simp add: left_diff_distrib)
    then show ?thesis by (simp add: abs_mult)
  qed
  also have "\<dots> \<le> 1 / 2 * 2 powi ?t"
    using f64_mant_err [OF p assms(2), of e] by (intro mult_right_mono) auto
  also have "\<dots> \<le> max (?x / 2 ^ 53) (1 / 2)"
    using f64_ulp_exp_bounds(3) [OF p assms(2), of e]
  proof
    assume "?t = 0"
    then show ?thesis by simp
  next
    assume "2 ^ 52 \<le> ?x / 2 powi ?t"
    then have "2 ^ 52 * 2 powi ?t \<le> ?x" by (simp add: field_simps)
    then have "1 / 2 * 2 powi ?t \<le> ?x / 2 ^ 53" by simp
    then show ?thesis by simp
  qed
  finally show ?thesis
    using f64_units_round [OF p assms(2,3)] by simp
qed

text \<open>A ratio that is a float is rounded to itself.\<close>

lemma f64_round_exact:
  assumes "0 \<le> p" "0 < q" "units_of p q e = real_of_int (k * 2 ^ j)" "k < 2 ^ 53"
    "f64_finite (f64_round s p q e)"
  shows "f64_units (f64_round s p q e) = (if s then - 1 else 1) * k * 2 ^ j"
proof (cases "p = 0")
  case True
  then have "k = 0" using assms(3) by (simp add: units_of_def)
  with True show ?thesis by (simp add: f64_round_def)
next
  case False
  with assms(1) have p: "0 < p" by simp
  let ?t = "f64_ulp_exp p q e" and ?x = "units_of p q e"
  have t0: "0 \<le> ?t" by (rule f64_ulp_exp_bounds(1) [OF p assms(2)])
  have k: "0 < k"
  proof -
    have "0 < ?x" using p assms(2) by (simp add: units_of_def)
    then have "0 < real_of_int k * 2 ^ j" using assms(3) by simp
    then show ?thesis by (simp add: zero_less_mult_iff)
  qed
  have tj: "?t \<le> int j"
    using f64_ulp_exp_bounds(3) [OF p assms(2), of e]
  proof
    assume "2 ^ 52 \<le> ?x / 2 powi ?t"
    then have "2 ^ 52 * 2 powi ?t \<le> ?x" by (simp add: field_simps)
    also have "\<dots> < 2 ^ 53 * 2 ^ j"
    proof -
      have "real_of_int k < 2 ^ 53" using assms(4) by simp
      then show ?thesis using assms(3) by simp
    qed
    finally have "(2::real) powi (?t + int 52) < 2 powi (int j + int 53)"
      by (simp only: powi2_add_nat power_int_of_nat mult.commute)
    then have "?t + int 52 < int j + int 53"
      by (rule powi2_less_imp)
    then show ?thesis by simp
  qed simp
  have x: "?x / 2 powi ?t = real_of_int (k * 2 ^ (j - nat ?t))"
  proof -
    have "(2::real) ^ j = 2 ^ (j - nat ?t) * 2 ^ nat ?t"
      using tj t0 by (simp flip: power_add)
    then show ?thesis using assms(3) by (simp add: powi2_nat [OF t0])
  qed
  have "f64_mant p q e = k * 2 ^ (j - nat ?t)"
    using f64_mant_nearest [OF p assms(2), of e "k * 2 ^ (j - nat ?t)"]
    unfolding x by (simp only: diff_self abs_zero)
  then have "f64_units (f64_round s p q e) = (if s then - 1 else 1) * (k * 2 ^ (j - nat ?t)) * 2 ^ nat ?t"
    using f64_units_pack [OF t0, of s "f64_mant p q e"] assms(5) False
    by (simp add: f64_round_mant)
  also have "\<dots> = (if s then - 1 else 1) * k * (2 ^ (j - nat ?t) * 2 ^ nat ?t)" by simp
  also have "\<dots> = (if s then - 1 else 1) * k * 2 ^ j"
    using tj t0 by (simp flip: power_add)
  finally show ?thesis .
qed

text \<open>Only a ratio beyond the largest float overflows.\<close>

lemma f64_round_finite:
  assumes "0 \<le> p" "0 < q" "units_of p q e < 2 ^ 2097"
  shows "f64_finite (f64_round s p q e)"
proof (cases "p = 0")
  case True
  then show ?thesis by (simp add: f64_round_def)
next
  case False
  with assms(1) have p: "0 < p" by simp
  let ?t = "f64_ulp_exp p q e"
  have "?t < 2045"
    using f64_ulp_exp_bounds(3) [OF p assms(2), of e]
  proof
    assume "2 ^ 52 \<le> units_of p q e / 2 powi ?t"
    then have "2 ^ 52 * 2 powi ?t \<le> units_of p q e" by (simp add: field_simps)
    then have "2 powi ?t * 2 ^ 52 < (2::real) ^ 2097" using assms(3) by (simp only: mult.commute)
    then have "(2::real) powi (?t + int 52) < 2 powi (int 2097)"
      by (simp only: powi2_add_nat power_int_of_nat)
    then have "?t + int 52 < int 2097"
      by (rule powi2_less_imp)
    then show ?thesis by simp
  qed simp
  then show ?thesis
    using False by (auto simp: f64_round_mant f64_pack_def Let_def)
qed

section \<open>Arithmetic\<close>

text \<open>Go constants: \<open>0\<close> and \<open>1\<close> as \<open>float64\<close>, and \<open>float64(n)\<close> for an integer.\<close>

definition f64_zero :: float64 where
  "f64_zero = FFin False 0 0"

definition f64_of_int :: "int \<Rightarrow> float64" where
  "f64_of_int n = f64_round (n < 0) \<bar>n\<bar> 1 1074"

definition f64_one :: float64 where
  "f64_one = FFin False (2 ^ 52) 1022"

definition signed_mant :: "bool \<Rightarrow> int \<Rightarrow> int" where
  "signed_mant s m = (if s then - m else m)"

text \<open>The sum of two finite values is exact before it is rounded; an exact zero is \<open>+0\<close>
  unless both operands are negative zeros.\<close>

fun f64_add :: "float64 \<Rightarrow> float64 \<Rightarrow> float64" where
  "f64_add (FFin s m e) (FFin s' m' e') =
     (let l = min e e';
          a = signed_mant s m * 2 ^ nat (e - l) + signed_mant s' m' * 2 ^ nat (e' - l)
      in if a = 0 then FFin (s \<and> s') 0 0 else f64_round (a < 0) \<bar>a\<bar> 1 l)"
| "f64_add (FInf s) (FInf s') = (if s = s' then FInf s else FNaN)"
| "f64_add (FInf s) (FFin s' m' e') = FInf s"
| "f64_add (FFin s m e) (FInf s') = FInf s'"
| "f64_add _ _ = FNaN"

fun f64_mul :: "float64 \<Rightarrow> float64 \<Rightarrow> float64" where
  "f64_mul (FFin s m e) (FFin s' m' e') =
     (if m = 0 \<or> m' = 0 then FFin (s \<noteq> s') 0 0
      else f64_round (s \<noteq> s') (m * m') 1 (e + e' - 1074))"
| "f64_mul (FInf s) (FInf s') = FInf (s \<noteq> s')"
| "f64_mul (FInf s) (FFin s' m' e') = (if m' = 0 then FNaN else FInf (s \<noteq> s'))"
| "f64_mul (FFin s m e) (FInf s') = (if m = 0 then FNaN else FInf (s \<noteq> s'))"
| "f64_mul _ _ = FNaN"

fun f64_div :: "float64 \<Rightarrow> float64 \<Rightarrow> float64" where
  "f64_div (FFin s m e) (FFin s' m' e') =
     (if m' = 0 then (if m = 0 then FNaN else FInf (s \<noteq> s'))
      else if m = 0 then FFin (s \<noteq> s') 0 0
      else f64_round (s \<noteq> s') m m' (e - e' + 1074))"
| "f64_div (FInf s) (FInf s') = FNaN"
| "f64_div (FInf s) (FFin s' m' e') = FInf (s \<noteq> s')"
| "f64_div (FFin s m e) (FInf s') = FFin (s \<noteq> s') 0 0"
| "f64_div _ _ = FNaN"

text \<open>Comparison; every comparison with NaN is false, and the two zeros are equal.\<close>

fun f64_lt :: "float64 \<Rightarrow> float64 \<Rightarrow> bool" where
  "f64_lt (FFin s m e) (FFin s' m' e') =
     (let l = min e e'
      in signed_mant s m * 2 ^ nat (e - l) < signed_mant s' m' * 2 ^ nat (e' - l))"
| "f64_lt (FInf s) (FInf s') = (s \<and> \<not> s')"
| "f64_lt (FInf s) (FFin s' m' e') = s"
| "f64_lt (FFin s m e) (FInf s') = (\<not> s')"
| "f64_lt _ _ = False"

fun f64_eq :: "float64 \<Rightarrow> float64 \<Rightarrow> bool" where
  "f64_eq (FFin s m e) (FFin s' m' e') =
     (let l = min e e'
      in signed_mant s m * 2 ^ nat (e - l) = signed_mant s' m' * 2 ^ nat (e' - l))"
| "f64_eq (FInf s) (FInf s') = (s = s')"
| "f64_eq _ _ = False"

text \<open>
  \<open>int64(x)\<close>: truncation towards zero. Go leaves the result for a value outside the range of
  \<open>int64\<close> to the implementation; there, and for NaN and infinities, the model has \<open>None\<close>.
\<close>

fun f64_to_int64 :: "float64 \<Rightarrow> int option" where
  "f64_to_int64 (FFin s m e) =
     (let n = (m * 2 ^ nat (e - 1074)) div 2 ^ nat (1074 - e);
          v = (if s then - n else n)
      in if - (2 ^ 63) \<le> v \<and> v < 2 ^ 63 then Some v else None)"
| "f64_to_int64 _ = None"

lemma signed_mant_units: "f64_units (FFin s m e) = signed_mant s m * 2 ^ nat e"
  by (simp add: signed_mant_def)

lemma f64_align:
  assumes "0 \<le> l" "l \<le> e"
  shows "signed_mant s m * 2 ^ nat (e - l) * 2 ^ nat l = f64_units (FFin s m e)"
proof -
  have "nat e = nat (e - l) + nat l" using assms by simp
  then show ?thesis by (simp add: signed_mant_def power_add)
qed

lemma f64_lt_units:
  assumes "f64_ok x" "f64_ok y" "f64_finite x" "f64_finite y"
  shows "f64_lt x y \<longleftrightarrow> f64_units x < f64_units y"
proof -
  obtain s m e s' m' e' where xy: "x = FFin s m e" "y = FFin s' m' e'"
    using assms(3,4) by (cases x; cases y) auto
  let ?l = "min e e'"
  have l: "0 \<le> ?l" "?l \<le> e" "?l \<le> e'" using assms xy by (auto simp: f64_ok_def)
  let ?a = "signed_mant s m * 2 ^ nat (e - ?l)" and ?b = "signed_mant s' m' * 2 ^ nat (e' - ?l)"
  have "?a < ?b \<longleftrightarrow> ?a * 2 ^ nat ?l < ?b * 2 ^ nat ?l"
    by (rule mult_less_cancel_right_pos [symmetric]) simp
  then show ?thesis
    using f64_align [OF l(1,2)] f64_align [OF l(1,3)] by (simp only: xy f64_lt.simps Let_def)
qed

lemma f64_eq_units:
  assumes "f64_ok x" "f64_ok y" "f64_finite x" "f64_finite y"
  shows "f64_eq x y \<longleftrightarrow> f64_units x = f64_units y"
proof -
  obtain s m e s' m' e' where xy: "x = FFin s m e" "y = FFin s' m' e'"
    using assms(3,4) by (cases x; cases y) auto
  let ?l = "min e e'"
  have l: "0 \<le> ?l" "?l \<le> e" "?l \<le> e'" using assms xy by (auto simp: f64_ok_def)
  let ?a = "signed_mant s m * 2 ^ nat (e - ?l)" and ?b = "signed_mant s' m' * 2 ^ nat (e' - ?l)"
  have "?a = ?b \<longleftrightarrow> ?a * 2 ^ nat ?l = ?b * 2 ^ nat ?l" by simp
  then show ?thesis
    using f64_align [OF l(1,2)] f64_align [OF l(1,3)] by (simp only: xy f64_eq.simps Let_def)
qed

text \<open>Every operation keeps the canonical form.\<close>

lemma f64_ok_add: "f64_ok x \<Longrightarrow> f64_ok y \<Longrightarrow> f64_ok (f64_add x y)"
  by (cases "(x, y)" rule: f64_add.cases)
    (auto simp: Let_def intro!: f64_ok_round simp: f64_ok_def [of "FFin _ 0 0"] f64_ok_def [of FNaN]
      f64_ok_def [of "FInf _"])

lemma f64_ok_mul: "f64_ok x \<Longrightarrow> f64_ok y \<Longrightarrow> f64_ok (f64_mul x y)"
  by (cases "(x, y)" rule: f64_mul.cases)
    (auto intro!: f64_ok_round simp: f64_ok_def [of "FFin _ _ _"] f64_ok_def [of FNaN]
      f64_ok_def [of "FInf _"])

lemma f64_ok_div: "f64_ok x \<Longrightarrow> f64_ok y \<Longrightarrow> f64_ok (f64_div x y)"
  by (cases "(x, y)" rule: f64_div.cases)
    (auto intro!: f64_ok_round simp: f64_ok_def [of "FFin _ _ _"] f64_ok_def [of FNaN]
      f64_ok_def [of "FInf _"])

lemma f64_ok_of_int: "f64_ok (f64_of_int n)"
  by (simp add: f64_of_int_def f64_ok_round)

lemma f64_ok_consts: "f64_ok f64_zero" "f64_ok f64_one" "f64_ok FNaN" "f64_ok (FInf s)"
  by (simp_all add: f64_ok_def f64_zero_def f64_one_def)

end
