(* ===== verification/GoStrconv.thy ===== *)
theory GoStrconv
  imports GoStrings GoFloat
begin

text \<open>
  Package \<open>strconv\<close>: \<open>Itoa\<close>, \<open>Atoi\<close>, \<open>ParseFloat\<close> and \<open>FormatFloat(x, 'f', 2, 64)\<close>.
  \<open>ParseFloat\<close> reads the whole Go grammar (sign, decimal or hexadecimal mantissa, underscores,
  exponent, infinities and NaN) and rounds the exact value once; \<open>FormatFloat\<close> rounds the
  exact value to two decimals once. Both ends are what the package documents.
\<close>

datatype num_error = ErrSyntax | ErrRange

section \<open>Decimal digits\<close>

definition digit_char :: "int \<Rightarrow> char" where
  "digit_char d = chr (48 + d)"

definition digit_val :: "char \<Rightarrow> int option" where
  "digit_val c = (if 48 \<le> byte c \<and> byte c \<le> 57 then Some (byte c - 48) else None)"

lemma digit_val_char [simp]: "0 \<le> d \<Longrightarrow> d < 10 \<Longrightarrow> digit_val (digit_char d) = Some d"
  by (simp add: digit_char_def digit_val_def)

function dec_digits :: "int \<Rightarrow> string" where
  "dec_digits n = (if n < 10 then [digit_char n] else dec_digits (n div 10) @ [digit_char (n mod 10)])"
  by pat_completeness auto
termination by (relation "measure nat") auto

declare dec_digits.simps [simp del]

definition itoa :: "int \<Rightarrow> string" where
  "itoa n = (if n < 0 then CHR ''-'' # dec_digits (- n) else dec_digits n)"

text \<open>The value of a string of digits read after \<open>n\<close>; \<open>None\<close> at any other byte.\<close>

fun digits_from :: "int \<Rightarrow> string \<Rightarrow> int option" where
  "digits_from n [] = Some n"
| "digits_from n (c # cs) =
     (case digit_val c of None \<Rightarrow> None | Some d \<Rightarrow> digits_from (10 * n + d) cs)"

lemma digits_from_append:
  "digits_from n (a @ b) = (case digits_from n a of None \<Rightarrow> None | Some m \<Rightarrow> digits_from m b)"
  by (induction n a rule: digits_from.induct) (auto split: option.splits)

lemma digits_from_dec_digits: "0 \<le> n \<Longrightarrow> digits_from 0 (dec_digits n) = Some n"
proof (induction n rule: dec_digits.induct)
  case (1 n)
  show ?case
  proof (cases "n < 10")
    case True
    with 1 show ?thesis by (subst dec_digits.simps) simp
  next
    case False
    with 1 show ?thesis by (subst dec_digits.simps) (simp add: digits_from_append)
  qed
qed

lemma dec_digits_not_Nil [simp]: "dec_digits n \<noteq> []"
  by (subst dec_digits.simps) simp

lemma dec_digits_digit: "0 \<le> n \<Longrightarrow> c \<in> set (dec_digits n) \<Longrightarrow> \<exists>d. 0 \<le> d \<and> d < 10 \<and> c = digit_char d"
proof (induction n rule: dec_digits.induct)
  case (1 n)
  show ?case
  proof (cases "n < 10")
    case True
    with 1 show ?thesis by (subst (asm) dec_digits.simps) (auto intro: exI [of _ n])
  next
    case False
    with 1(3) have "c \<in> set (dec_digits (n div 10)) \<or> c = digit_char (n mod 10)"
      by (subst (asm) dec_digits.simps) auto
    then show ?thesis
      using 1(1) [OF False] False by (auto intro: exI [of _ "n mod 10"])
  qed
qed

section \<open>Atoi\<close>

text \<open>\<open>ParseUint\<close> in base 10: out of range is reported at the digit that leaves 64 bits.\<close>

fun parse_uint :: "int \<Rightarrow> string \<Rightarrow> num_error + int" where
  "parse_uint n [] = Inr n"
| "parse_uint n (c # cs) =
     (case digit_val c of
        None \<Rightarrow> Inl ErrSyntax
      | Some d \<Rightarrow> if 2 ^ 64 \<le> 10 * n + d then Inl ErrRange else parse_uint (10 * n + d) cs)"

definition atoi :: "string \<Rightarrow> num_error + int" where
  "atoi s =
     (let neg = (s \<noteq> [] \<and> hd s = CHR ''-'');
          ds = (if s \<noteq> [] \<and> (hd s = CHR ''-'' \<or> hd s = CHR ''+'') then tl s else s)
      in if ds = [] then Inl ErrSyntax
         else res_bind (parse_uint 0 ds)
           (\<lambda>n. if neg then (if 2 ^ 63 < n then Inl ErrRange else Inr (- n))
                else (if 2 ^ 63 \<le> n then Inl ErrRange else Inr n)))"

lemma digits_from_mono:
  assumes "0 \<le> n" "digits_from n cs = Some m"
  shows "n \<le> m"
  using assms
proof (induction n cs rule: digits_from.induct)
  case (2 n c cs)
  then obtain d where d: "digit_val c = Some d" "digits_from (10 * n + d) cs = Some m"
    by (auto split: option.splits)
  have "0 \<le> d" using d(1) by (auto simp: digit_val_def split: if_splits)
  then show ?case using "2.IH" [OF d(1)] d(2) "2.prems"(1) by simp
qed simp

lemma parse_uint_digits:
  assumes "0 \<le> n" "digits_from n cs = Some m" "m < 2 ^ 64"
  shows "parse_uint n cs = Inr m"
  using assms
proof (induction n cs rule: digits_from.induct)
  case (2 n c cs)
  then obtain d where d: "digit_val c = Some d" "digits_from (10 * n + d) cs = Some m"
    by (auto split: option.splits)
  have d0: "0 \<le> 10 * n + d" using d(1) 2(2) by (auto simp: digit_val_def split: if_splits)
  then have "10 * n + d \<le> m" using d(2) by (rule digits_from_mono)
  then show ?case using "2.IH" [OF d(1) d0 d(2) 2(4)] 2(4) d by simp
qed simp

lemma digit_char_not_sign:
  "0 \<le> d \<Longrightarrow> d < 10 \<Longrightarrow> digit_char d \<noteq> CHR ''-'' \<and> digit_char d \<noteq> CHR ''+''
     \<and> digit_char d \<noteq> CHR ''.'' \<and> digit_char d \<noteq> CHR ''_''"
  using digit_val_char [of d] by (auto simp: digit_val_def byte_def)

lemma hd_dec_digits_not_sign:
  "0 \<le> n \<Longrightarrow> hd (dec_digits n) \<noteq> CHR ''-'' \<and> hd (dec_digits n) \<noteq> CHR ''+''"
  using dec_digits_digit [of n "hd (dec_digits n)"] digit_char_not_sign by force

lemma atoi_itoa:
  assumes "- (2 ^ 63) \<le> n" "n < 2 ^ 63"
  shows "atoi (itoa n) = Inr n"
proof (cases "n < 0")
  case True
  have "parse_uint 0 (dec_digits (- n)) = Inr (- n)"
    by (rule parse_uint_digits) (use True assms digits_from_dec_digits [of "- n"] in auto)
  with True assms show ?thesis by (simp add: atoi_def itoa_def)
next
  case False
  have "parse_uint 0 (dec_digits n) = Inr n"
    by (rule parse_uint_digits) (use False assms digits_from_dec_digits [of n] in auto)
  with False assms hd_dec_digits_not_sign [of n] show ?thesis by (simp add: atoi_def itoa_def)
qed

lemma atoi_range: "atoi s = Inr n \<Longrightarrow> - (2 ^ 63) \<le> n \<and> n < 2 ^ 63"
proof -
  have nn: "parse_uint k cs = Inr m \<Longrightarrow> 0 \<le> k \<Longrightarrow> 0 \<le> m" for k cs m
    by (induction k cs rule: parse_uint.induct)
      (auto simp: digit_val_def split: option.splits if_splits)
  show "atoi s = Inr n \<Longrightarrow> - (2 ^ 63) \<le> n \<and> n < 2 ^ 63"
    by (auto simp: atoi_def Let_def res_bind_Inr_iff dest!: nn split: if_splits)
qed

section \<open>ParseFloat\<close>

definition hex_val :: "char \<Rightarrow> int option" where
  "hex_val c =
     (case digit_val c of
        Some d \<Rightarrow> Some d
      | None \<Rightarrow>
          if 97 \<le> byte c \<and> byte c \<le> 102 then Some (byte c - 87)
          else if 65 \<le> byte c \<and> byte c \<le> 70 then Some (byte c - 55) else None)"

text \<open>
  The mantissa loop of \<open>readFloat\<close>. The state is whether a point and a digit were seen, the
  digits so far as a number, and how many of them follow the point; the result adds what is left.
\<close>

record mant_state =
  ms_sawdot :: bool
  ms_sawdigits :: bool
  ms_mant :: int
  ms_frac :: int

fun read_mant :: "bool \<Rightarrow> mant_state \<Rightarrow> string \<Rightarrow> mant_state \<times> string" where
  "read_mant hex st [] = (st, [])"
| "read_mant hex st (c # cs) =
     (if c = CHR ''_'' then read_mant hex st cs
      else if c = CHR ''.'' then
        (if ms_sawdot st then (st, c # cs) else read_mant hex (st\<lparr>ms_sawdot := True\<rparr>) cs)
      else
        (case (if hex then hex_val c else digit_val c) of
           None \<Rightarrow> (st, c # cs)
         | Some d \<Rightarrow>
             read_mant hex
               (st\<lparr>ms_sawdigits := True, ms_mant := ms_mant st * (if hex then 16 else 10) + d,
                   ms_frac := ms_frac st + (if ms_sawdot st then 1 else 0)\<rparr>) cs))"

text \<open>The exponent digits; the accumulator stops growing at 10000, as in the source.\<close>

fun read_exp :: "int \<Rightarrow> string \<Rightarrow> int \<times> string" where
  "read_exp e [] = (e, [])"
| "read_exp e (c # cs) =
     (if c = CHR ''_'' then read_exp e cs
      else case digit_val c of
        None \<Rightarrow> (e, c # cs)
      | Some d \<Rightarrow> read_exp (if e < 10000 then e * 10 + d else e) cs)"

text \<open>\<open>underscoreOK\<close>: an underscore must follow a digit (or the base prefix) and precede one.\<close>

datatype saw = SawStart | SawDigit | SawUnderscore | SawOther

fun underscore_scan :: "bool \<Rightarrow> saw \<Rightarrow> string \<Rightarrow> bool" where
  "underscore_scan hex s [] = (s \<noteq> SawUnderscore)"
| "underscore_scan hex s (c # cs) =
     (if digit_val c \<noteq> None \<or> (hex \<and> hex_val c \<noteq> None) then underscore_scan hex SawDigit cs
      else if c = CHR ''_'' then s = SawDigit \<and> underscore_scan hex SawUnderscore cs
      else s \<noteq> SawUnderscore \<and> underscore_scan hex SawOther cs)"

definition strip_sign :: "string \<Rightarrow> bool \<times> string" where
  "strip_sign s =
     (if s \<noteq> [] \<and> hd s = CHR ''-'' then (True, tl s)
      else if s \<noteq> [] \<and> hd s = CHR ''+'' then (False, tl s) else (False, s))"

definition hex_prefix :: "string \<Rightarrow> bool" where
  "hex_prefix s \<longleftrightarrow> 2 < length s \<and> hd s = CHR ''0'' \<and> (s ! 1 = CHR ''x'' \<or> s ! 1 = CHR ''X'')"

definition underscore_ok :: "string \<Rightarrow> bool" where
  "underscore_ok s =
     (let body = snd (strip_sign s)
      in if 2 \<le> length body \<and> hd body = CHR ''0''
            \<and> body ! 1 \<in> {CHR ''b'', CHR ''B'', CHR ''o'', CHR ''O'', CHR ''x'', CHR ''X''}
         then underscore_scan (body ! 1 \<in> {CHR ''x'', CHR ''X''}) SawDigit (drop 2 body)
         else underscore_scan False SawStart body)"

text \<open>The whole of \<open>readFloat\<close>: sign, base, mantissa and exponent of a well-formed number.\<close>

record float_lit =
  fl_neg :: bool
  fl_hex :: bool
  fl_mant :: int
  fl_exp :: int

definition read_float :: "string \<Rightarrow> float_lit option" where
  "read_float s =
     (let (neg, body) = strip_sign s;
          hex = hex_prefix body;
          (st, rest) = read_mant hex \<lparr>ms_sawdot = False, ms_sawdigits = False, ms_mant = 0, ms_frac = 0\<rparr>
             (if hex then drop 2 body else body);
          frac = - ms_frac st * (if hex then 4 else 1);
          lit = (\<lambda>e. \<lparr>fl_neg = neg, fl_hex = hex, fl_mant = ms_mant st, fl_exp = frac + e\<rparr>);
          ok = (CHR ''_'' \<notin> set s \<or> underscore_ok s)
      in if \<not> ms_sawdigits st then None
         else
           case rest of
             [] \<Rightarrow> if hex \<or> \<not> ok then None else Some (lit 0)
           | c # cs \<Rightarrow>
               if c \<in> (if hex then {CHR ''p'', CHR ''P''} else {CHR ''e'', CHR ''E''}) then
                 (let (eneg, ds) = strip_sign cs
                  in if ds = [] \<or> digit_val (hd ds) = None then None
                     else
                       let (e, rest') = read_exp 0 ds
                       in if rest' \<noteq> [] \<or> \<not> ok then None else Some (lit (if eneg then - e else e)))
               else None)"

definition lit_value :: "float_lit \<Rightarrow> float64" where
  "lit_value l =
     (if fl_hex l then f64_round (fl_neg l) (fl_mant l) 1 (1074 + fl_exp l)
      else f64_round (fl_neg l) (fl_mant l * 10 ^ nat (fl_exp l)) (10 ^ nat (- fl_exp l)) 1074)"

definition special_float :: "string \<Rightarrow> float64 option" where
  "special_float s =
     (let (neg, body) = strip_sign s;
          fold = map fold_ascii (map byte body)
      in if fold = map byte ''inf'' \<or> fold = map byte ''infinity'' then Some (FInf neg)
         else if map fold_ascii (map byte s) = map byte ''nan'' then Some FNaN else None)"

definition parse_float :: "string \<Rightarrow> num_error + float64" where
  "parse_float s =
     (case special_float s of
        Some x \<Rightarrow> Inr x
      | None \<Rightarrow>
          (case read_float s of
             None \<Rightarrow> Inl ErrSyntax
           | Some l \<Rightarrow>
               (let x = lit_value l in if f64_finite x then Inr x else Inl ErrRange)))"

section \<open>FormatFloat with two decimals\<close>

definition two_digits :: "int \<Rightarrow> string" where
  "two_digits n = [digit_char (n div 10), digit_char (n mod 10)]"

definition cents_text :: "bool \<Rightarrow> int \<Rightarrow> string" where
  "cents_text s c = (if s then ''-'' else []) @ dec_digits (c div 100) @ ''.'' @ two_digits (c mod 100)"

text \<open>The number of hundredths nearest to the magnitude of a finite float.\<close>

definition f64_cents :: "int \<Rightarrow> int \<Rightarrow> int" where
  "f64_cents m e = round_half_even (100 * m * 2 ^ nat (e - 1074)) (2 ^ nat (1074 - e))"

fun format_fixed2 :: "float64 \<Rightarrow> string" where
  "format_fixed2 FNaN = ''NaN''"
| "format_fixed2 (FInf s) = (if s then ''-Inf'' else ''+Inf'')"
| "format_fixed2 (FFin s m e) = cents_text s (f64_cents m e)"

section \<open>Hundredths survive formatting and parsing\<close>

lemma digit_char_byte: "0 \<le> d \<Longrightarrow> d < 10 \<Longrightarrow> byte (digit_char d) = 48 + d"
  by (simp add: digit_char_def)

text \<open>The mantissa loop reads a run of digits as \<open>digits_from\<close> does.\<close>

lemma read_mant_digits:
  assumes "digits_from m0 cs = Some m" "cs \<noteq> []"
  shows "read_mant False \<lparr>ms_sawdot = dot, ms_sawdigits = dig, ms_mant = m0, ms_frac = f\<rparr> (cs @ rest) =
    read_mant False
      \<lparr>ms_sawdot = dot, ms_sawdigits = True, ms_mant = m,
        ms_frac = f + (if dot then int (length cs) else 0)\<rparr> rest"
  using assms
proof (induction cs arbitrary: m0 dig f)
  case Nil
  then show ?case by simp
next
  case (Cons c cs)
  then obtain d where d: "digit_val c = Some d" "digits_from (10 * m0 + d) cs = Some m"
    by (auto split: option.splits)
  then have ne: "c \<noteq> CHR ''_''" "c \<noteq> CHR ''.''"
    by (auto simp: digit_val_def byte_def split: if_splits)
  show ?case
  proof (cases "cs = []")
    case True
    with d ne show ?thesis by (simp add: algebra_simps)
  next
    case False
    then show ?thesis using Cons.IH [OF d(2) False] d(1) ne by (simp add: algebra_simps)
  qed
qed

lemma digits_two_digits:
  "0 \<le> n \<Longrightarrow> n < 100 \<Longrightarrow> digits_from k (two_digits n) = Some (100 * k + n)"
  by (simp add: two_digits_def)

lemma two_digits_digit:
  "0 \<le> n \<Longrightarrow> n < 100 \<Longrightarrow> c \<in> set (two_digits n) \<Longrightarrow> \<exists>d. 0 \<le> d \<and> d < 10 \<and> c = digit_char d"
  by (auto simp: two_digits_def intro: exI [of _ "n div 10"] exI [of _ "n mod 10"])

lemma cents_text_not_underscore: "0 \<le> c \<Longrightarrow> CHR ''_'' \<notin> set (cents_text s c)"
proof -
  assume c: "0 \<le> c"
  have "CHR ''_'' \<notin> set (dec_digits (c div 100))"
    using dec_digits_digit [of "c div 100" "CHR ''_''"] digit_char_not_sign c by fastforce
  moreover have "CHR ''_'' \<notin> set (two_digits (c mod 100))"
    using two_digits_digit [of "c mod 100" "CHR ''_''"] digit_char_not_sign by fastforce
  ultimately show ?thesis by (simp add: cents_text_def)
qed

lemma strip_sign_digits:
  "0 \<le> n \<Longrightarrow> strip_sign (dec_digits n @ t) = (False, dec_digits n @ t)"
  using hd_dec_digits_not_sign [of n] by (simp add: strip_sign_def)

lemma strip_sign_cents:
  "0 \<le> c \<Longrightarrow> strip_sign (cents_text s c) = (s, cents_text False c)"
  using strip_sign_digits [of "c div 100"]
  by (cases s) (simp_all add: cents_text_def, simp add: strip_sign_def)

lemma not_hex_prefix_cents: "0 \<le> c \<Longrightarrow> \<not> hex_prefix (cents_text False c)"
proof
  assume c: "0 \<le> c" and h: "hex_prefix (cents_text False c)"
  let ?ds = "dec_digits (c div 100)"
  have x: "cents_text False c ! 1 \<in> {CHR ''x'', CHR ''X''}" using h by (auto simp: hex_prefix_def)
  have "cents_text False c ! 1 \<in> set ?ds \<union> {CHR ''.''}"
    by (cases ?ds; cases "tl ?ds") (auto simp: cents_text_def)
  with x have "cents_text False c ! 1 \<in> set ?ds" by auto
  moreover have "0 \<le> c div 100" using c by simp
  ultimately obtain d where d: "0 \<le> d" "d < 10" "cents_text False c ! 1 = digit_char d"
    using dec_digits_digit by blast
  have "byte (cents_text False c ! 1) < 60" using d by (simp add: digit_char_byte)
  then show False using x by (auto simp: byte_def)
qed

lemma read_float_cents:
  assumes "0 \<le> c"
  shows "read_float (cents_text s c) = Some \<lparr>fl_neg = s, fl_hex = False, fl_mant = c, fl_exp = - 2\<rparr>"
proof -
  have m: "0 \<le> c mod 100" "c mod 100 < 100" "0 \<le> c div 100" using assms by simp_all
  have "read_mant False \<lparr>ms_sawdot = False, ms_sawdigits = False, ms_mant = 0, ms_frac = 0\<rparr> (cents_text False c)
    = (\<lparr>ms_sawdot = True, ms_sawdigits = True, ms_mant = c, ms_frac = 2\<rparr>, [])"
  proof -
    have two: "two_digits (c mod 100) \<noteq> []" "length (two_digits (c mod 100)) = 2"
      by (simp_all add: two_digits_def)
    have "100 * (c div 100) + c mod 100 = c" by simp
    then show ?thesis
      using read_mant_digits [OF digits_from_dec_digits [OF m(3)], where rest = "CHR ''.'' # two_digits (c mod 100)"]
        read_mant_digits [OF digits_two_digits [OF m(1,2)] two(1), where rest = "[]"]
      by (simp add: cents_text_def two)
  qed
  then show ?thesis
    using assms cents_text_not_underscore [OF assms] not_hex_prefix_cents [OF assms]
    by (simp add: read_float_def strip_sign_cents Let_def)
qed

lemma special_float_cents: "0 \<le> c \<Longrightarrow> special_float (cents_text s c) = None"
proof -
  assume c: "0 \<le> c"
  have "CHR ''.'' \<in> set (cents_text s' c)" for s' by (simp add: cents_text_def)
  then have dot: "46 \<in> set (map fold_ascii (map byte (cents_text s' c)))" for s'
    by (force simp: fold_ascii_def byte_def image_iff)
  have no: "(46::int) \<notin> set (map byte ''inf'')" "(46::int) \<notin> set (map byte ''infinity'')"
    "(46::int) \<notin> set (map byte ''nan'')"
    by (simp_all add: byte_def)
  have "map fold_ascii (map byte (cents_text s' c)) \<noteq> map byte ''inf''
    \<and> map fold_ascii (map byte (cents_text s' c)) \<noteq> map byte ''infinity''
    \<and> map fold_ascii (map byte (cents_text s' c)) \<noteq> map byte ''nan''" for s'
    using dot [of s'] no by metis
  then show ?thesis
    by (simp add: special_float_def strip_sign_cents [OF c] Let_def del: map_map)
qed

text \<open>The float nearest to \<open>c\<close> hundredths, with a sign.\<close>

definition cents_float :: "bool \<Rightarrow> int \<Rightarrow> float64" where
  "cents_float s c = f64_round s c 100 1074"

lemma units_of_cents: "units_of c 100 1074 = real_of_int c / 100 * 2 ^ 1074"
  by (simp add: units_of_def)

lemma cents_float_finite:
  assumes "0 \<le> c" "c < 2 ^ 52"
  shows "f64_finite (cents_float s c)"
  unfolding cents_float_def
proof (rule f64_round_finite)
  have "real_of_int c < 2 ^ 52" using assms by simp
  then have "units_of c 100 1074 < 2 ^ 52 * 2 ^ 1074"
    unfolding units_of_cents by (intro mult_strict_right_mono) auto
  also have "\<dots> \<le> 2 ^ 2097" by (simp flip: power_add)
  finally show "units_of c 100 1074 < 2 ^ 2097" .
qed (use assms in auto)

lemma parse_float_cents:
  assumes "0 \<le> c" "c < 2 ^ 52"
  shows "parse_float (cents_text s c) = Inr (cents_float s c)"
  using cents_float_finite [OF assms, of s]
  by (simp add: parse_float_def special_float_cents [OF assms(1)] read_float_cents [OF assms(1)]
      lit_value_def cents_float_def Let_def)

lemma f64_round_cases:
  assumes "f64_finite (f64_round s p q e)"
  obtains m t where "f64_round s p q e = FFin s m t" "f64_round False p q e = FFin False m t"
proof (cases "p = 0")
  case True
  then show ?thesis using that by (simp add: f64_round_def)
next
  case False
  then show ?thesis using assms that
    by (auto simp: f64_round_mant f64_pack_def Let_def split: if_splits)
qed

lemma cents_near:
  fixes u c k :: real
  assumes "\<bar>u - c / 100 * k\<bar> \<le> max (c / 100 * k / 2 ^ 53) (1 / 2)" "c < 2 ^ 52" "100 < k"
  shows "\<bar>100 * u / k - c\<bar> < 1 / 2"
proof -
  have "\<bar>100 * u / k - c\<bar> = \<bar>u - c / 100 * k\<bar> * (100 / k)"
  proof -
    have "100 * u / k - c = (u - c / 100 * k) * (100 / k)" using assms(3) by (simp add: field_simps)
    moreover have "\<bar>100 / k\<bar> = 100 / k" using assms(3) by simp
    ultimately show ?thesis by (simp only: abs_mult)
  qed
  also have "\<dots> \<le> max (c / 100 * k / 2 ^ 53) (1 / 2) * (100 / k)"
    using assms(1,3) by (intro mult_right_mono) auto
  also have "\<dots> = max (c / 2 ^ 53) (50 / k)"
    using assms(3) by (auto simp: max_def field_simps)
  also have "\<dots> < 1 / 2"
  proof -
    have "c / 2 ^ 53 < 1 / 2" "50 / k < 1 / 2" using assms(2,3) by (simp_all add: field_simps)
    then show ?thesis by (simp only: max_less_iff_conj)
  qed
  finally show ?thesis .
qed

text \<open>Below \<open>2^52\<close> hundredths the two decimals printed are the hundredths the float stands for.\<close>

lemma cents_float_shape:
  assumes "0 \<le> c" "c < 2 ^ 52"
  shows "\<exists>m t. cents_float s c = FFin s m t \<and> f64_cents m t = c"
proof -
  from cents_float_finite [OF assms, of s]
  obtain m t where r: "cents_float s c = FFin s m t" "f64_round False c 100 1074 = FFin False m t"
    unfolding cents_float_def by (rule f64_round_cases)
  have "f64_ok (f64_round False c 100 1074)" using assms(1) by (intro f64_ok_round) auto
  then have t: "0 \<le> t" by (simp add: r f64_ok_def)
  obtain k :: real where k: "k = 2 ^ 1074" by blast
  let ?u = "real_of_int m * 2 ^ nat t"
  have "\<bar>?u - real_of_int c / 100 * k\<bar> \<le> max (real_of_int c / 100 * k / 2 ^ 53) (1 / 2)"
    using f64_round_err [of c 100 1074] assms(1) unfolding units_of_cents k r(2) by simp
  moreover have "real_of_int c < 2 ^ 52" using assms by simp
  moreover have "100 < k" unfolding k using power_strict_increasing [of 7 1074 "2::real"] by simp
  ultimately have near: "\<bar>100 * ?u / k - real_of_int c\<bar> < 1 / 2" by (rule cents_near)
  have "real_of_int (100 * m * 2 ^ nat (t - 1074)) / real_of_int (1 * 2 ^ nat (1074 - t))
      = units_of (100 * m) 1 t / 2 powi 1074"
    by (rule units_of_scale) simp
  also have "\<dots> = 100 * ?u / k"
  proof -
    have "(2::real) powi 1074 = k" unfolding k by (rule power_int_numeral)
    then show ?thesis by (simp add: units_of_def powi2_nat [OF t] del: power_int_numeral)
  qed
  finally have "f64_cents m t = c"
    unfolding f64_cents_def using near by (intro round_half_even_unique) auto
  then show ?thesis using r(1) by blast
qed

lemma format_cents_float:
  assumes "0 \<le> c" "c < 2 ^ 52"
  shows "format_fixed2 (cents_float s c) = cents_text s c"
  using cents_float_shape [OF assms, of s] by auto

end
