(* ===== verification/GoTime.thy ===== *)
theory GoTime
  imports GoStrconv
begin

text \<open>
  What the service uses of package \<open>time\<close>: durations are \<open>int64\<close> counts of nanoseconds, kept as
  \<open>int\<close> with the wrap-around and the saturation written out; a \<open>Time\<close> is a wall clock reading
  and, when it comes from \<open>time.Now\<close>, a monotonic one. \<open>ParseDuration\<close> follows the library,
  its \<open>uint64\<close> accumulator and its \<open>float64\<close> fraction included.
\<close>

section \<open>Durations\<close>

definition int64_max :: int where "int64_max = 2 ^ 63 - 1"

definition int64_min :: int where "int64_min = - (2 ^ 63)"

definition is_int64 :: "int \<Rightarrow> bool" where
  "is_int64 n \<longleftrightarrow> int64_min \<le> n \<and> n \<le> int64_max"

definition wrap64 :: "int \<Rightarrow> int" where
  "wrap64 n = (n + 2 ^ 63) mod 2 ^ 64 - 2 ^ 63"

lemma is_int64_wrap64: "is_int64 (wrap64 n)"
proof -
  have "0 \<le> (n + 2 ^ 63) mod 2 ^ 64" "(n + 2 ^ 63) mod 2 ^ 64 < (2::int) ^ 64" by simp_all
  then show ?thesis by (simp add: is_int64_def wrap64_def int64_min_def int64_max_def)
qed

lemma wrap64_id: "is_int64 n \<Longrightarrow> wrap64 n = n"
  by (simp add: is_int64_def wrap64_def int64_min_def int64_max_def mod_pos_pos_trivial)

text \<open>Saturation, as \<open>Time.Sub\<close> does it.\<close>

definition sat64 :: "int \<Rightarrow> int" where
  "sat64 n = (if n < int64_min then int64_min else if int64_max < n then int64_max else n)"

lemma is_int64_sat64: "is_int64 (sat64 n)"
  by (simp add: is_int64_def sat64_def int64_min_def int64_max_def)

lemma sat64_id: "is_int64 n \<Longrightarrow> sat64 n = n"
  by (simp add: is_int64_def sat64_def)

lemma sat64_mono: "a \<le> b \<Longrightarrow> sat64 a \<le> sat64 b"
  by (auto simp: sat64_def int64_min_def int64_max_def)

definition Millisecond :: int where "Millisecond = 10 ^ 6"
definition Second :: int where "Second = 10 ^ 9"
definition Minute :: int where "Minute = 60 * Second"
definition Hour :: int where "Hour = 60 * Minute"

text \<open>Go divides towards zero, and the remainder has the sign of the dividend.\<close>

definition quot0 :: "int \<Rightarrow> int \<Rightarrow> int" where
  "quot0 a b = (if a < 0 then - ((- a) div b) else a div b)"

definition rem0 :: "int \<Rightarrow> int \<Rightarrow> int" where
  "rem0 a b = (if a < 0 then - ((- a) mod b) else a mod b)"

lemma quot0_rem0: "b * quot0 a b + rem0 a b = a"
proof (cases "a < 0")
  case True
  have "b * ((- a) div b) + (- a) mod b = - a" by simp
  with True show ?thesis unfolding quot0_def rem0_def by (simp only: if_True mult_minus_right)
qed (simp add: quot0_def rem0_def)

lemma quot0_bounds:
  assumes "0 < b"
  shows "\<bar>a - quot0 a b * b\<bar> < b" "\<bar>quot0 a b * b\<bar> \<le> \<bar>a\<bar>"
proof -
  have pos: "\<bar>n - n div b * b\<bar> < b \<and> \<bar>n div b * b\<bar> \<le> \<bar>n\<bar>" if "0 \<le> n" for n
  proof -
    have "n - n div b * b = n mod b" by (simp add: minus_div_mult_eq_mod)
    moreover have "0 \<le> n mod b" "n mod b < b" using assms by simp_all
    moreover have "0 \<le> n div b * b" using assms that by (simp add: pos_imp_zdiv_nonneg_iff)
    ultimately show ?thesis by linarith
  qed
  have "\<bar>a - quot0 a b * b\<bar> < b \<and> \<bar>quot0 a b * b\<bar> \<le> \<bar>a\<bar>"
  proof (cases "a < 0")
    case True
    then have "quot0 a b * b = - ((- a) div b * b)" by (simp add: quot0_def)
    with True pos [of "- a"] show ?thesis by linarith
  next
    case False
    with pos [of a] show ?thesis by (simp add: quot0_def)
  qed
  then show "\<bar>a - quot0 a b * b\<bar> < b" "\<bar>quot0 a b * b\<bar> \<le> \<bar>a\<bar>" by blast+
qed

definition milliseconds :: "int \<Rightarrow> int" where
  "milliseconds d = quot0 d Millisecond"

definition seconds :: "int \<Rightarrow> float64" where
  "seconds d = f64_add (f64_of_int (quot0 d Second))
     (f64_div (f64_of_int (rem0 d Second)) (f64_of_int Second))"

section \<open>Instants\<close>

record gotime =
  t_wall :: int
  t_mono :: "int option"

text \<open>\<open>t.Sub(u)\<close>: by the monotonic readings when both have one.\<close>

definition time_sub :: "gotime \<Rightarrow> gotime \<Rightarrow> int" where
  "time_sub t u =
     (case (t_mono t, t_mono u) of
        (Some a, Some b) \<Rightarrow> sat64 (a - b)
      | _ \<Rightarrow> sat64 (t_wall t - t_wall u))"

text \<open>
  \<open>t.UTC()\<close> sets the location, which nothing here reads, and with it strips the monotonic reading
  (\<open>setLoc\<close>).
\<close>

definition utc :: "gotime \<Rightarrow> gotime" where
  "utc t = t\<lparr>t_mono := None\<rparr>"

lemma utc_simps [simp]: "t_wall (utc t) = t_wall t" "t_mono (utc t) = None"
  by (simp_all add: utc_def)

lemma is_int64_time_sub: "is_int64 (time_sub t u)"
  by (simp add: time_sub_def is_int64_sat64 split: option.split)

section \<open>ParseDuration\<close>

datatype duration_error = InvalidDuration | MissingUnit | UnknownUnit string

fun leading_int :: "int \<Rightarrow> string \<Rightarrow> (int \<times> string) option" where
  "leading_int x [] = Some (x, [])"
| "leading_int x (c # cs) =
     (case digit_val c of
        None \<Rightarrow> Some (x, c # cs)
      | Some d \<Rightarrow>
          if 2 ^ 63 div 10 < x then None
          else if 2 ^ 63 < x * 10 + d then None
          else leading_int (x * 10 + d) cs)"

fun leading_fraction :: "bool \<Rightarrow> int \<Rightarrow> float64 \<Rightarrow> string \<Rightarrow> int \<times> float64 \<times> string" where
  "leading_fraction overflow x scale [] = (x, scale, [])"
| "leading_fraction overflow x scale (c # cs) =
     (case digit_val c of
        None \<Rightarrow> (x, scale, c # cs)
      | Some d \<Rightarrow>
          if overflow \<or> (2 ^ 63 - 1) div 10 < x \<or> 2 ^ 63 < x * 10 + d
          then leading_fraction True x scale cs
          else leading_fraction False (x * 10 + d) (f64_mul scale (f64_of_int 10)) cs)"

definition unit_of :: "string \<Rightarrow> int option" where
  "unit_of u =
     (if u = ''ns'' then Some 1
      else if u = ''us'' \<or> u = [chr 0xC2, chr 0xB5, CHR ''s''] \<or> u = [chr 0xCE, chr 0xBC, CHR ''s''] then Some 1000
      else if u = ''ms'' then Some Millisecond
      else if u = ''s'' then Some Second
      else if u = ''m'' then Some Minute
      else if u = ''h'' then Some Hour
      else None)"

definition unit_char :: "char \<Rightarrow> bool" where
  "unit_char c \<longleftrightarrow> c \<noteq> CHR ''.'' \<and> digit_val c = None"

text \<open>One number with its unit: its nanoseconds, and what follows.\<close>

definition duration_part :: "string \<Rightarrow> duration_error + (int \<times> string)" where
  "duration_part s =
     (if s = [] \<or> unit_char (hd s) then Inl InvalidDuration
      else case leading_int 0 s of
        None \<Rightarrow> Inl InvalidDuration
      | Some (v, s1) \<Rightarrow>
          let pre = (length s1 \<noteq> length s);
              (f, scale, s2) =
                (if s1 \<noteq> [] \<and> hd s1 = CHR ''.'' then leading_fraction False 0 f64_one (tl s1)
                 else (0, f64_one, s1));
              post = (s1 \<noteq> [] \<and> hd s1 = CHR ''.'' \<and> length s2 \<noteq> length (tl s1));
              u = takeWhile unit_char s2;
              rest = dropWhile unit_char s2
          in if \<not> pre \<and> \<not> post then Inl InvalidDuration
             else if u = [] then Inl MissingUnit
             else case unit_of u of
               None \<Rightarrow> Inl (UnknownUnit u)
             | Some unit \<Rightarrow>
                 if 2 ^ 63 div unit < v then Inl InvalidDuration
                 else
                   let v1 = (if 0 < f
                        then v * unit + (case f64_to_int64 (f64_mul (f64_of_int f)
                               (f64_div (f64_of_int unit) scale)) of Some k \<Rightarrow> k | None \<Rightarrow> 0)
                        else v * unit)
                   in if 2 ^ 63 < v1 then Inl InvalidDuration else Inr (v1, rest))"

lemma leading_int_length: "leading_int x s = Some (v, r) \<Longrightarrow> length r \<le> length s"
  by (induction x s rule: leading_int.induct) (auto split: option.splits if_splits)

lemma leading_fraction_length: "leading_fraction b x sc s = (v, sc', r) \<Longrightarrow> length r \<le> length s"
  by (induction b x sc s rule: leading_fraction.induct) (auto split: option.splits if_splits)

lemma duration_part_length:
  assumes "duration_part s = Inr (v, rest)"
  shows "length rest < length s"
proof -
  obtain v0 s1 where 1: "leading_int 0 s = Some (v0, s1)"
    using assms by (auto simp: duration_part_def split: if_splits option.splits)
  obtain f scale s2 where 2: "(if s1 \<noteq> [] \<and> hd s1 = CHR ''.'' then leading_fraction False 0 f64_one (tl s1)
                 else (0, f64_one, s1)) = (f, scale, s2)" by (metis prod_cases3)
  have 3: "takeWhile unit_char s2 \<noteq> []" "rest = dropWhile unit_char s2"
    using assms unfolding duration_part_def
    by (auto simp: 1 2 Let_def split: if_splits option.splits)
  have "length s2 \<le> length s1"
    using 2 leading_fraction_length [of False 0 f64_one "tl s1"] by (cases s1) (auto split: if_splits)
  also have "\<dots> \<le> length s" using leading_int_length [OF 1] .
  finally have "length s2 \<le> length s" .
  moreover have "length s2 = length (takeWhile unit_char s2) + length rest"
    unfolding 3(2) by (metis length_append takeWhile_dropWhile_id)
  moreover have "0 < length (takeWhile unit_char s2)" using 3(1) by blast
  ultimately show ?thesis by linarith
qed

text \<open>The loop over the parts; the \<open>uint64\<close> sum wraps before it is compared.\<close>

function duration_parts :: "int \<Rightarrow> string \<Rightarrow> duration_error + int" where
  "duration_parts d s =
     (if s = [] then Inr d
      else case duration_part s of
        Inl e \<Rightarrow> Inl e
      | Inr (v, rest) \<Rightarrow>
          if 2 ^ 63 < (d + v) mod 2 ^ 64 then Inl InvalidDuration
          else duration_parts ((d + v) mod 2 ^ 64) rest)"
  by pat_completeness auto
termination
  by (relation "measure (\<lambda>(d, s). length s)") (auto dest: duration_part_length)

declare duration_parts.simps [simp del]

definition parse_duration :: "string \<Rightarrow> duration_error + int" where
  "parse_duration s =
     (let (neg, body) = strip_sign s
      in if body = ''0'' then Inr 0
         else if body = [] then Inl InvalidDuration
         else
           res_bind (duration_parts 0 body) (\<lambda>d.
             if neg then Inr (wrap64 (- d))
             else if int64_max < d then Inl InvalidDuration else Inr d))"

lemma duration_parts_range:
  "duration_parts d s = Inr n \<Longrightarrow> 0 \<le> d \<Longrightarrow> d \<le> 2 ^ 63 \<Longrightarrow> 0 \<le> n \<and> n \<le> 2 ^ 63"
proof (induction d s rule: duration_parts.induct)
  case (1 d s)
  from "1.prems" show ?case
    by (subst (asm) duration_parts.simps)
      (auto split: if_splits sum.splits dest!: "1.IH" simp del: power_numeral)
qed

lemma parse_duration_range:
  assumes "parse_duration s = Inr d"
  shows "is_int64 d"
proof -
  have "is_int64 (wrap64 n)" for n by (rule is_int64_wrap64)
  moreover have "0 \<le> n \<Longrightarrow> n \<le> int64_max \<Longrightarrow> is_int64 n" for n
    by (simp add: is_int64_def int64_min_def)
  moreover have "is_int64 0" by (simp add: is_int64_def int64_min_def int64_max_def)
  ultimately show ?thesis
    using assms unfolding parse_duration_def Let_def
    by (auto simp: res_bind_Inr_iff not_less split: if_splits prod.splits dest!: duration_parts_range)
qed

end
