(* ===== verification/Config.thy ===== *)
theory Config
  imports GoTime
begin

text \<open>
  \<open>internal/config/config.go\<close>: the configuration read from the environment. The environment is
  the function \<open>os.Getenv\<close>, which returns the empty string for a variable that is not set.
  Errors keep what their messages are formatted from; \<open>errors.Join\<close> of a list of errors is the
  list, nil when it is empty. The difference between a nil and an empty slice is not observed of
  any of the lists here, so they are plain lists.
\<close>

section \<open>Lists of settings\<close>

type_synonym getenv = "string \<Rightarrow> string"

fun split_parts :: "string list \<Rightarrow> string list" where
  "split_parts [] = []"
| "split_parts (p # ps) =
     (let p = trim_space p in if p \<noteq> [] then p # split_parts ps else split_parts ps)"

definition split_list :: "string \<Rightarrow> string list" where
  "split_list s = split_parts (split_on s '','')"

definition split_list_default :: "string \<Rightarrow> string \<Rightarrow> string list" where
  "split_list_default s def =
     (let out = split_list s in if 0 < length out then out else split_list def)"

definition lower :: "string list \<Rightarrow> string list" where
  "lower xs = map to_lower xs"

definition parse_merch_patterns :: "string \<Rightarrow> string list" where
  "parse_merch_patterns s = lower (split_list_default s ''hoodie'')"

text \<open>\<open>ParseIntList\<close> fails with the first part that is not a number.\<close>

fun atois :: "string list \<Rightarrow> string + int list" where
  "atois [] = Inr []"
| "atois (part # ps) =
     (case atoi part of
        Inl e \<Rightarrow> Inl part
      | Inr n \<Rightarrow> res_bind (atois ps) (\<lambda>ns. Inr (n # ns)))"

definition parse_int_list :: "string \<Rightarrow> string + int list" where
  "parse_int_list s = atois (split_list s)"

section \<open>Single settings\<close>

datatype config_error =
  BadDuration string duration_error
| DurationNotPositive string string
| NotANumber string string
| BelowOne string int
| BadIntList string string
| MissingEventUUID
| MissingCredential
| MissingAPITokens
| ShortAPIToken
| MissingObject

definition env :: "getenv \<Rightarrow> string \<Rightarrow> string \<Rightarrow> string" where
  "env ev key def = (let v = ev key in if v \<noteq> [] then v else def)"

definition duration :: "getenv \<Rightarrow> string \<Rightarrow> int \<Rightarrow> config_error + int" where
  "duration ev key def =
     (let v = ev key
      in if v = [] then Inr def
         else case parse_duration v of
           Inl e \<Rightarrow> Inl (BadDuration key e)
         | Inr d \<Rightarrow> if d \<le> 0 then Inl (DurationNotPositive key v) else Inr d)"

definition positive_int :: "getenv \<Rightarrow> string \<Rightarrow> int \<Rightarrow> config_error + int" where
  "positive_int ev key def =
     (let v = ev key
      in if v = [] then Inr def
         else case atoi v of
           Inl e \<Rightarrow> Inl (NotANumber key v)
         | Inr n \<Rightarrow> if n < 1 then Inl (BelowOne key n) else Inr n)"

definition ints :: "getenv \<Rightarrow> string \<Rightarrow> config_error + int list" where
  "ints ev key = res_map_err (BadIntList key) (parse_int_list (ev key))"

section \<open>The configuration\<close>

record config =
  cfg_Port :: string
  cfg_BaseURL :: string
  cfg_EventUUID :: string
  cfg_Token :: string
  cfg_File :: string
  cfg_UpstreamTimeout :: int
  cfg_UpstreamAttempts :: int
  cfg_APITokens :: "string list"
  cfg_Bucket :: string
  cfg_Object :: string
  cfg_StaleAfter :: int
  cfg_SponsorTicketTypePKs :: "int list"
  cfg_MerchNamePatterns :: "string list"

definition config_zero :: config where
  "config_zero =
     \<lparr>cfg_Port = [], cfg_BaseURL = [], cfg_EventUUID = [], cfg_Token = [], cfg_File = [],
      cfg_UpstreamTimeout = 0, cfg_UpstreamAttempts = 0, cfg_APITokens = [], cfg_Bucket = [],
      cfg_Object = [], cfg_StaleAfter = 0, cfg_SponsorTicketTypePKs = [], cfg_MerchNamePatterns = []\<rparr>"

fun short_token :: "string list \<Rightarrow> bool" where
  "short_token [] = False"
| "short_token (t # ts) = (if length t < 16 then True else short_token ts)"

definition validate :: "config \<Rightarrow> config_error list" where
  "validate c =
     (let errs = [];
          errs = (if cfg_EventUUID c = [] then errs @ [MissingEventUUID] else errs);
          errs = (if cfg_Token c = [] \<and> cfg_File c = [] then errs @ [MissingCredential] else errs);
          errs = (if cfg_APITokens c = [] then errs @ [MissingAPITokens] else errs);
          errs = (if short_token (cfg_APITokens c) then errs @ [ShortAPIToken] else errs);
          errs = (if cfg_Bucket c = [] \<and> cfg_Object c = [] then errs @ [MissingObject] else errs)
      in errs)"

text \<open>The first literal of \<open>Load\<close>, then the settings that can fail, in order.\<close>

definition load_base :: "getenv \<Rightarrow> config" where
  "load_base ev = config_zero
     \<lparr>cfg_Port := env ev ''PORT'' ''8080'',
      cfg_BaseURL := trim_right_byte (CHR ''/'')
        (env ev ''TICKETBUTLER_BASE_URL'' ''https://cloudnativedenmark.ticketbutler.io''),
      cfg_EventUUID := ev ''TICKETBUTLER_EVENT_UUID'',
      cfg_Token := ev ''TICKETBUTLER_TOKEN'',
      cfg_File := ev ''TICKETBUTLER_FILE'',
      cfg_Bucket := ev ''SNAPSHOT_BUCKET'',
      cfg_Object := env ev ''SNAPSHOT_OBJECT'' ''snapshot.json.gz'',
      cfg_APITokens := split_list (ev ''API_TOKENS''),
      cfg_MerchNamePatterns := parse_merch_patterns (ev ''MERCH_NAME_PATTERNS'')\<rparr>"

definition load_fields :: "getenv \<Rightarrow> config_error + config" where
  "load_fields ev =
     res_bind (duration ev ''UPSTREAM_TIMEOUT'' (10 * Minute)) (\<lambda>timeout.
     res_bind (duration ev ''STALE_AFTER'' (90 * Minute)) (\<lambda>stale.
     res_bind (ints ev ''SPONSOR_TICKET_TYPE_PKS'') (\<lambda>pks.
     res_bind (positive_int ev ''UPSTREAM_ATTEMPTS'' 3) (\<lambda>attempts.
       Inr ((load_base ev)\<lparr>cfg_UpstreamTimeout := timeout, cfg_StaleAfter := stale,
              cfg_SponsorTicketTypePKs := pks, cfg_UpstreamAttempts := attempts\<rparr>)))))"

definition load :: "getenv \<Rightarrow> config \<times> config_error list" where
  "load ev =
     (case load_fields ev of
        Inl e \<Rightarrow> (config_zero, [e])
      | Inr c \<Rightarrow> (c, validate c))"

definition uses_file :: "config \<Rightarrow> bool" where
  "uses_file c \<longleftrightarrow> cfg_File c \<noteq> []"

definition orders_url :: "config \<Rightarrow> string" where
  "orders_url c = cfg_BaseURL c @ ''/api/v3/events/'' @ cfg_EventUUID c @ ''/orders/''"

section \<open>Lists\<close>

lemma split_parts_filter: "split_parts ps = filter (\<lambda>p. p \<noteq> []) (map trim_space ps)"
  by (induction ps) (auto simp: Let_def)

lemma split_list_entry:
  assumes "p \<in> set (split_list s)"
  shows "p \<noteq> []" "trim_space p = p" "CHR '','' \<notin> set p"
proof -
  obtain q where q: "q \<in> set (split_on s '','')" "p = trim_space q" "p \<noteq> []"
    using assms by (auto simp: split_list_def split_parts_filter)
  then show "p \<noteq> []" "trim_space p = p" by simp_all
  obtain a b where "q = a @ p @ b" using trim_space_infix [of q] q(2) by blast
  then have "set p \<subseteq> set q" by auto
  then show "CHR '','' \<notin> set p" using split_on_byte [OF q(1)] by blast
qed

lemma split_list_join:
  assumes "\<And>p. p \<in> set ps \<Longrightarrow> p \<noteq> [] \<and> trim_space p = p \<and> CHR '','' \<notin> set p"
  shows "split_list (join ps '','') = ps"
proof (cases "ps = []")
  case True
  then show ?thesis by (simp add: split_list_def split_on_def trim_space_def segments.simps)
next
  case False
  have "map trim_space ps = ps" using assms by (simp add: map_idI)
  moreover have "filter (\<lambda>p. p \<noteq> []) ps = ps" using assms by (simp add: filter_id_conv)
  moreover have "split_on (join ps '','') '','' = ps" using split_on_join [OF False] assms by blast
  ultimately show ?thesis by (simp add: split_list_def split_parts_filter)
qed

lemma to_lower_eq_Nil [simp]: "to_lower s = [] \<longleftrightarrow> s = []"
  unfolding to_lower_def encode_runes_def by (cases "runes s") (auto simp: runes_def)

lemma res_map_err_Inl_iff: "res_map_err f r = Inl e \<longleftrightarrow> (\<exists>e'. r = Inl e' \<and> e = f e')"
  by (cases r) auto

lemma short_token_iff: "short_token ts \<longleftrightarrow> \<not> list_all (\<lambda>t. 16 \<le> length t) ts"
  by (induction ts) auto

lemma atois_itoa: "list_all is_int64 ns \<Longrightarrow> atois (map itoa ns) = Inr ns"
proof (induction ns)
  case (Cons n ns)
  then have "atoi (itoa n) = Inr n" "atois (map itoa ns) = Inr ns"
    by (simp_all add: atoi_itoa is_int64_def int64_min_def int64_max_def)
  then show ?case by simp
qed simp

lemma itoa_plain: "itoa n \<noteq> [] \<and> trim_space (itoa n) = itoa n \<and> CHR '','' \<notin> set (itoa n)"
proof -
  define ok where "ok c \<longleftrightarrow> byte c < 128 \<and> \<not> unicode_space (byte c) \<and> c \<noteq> CHR '',''" for c
  have digit: "ok (digit_char d)" if "0 \<le> d" "d < 10" for d
  proof -
    have "byte (digit_char d) = 48 + d" using that by (rule digit_char_byte)
    then show ?thesis using that by (auto simp: ok_def unicode_space_def space_runes_def byte_def)
  qed
  have m: "ok (CHR ''-'')" unfolding ok_def by code_simp
  have ds: "ok c" if "c \<in> set (dec_digits m)" "0 \<le> m" for c m
    using dec_digits_digit [OF that(2,1)] digit by blast
  have "set (itoa n) \<subseteq> {CHR ''-''} \<union> set (dec_digits \<bar>n\<bar>)" by (auto simp: itoa_def)
  then have ok: "ok c" if "c \<in> set (itoa n)" for c
    using that m ds [of c "\<bar>n\<bar>"] by auto
  have ne: "itoa n \<noteq> []" by (simp add: itoa_def)
  then have "trim_space (itoa n) = itoa n"
    using ok by (intro trim_space_ascii_id) (auto simp: ascii_def ok_def)
  with ne ok show ?thesis unfolding ok_def by blast
qed

lemma atois_Inl:
  "atois ps = Inl p \<longleftrightarrow>
     (\<exists>pre e post. ps = pre @ p # post \<and> list_all (\<lambda>q. \<not> isl (atoi q)) pre \<and> atoi p = Inl e)"
proof (induction ps)
  case (Cons q ps)
  show ?case
  proof (cases "atoi q")
    case (Inl e)
    then show ?thesis by (auto simp: Cons_eq_append_conv)
  next
    case (Inr n)
    have "(\<exists>pre e post. q # ps = pre @ p # post \<and> list_all (\<lambda>q. \<not> isl (atoi q)) pre \<and> atoi p = Inl e) \<longleftrightarrow>
        (\<exists>pre e post. ps = pre @ p # post \<and> list_all (\<lambda>q. \<not> isl (atoi q)) pre \<and> atoi p = Inl e)"
      (is "?l \<longleftrightarrow> ?r")
    proof
      show "?l \<Longrightarrow> ?r" using Inr by (auto simp: Cons_eq_append_conv)
      assume ?r
      then obtain pre e post where "ps = pre @ p # post" "list_all (\<lambda>q. \<not> isl (atoi q)) pre" "atoi p = Inl e"
        by blast
      then have "q # ps = (q # pre) @ p # post \<and> list_all (\<lambda>q. \<not> isl (atoi q)) (q # pre) \<and> atoi p = Inl e"
        using Inr by simp
      then show ?l by blast
    qed
    then show ?thesis
      using Cons.IH Inr by (simp add: res_bind_Inl_iff)
  qed
qed simp

lemma isr_atois: "\<not> isl (atois ps) \<longleftrightarrow> list_all (\<lambda>p. \<not> isl (atoi p)) ps"
proof (induction ps)
  case (Cons p ps)
  then show ?case by (cases "atoi p"; cases "atois ps") auto
qed simp

section \<open>Loading\<close>

text \<open>What a setting must be for \<open>Load\<close> to accept it.\<close>

definition duration_ok :: "string \<Rightarrow> bool" where
  "duration_ok v \<longleftrightarrow> v = [] \<or> (case parse_duration v of Inl _ \<Rightarrow> False | Inr d \<Rightarrow> 0 < d)"

definition attempts_ok :: "string \<Rightarrow> bool" where
  "attempts_ok v \<longleftrightarrow> v = [] \<or> (case atoi v of Inl _ \<Rightarrow> False | Inr n \<Rightarrow> 1 \<le> n)"

definition int_list_ok :: "string \<Rightarrow> bool" where
  "int_list_ok v \<longleftrightarrow> list_all (\<lambda>p. \<not> isl (atoi p)) (split_list v)"

lemma isr_iff: "\<not> isl r \<longleftrightarrow> (\<exists>x. r = Inr x)"
  by (cases r) auto

lemma isr_duration: "\<not> isl (duration ev key def) \<longleftrightarrow> duration_ok (ev key)"
  by (auto simp: duration_def duration_ok_def Let_def split: sum.splits)

lemma isr_positive_int: "\<not> isl (positive_int ev key def) \<longleftrightarrow> attempts_ok (ev key)"
  by (auto simp: positive_int_def attempts_ok_def Let_def split: sum.splits)

lemma isr_ints: "\<not> isl (ints ev key) \<longleftrightarrow> int_list_ok (ev key)"
  by (cases "parse_int_list (ev key)")
    (use isr_atois [of "split_list (ev key)"] in \<open>auto simp: ints_def int_list_ok_def parse_int_list_def\<close>)

lemma isr_bind: "\<not> isl (res_bind r f) \<longleftrightarrow> (\<exists>x. r = Inr x \<and> \<not> isl (f x))"
  by (cases r) auto

lemma isr_load_fields:
  "\<not> isl (load_fields ev) \<longleftrightarrow>
     duration_ok (ev ''UPSTREAM_TIMEOUT'') \<and> duration_ok (ev ''STALE_AFTER'')
     \<and> int_list_ok (ev ''SPONSOR_TICKET_TYPE_PKS'') \<and> attempts_ok (ev ''UPSTREAM_ATTEMPTS'')"
proof -
  note ok = isr_duration [of ev "''UPSTREAM_TIMEOUT''" "10 * Minute"] isr_duration [of ev "''STALE_AFTER''" "90 * Minute"]
    isr_ints [of ev "''SPONSOR_TICKET_TYPE_PKS''"] isr_positive_int [of ev "''UPSTREAM_ATTEMPTS''" 3]
  show ?thesis
    unfolding ok [symmetric] load_fields_def
    by (cases "duration ev ''UPSTREAM_TIMEOUT'' (10 * Minute)"; cases "duration ev ''STALE_AFTER'' (90 * Minute)";
        cases "ints ev ''SPONSOR_TICKET_TYPE_PKS''"; cases "positive_int ev ''UPSTREAM_ATTEMPTS'' 3") simp_all
qed

text \<open>The settings that cannot fail are those of the literal.\<close>

lemma load_fields_base:
  assumes "load_fields ev = Inr c"
  shows "cfg_Port c = cfg_Port (load_base ev)" "cfg_BaseURL c = cfg_BaseURL (load_base ev)"
    "cfg_EventUUID c = ev ''TICKETBUTLER_EVENT_UUID''" "cfg_Token c = ev ''TICKETBUTLER_TOKEN''"
    "cfg_File c = ev ''TICKETBUTLER_FILE''" "cfg_Bucket c = ev ''SNAPSHOT_BUCKET''"
    "cfg_Object c = cfg_Object (load_base ev)" "cfg_APITokens c = split_list (ev ''API_TOKENS'')"
    "cfg_MerchNamePatterns c = parse_merch_patterns (ev ''MERCH_NAME_PATTERNS'')"
  using assms by (auto simp: load_fields_def res_bind_Inr_iff load_base_def)

lemma load_base_nonempty:
  "cfg_Port (load_base ev) \<noteq> []" "cfg_Object (load_base ev) \<noteq> []"
  by (simp_all add: load_base_def env_def Let_def)

lemma load_fields_settings:
  assumes "load_fields ev = Inr c"
  shows "0 < cfg_UpstreamTimeout c" "is_int64 (cfg_UpstreamTimeout c)"
    "0 < cfg_StaleAfter c" "is_int64 (cfg_StaleAfter c)"
    "1 \<le> cfg_UpstreamAttempts c" "is_int64 (cfg_UpstreamAttempts c)"
proof -
  have d: "0 < d \<and> is_int64 d" if "duration ev key def = Inr d" "0 < def" "is_int64 def" for key def d
    using that parse_duration_range by (auto simp: duration_def Let_def split: if_splits sum.splits)
  have n: "1 \<le> n \<and> is_int64 n" if "positive_int ev key 3 = Inr n" for key n
    using that atoi_range
    by (fastforce simp: positive_int_def Let_def is_int64_def int64_min_def int64_max_def
        split: if_splits sum.splits)
  have defaults: "0 < 10 * Minute" "is_int64 (10 * Minute)" "0 < 90 * Minute" "is_int64 (90 * Minute)"
    by (simp_all add: Minute_def Second_def is_int64_def int64_min_def int64_max_def)
  obtain t st pks k where
    "duration ev ''UPSTREAM_TIMEOUT'' (10 * Minute) = Inr t" "duration ev ''STALE_AFTER'' (90 * Minute) = Inr st"
    "positive_int ev ''UPSTREAM_ATTEMPTS'' 3 = Inr k"
    "c = (load_base ev)\<lparr>cfg_UpstreamTimeout := t, cfg_StaleAfter := st,
              cfg_SponsorTicketTypePKs := pks, cfg_UpstreamAttempts := k\<rparr>"
    using assms by (auto simp: load_fields_def res_bind_Inr_iff)
  then show "0 < cfg_UpstreamTimeout c" "is_int64 (cfg_UpstreamTimeout c)"
    "0 < cfg_StaleAfter c" "is_int64 (cfg_StaleAfter c)"
    "1 \<le> cfg_UpstreamAttempts c" "is_int64 (cfg_UpstreamAttempts c)"
    using d n defaults by fastforce+
qed

lemma validate_Nil:
  "validate c = [] \<longleftrightarrow>
     cfg_EventUUID c \<noteq> [] \<and> (cfg_Token c \<noteq> [] \<or> cfg_File c \<noteq> [])
     \<and> cfg_APITokens c \<noteq> [] \<and> list_all (\<lambda>t. 16 \<le> length t) (cfg_APITokens c)
     \<and> (cfg_Bucket c \<noteq> [] \<or> cfg_Object c \<noteq> [])"
  by (auto simp: validate_def Let_def short_token_iff)

lemma trim_right_last: "trim_right_byte x s = [] \<or> last (trim_right_byte x s) \<noteq> x"
proof -
  have "dropWhile (\<lambda>c. c = x) (rev s) = [] \<or> hd (dropWhile (\<lambda>c. c = x) (rev s)) \<noteq> x"
    by (metis (mono_tags, lifting) hd_dropWhile)
  then show ?thesis by (auto simp: trim_right_byte_def last_rev)
qed

lemma parse_merch_patterns_ok:
  "parse_merch_patterns s \<noteq> [] \<and> list_all (\<lambda>p. p \<noteq> []) (parse_merch_patterns s)"
proof -
  have "split_list ''hoodie'' = [''hoodie'']" by code_simp
  moreover have "p \<in> set (split_list s) \<Longrightarrow> p \<noteq> []" for p by (rule split_list_entry(1))
  ultimately show ?thesis
    by (auto simp: parse_merch_patterns_def lower_def split_list_default_def Let_def list_all_iff)
qed

section \<open>Witness data\<close>

text \<open>The smallest environment \<open>Load\<close> accepts, with some settings overridden.\<close>

definition sample_env :: "(string \<times> string) list \<Rightarrow> getenv" where
  "sample_env over k =
     (case map_of (over @
         [(''TICKETBUTLER_EVENT_UUID'', ''11cc0a9f7f124ddcb11bc027e1a64f23''),
          (''TICKETBUTLER_TOKEN'', ''upstream-token''),
          (''API_TOKENS'', ''a-token-of-sufficient-length'')]) k of
        Some v \<Rightarrow> v | None \<Rightarrow> [])"

section \<open>Properties\<close>

text \<open>
  C28. \<open>Load\<close> succeeds exactly for a complete environment: the event, a token or a file to fetch
  from, at least one API token and none shorter than 16 bytes, durations that parse and are
  positive, a list of numbers, and a number of attempts that is at least one.
\<close>

theorem load_accepts:
  "snd (load ev) = [] \<longleftrightarrow>
     ev ''TICKETBUTLER_EVENT_UUID'' \<noteq> []
     \<and> \<not> (ev ''TICKETBUTLER_TOKEN'' = [] \<and> ev ''TICKETBUTLER_FILE'' = [])
     \<and> split_list (ev ''API_TOKENS'') \<noteq> []
     \<and> list_all (\<lambda>t. 16 \<le> length t) (split_list (ev ''API_TOKENS''))
     \<and> duration_ok (ev ''UPSTREAM_TIMEOUT'') \<and> duration_ok (ev ''STALE_AFTER'')
     \<and> int_list_ok (ev ''SPONSOR_TICKET_TYPE_PKS'') \<and> attempts_ok (ev ''UPSTREAM_ATTEMPTS'')"
proof (cases "load_fields ev")
  case (Inl e)
  then show ?thesis using isr_load_fields [of ev] by (auto simp: load_def)
next
  case (Inr c)
  have "cfg_Object c \<noteq> []" by (simp add: load_fields_base(7) [OF Inr] load_base_nonempty)
  then show ?thesis
    using isr_load_fields [of ev]
    by (simp add: load_def Inr validate_Nil load_fields_base [OF Inr])
qed

text \<open>
  C29. What the rest of the service relies on without checking again: in a configuration that
  loaded, both durations are positive \<open>int64\<close> nanoseconds, the attempts are at least one, every
  API token is trimmed, not blank and at least 16 bytes, the port and the object are named, the
  base URL does not end in a slash, and there is a merchandise pattern and none is empty.
\<close>

theorem load_safe:
  "(case load ev of (c, errs) \<Rightarrow>
     if errs \<noteq> [] then True
     else 0 < cfg_UpstreamTimeout c \<and> is_int64 (cfg_UpstreamTimeout c)
       \<and> 0 < cfg_StaleAfter c \<and> is_int64 (cfg_StaleAfter c)
       \<and> 1 \<le> cfg_UpstreamAttempts c \<and> is_int64 (cfg_UpstreamAttempts c)
       \<and> cfg_APITokens c \<noteq> []
       \<and> list_all (\<lambda>t. 16 \<le> length t \<and> trim_space t = t \<and> CHR '','' \<notin> set t) (cfg_APITokens c)
       \<and> cfg_Port c \<noteq> [] \<and> cfg_Object c \<noteq> []
       \<and> (if cfg_BaseURL c = [] then True else last (cfg_BaseURL c) \<noteq> CHR ''/'')
       \<and> cfg_MerchNamePatterns c \<noteq> [] \<and> list_all (\<lambda>p. p \<noteq> []) (cfg_MerchNamePatterns c))"
proof (cases "load_fields ev")
  case (Inl e)
  then show ?thesis by (simp add: load_def)
next
  case (Inr c)
  have tokens: "list_all (\<lambda>t. trim_space t = t \<and> CHR '','' \<notin> set t) (cfg_APITokens c)"
    using split_list_entry [where s = "ev ''API_TOKENS''"]
    by (simp add: list_all_iff load_fields_base(8) [OF Inr])
  have url: "cfg_BaseURL c \<noteq> [] \<Longrightarrow> last (cfg_BaseURL c) \<noteq> CHR ''/''"
    unfolding load_fields_base(2) [OF Inr] load_base_def by simp (use trim_right_last in blast)
  have names: "cfg_Port c \<noteq> []" "cfg_Object c \<noteq> []"
    by (simp_all add: load_fields_base(1,7) [OF Inr] load_base_nonempty)
  have pats: "cfg_MerchNamePatterns c \<noteq> []" "list_all (\<lambda>p. p \<noteq> []) (cfg_MerchNamePatterns c)"
    using parse_merch_patterns_ok by (simp_all add: load_fields_base(9) [OF Inr])
  have short: "validate c = [] \<Longrightarrow> cfg_APITokens c \<noteq> [] \<and> list_all (\<lambda>t. 16 \<le> length t) (cfg_APITokens c)"
    by (simp add: validate_Nil)
  have "load ev = (c, validate c)" by (simp add: load_def Inr)
  then show ?thesis
    using load_fields_settings [OF Inr] tokens url names pats short by (simp add: list_all_iff)
qed

text \<open>
  A list of integers printed with commas is read back as it was, and a list is refused with
  its first entry that is not a number.
\<close>

theorem parse_int_list_roundtrip:
  assumes "list_all is_int64 ns"
  shows "parse_int_list (join (map itoa ns) '','') = Inr ns
    \<and> (parse_int_list s = Inl p \<longleftrightarrow>
        (\<exists>pre e post. split_list s = pre @ p # post \<and> list_all (\<lambda>q. \<not> isl (atoi q)) pre \<and> atoi p = Inl e))"
proof -
  have "p \<noteq> [] \<and> trim_space p = p \<and> CHR '','' \<notin> set p" if "p \<in> set (map itoa ns)" for p
    using that itoa_plain by auto
  then have "split_list (join (map itoa ns) '','') = map itoa ns" by (rule split_list_join)
  then show ?thesis
    using atois_itoa [OF assms] atois_Inl [of "split_list s" p] by (simp add: parse_int_list_def)
qed

theorem parse_int_list_roundtrip_witness:
  "parse_int_list (join (map itoa [183067, -5, 0]) '','') = Inr [183067, -5, 0]"
  using parse_int_list_roundtrip [of "[183067, -5, 0]"]
  by (simp add: is_int64_def int64_min_def int64_max_def)

text \<open>
  The check of the snapshot object is dead and tests the wrong case: no environment produces
  its error, because the object has a default, and a configuration with a bucket and no object,
  the case its message describes, passes it.
\<close>

theorem object_check_dead:
  "MissingObject \<notin> set (snd (load ev))
   \<and> MissingObject \<notin> set (validate (c\<lparr>cfg_Bucket := b # bucket, cfg_Object := []\<rparr>))"
proof -
  have "MissingObject \<notin> set (validate c)" if "load_fields ev = Inr c" for c
    using load_base_nonempty(2) [of ev]
    by (auto simp: validate_def Let_def load_fields_base(7) [OF that])
  moreover have "e \<noteq> MissingObject" if "load_fields ev = Inl e" for e
    using that by (auto simp: load_fields_def res_bind_Inl_iff duration_def positive_int_def ints_def
        Let_def res_map_err_Inl_iff split: if_splits sum.splits)
  ultimately have "MissingObject \<notin> set (snd (load ev))"
    by (auto simp: load_def split: sum.split)
  then show ?thesis by (simp add: validate_def Let_def)
qed

text \<open>
  The 16 characters an API token must have are bytes: six characters of three bytes each are
  accepted as a token.
\<close>

lemma short_unicode_token_accepted:
  "snd (load (sample_env [(''API_TOKENS'', encode_runes [8364, 8364, 8364, 8364, 8364, 8364])])) = []
   \<and> map (\<lambda>t. length (runes t))
        (cfg_APITokens (fst (load (sample_env
           [(''API_TOKENS'', encode_runes [8364, 8364, 8364, 8364, 8364, 8364])])))) = [6]"
  by code_simp

end
