(* ===== verification/TbTypes.thy ===== *)
theory TbTypes
  imports GoStrconv
begin

text \<open>
  \<open>internal/ticketbutler/types.go\<close>: the orders payload and the accessors the aggregation uses.
  Structs are records whose fields carry the struct's name as a prefix; a pointer field is an
  \<open>option\<close>, a slice is a \<open>slice\<close>. \<open>Order.Discount\<close> is the raw JSON text of the value.
  The \<open>json\<close> names of the fields and the decoding itself are not part of this theory.
\<close>

section \<open>Amounts\<close>

text \<open>\<open>type Amount float64\<close>, and \<open>Float\<close>, its conversion back.\<close>

type_synonym amount = float64

definition amount_float :: "amount \<Rightarrow> float64" where
  "amount_float a = a"

text \<open>\<open>UnmarshalJSON\<close> receives the bytes of one JSON value.\<close>

definition amount_unmarshal :: "string \<Rightarrow> num_error + amount" where
  "amount_unmarshal b =
     (let s = trim_byte (CHR 0x22) b
      in if s = [] \<or> s = ''null'' then Inr f64_zero
         else res_bind (parse_float s) Inr)"

definition amount_marshal :: "amount \<Rightarrow> string" where
  "amount_marshal a = [CHR 0x22] @ format_fixed2 (amount_float a) @ [CHR 0x22]"

section \<open>The payload\<close>

record choice =
  choice_ChoiceUUID :: string
  choice_ChoiceHeading :: string

record answer =
  answer_QuestionHeading :: string
  answer_QuestionUUID :: string
  answer_Variation :: string
  answer_AnswerValue :: string
  answer_AnsweredChoices :: "choice slice"

record answer_collection =
  ac_UUID :: string
  ac_Answers :: "answer slice"

record ticket =
  ticket_ID :: int
  ticket_UUID :: string
  ticket_PurchaseUUID :: string
  ticket_TicketTypePK :: int
  ticket_TicketTypeName :: string
  ticket_FirstName :: string
  ticket_LastName :: string
  ticket_FullName :: string
  ticket_Email :: string
  ticket_CompanyName :: string
  ticket_Price :: amount
  ticket_PriceTotal :: amount
  ticket_CheckedIn :: bool
  ticket_TicketRefund :: bool
  ticket_AnswerCollection :: "answer_collection option"

record order_line =
  ol_UUID :: string
  ol_Title :: string
  ol_Type :: string
  ol_Quantity :: int
  ol_Price :: amount
  ol_Total :: amount
  ol_DiscountTotal :: "amount option"
  ol_AmountOfRefundedTickets :: int
  ol_TicketDescription :: "string option"
  ol_TicketTypeDate :: string
  ol_HasTicketTypeDate :: bool

record address =
  address_FirstName :: string
  address_LastName :: string
  address_Email :: string
  address_Phone :: string
  address_BusinessName :: string

record order =
  order_UUID :: string
  order_OrderID :: string
  order_Currency :: string
  order_State :: string
  order_Date :: string
  order_VATExempt :: bool
  order_VATRate :: float64
  order_NewsLetter :: bool
  order_PaymentMethod :: string
  order_Address :: address
  order_Discount :: string
  order_OrderLines :: "order_line slice"
  order_Tickets :: "ticket slice"

record orders_response =
  resp_UUID :: string
  resp_Orders :: "order slice"

section \<open>Accessors\<close>

definition first_choice :: "answer \<Rightarrow> string" where
  "first_choice a =
     (case elems (answer_AnsweredChoices a) of [] \<Rightarrow> [] | c # _ \<Rightarrow> choice_ChoiceHeading c)"

definition answers :: "ticket \<Rightarrow> answer slice" where
  "answers t = (case ticket_AnswerCollection t of None \<Rightarrow> None | Some ac \<Rightarrow> ac_Answers ac)"

fun find_answer :: "string \<Rightarrow> answer list \<Rightarrow> answer option" where
  "find_answer heading [] = None"
| "find_answer heading (a # as) =
     (if trim_space (answer_QuestionHeading a) = heading then Some a else find_answer heading as)"

definition answer_for :: "ticket \<Rightarrow> string \<Rightarrow> answer option" where
  "answer_for t heading = find_answer heading (elems (answers t))"

text \<open>The zero value of \<open>Answer\<close>, which \<open>AnswerFor\<close> returns with \<open>false\<close>, is never read.\<close>

lemma find_answer_find:
  "find_answer h as = List.find (\<lambda>a. trim_space (answer_QuestionHeading a) = h) as"
  by (induction as) auto

section \<open>Amounts survive the snapshot\<close>

lemma trim_byte_id:
  assumes "s \<noteq> []" "hd s \<noteq> x" "last s \<noteq> x"
  shows "trim_byte x ([x] @ s @ [x]) = s"
proof -
  have "dropWhile (\<lambda>c. c = x) ([x] @ s @ [x]) = s @ [x]"
    using assms(1,2) by (cases s) auto
  moreover have "dropWhile (\<lambda>c. c = x) (rev s) = rev s"
    using assms(1,3) by (cases "rev s") (auto simp flip: hd_rev)
  ultimately show ?thesis by (simp add: trim_byte_def trim_ends_def)
qed

lemma cents_text_ends:
  assumes "0 \<le> c"
  shows "cents_text s c \<noteq> []" "hd (cents_text s c) \<noteq> CHR 0x22" "last (cents_text s c) \<noteq> CHR 0x22"
    "cents_text s c \<noteq> ''null''"
proof -
  have d: "0 \<le> c div 100" "0 \<le> c mod 100" "c mod 100 < 100" using assms by simp_all
  obtain k where k: "0 \<le> k" "k < 10" "hd (dec_digits (c div 100)) = digit_char k"
    using dec_digits_digit [OF d(1), of "hd (dec_digits (c div 100))"] by auto
  have q: "digit_char j \<noteq> CHR 0x22 \<and> digit_char j \<noteq> CHR ''n''" if "0 \<le> j" "j < 10" for j
    using digit_char_byte [OF that] that by (auto simp: byte_def)
  show "cents_text s c \<noteq> []" by (simp add: cents_text_def)
  show h: "hd (cents_text s c) \<noteq> CHR 0x22"
    using q k by (cases s) (auto simp: cents_text_def)
  show "last (cents_text s c) \<noteq> CHR 0x22"
    using q [of "c mod 100 mod 10"] by (simp add: cents_text_def two_digits_def)
  have "hd (cents_text s c) \<noteq> CHR ''n''" using q k by (cases s) (auto simp: cents_text_def)
  then show "cents_text s c \<noteq> ''null''" by auto
qed

lemma amount_marshal_cents:
  "0 \<le> c \<Longrightarrow> c < 2 ^ 52 \<Longrightarrow> amount_marshal (cents_float s c) = [CHR 0x22] @ cents_text s c @ [CHR 0x22]"
  by (simp add: amount_marshal_def amount_float_def format_cents_float)

lemma amount_unmarshal_cents:
  "0 \<le> c \<Longrightarrow> c < 2 ^ 52 \<Longrightarrow>
     amount_unmarshal ([CHR 0x22] @ cents_text s c @ [CHR 0x22]) = Inr (cents_float s c)"
  using cents_text_ends [of c s] trim_byte_id [of "cents_text s c" "CHR 0x22"]
  by (simp add: amount_unmarshal_def parse_float_cents Let_def)

lemma trim_byte_quotes: "trim_byte x ([x] @ s @ [x]) = trim_byte x s"
proof (cases "\<forall>c \<in> set s. c = x")
  case True
  then show ?thesis
    by (auto simp: trim_byte_def trim_ends_def dropWhile_append2 dest: set_dropWhileD)
next
  case False
  then obtain c where c: "c \<in> set s" "c \<noteq> x" by blast
  then have "c \<in> set (dropWhile (\<lambda>c. c = x) s)"
    using set_takeWhileD [of c "\<lambda>c. c = x" s] by (metis Un_iff set_append takeWhile_dropWhile_id)
  with c show ?thesis by (auto simp: trim_byte_def trim_ends_def dropWhile_append1)
qed

section \<open>Properties\<close>

text \<open>
  C37. Money survives the snapshot: every amount of at most 45035996273704.95, read from a
  decimal text with two decimals, is written back as that text and read back as the same number.
\<close>

theorem amount_roundtrip:
  assumes "0 \<le> c" "c < 2 ^ 52"
  shows "amount_unmarshal ([CHR 0x22] @ cents_text neg c @ [CHR 0x22]) = Inr (cents_float neg c)
    \<and> amount_marshal (cents_float neg c) = [CHR 0x22] @ cents_text neg c @ [CHR 0x22]
    \<and> amount_unmarshal (amount_marshal (cents_float neg c)) = Inr (cents_float neg c)"
  using assms by (simp only: amount_marshal_cents amount_unmarshal_cents simp_thms)

theorem amount_roundtrip_witness:
  "amount_unmarshal (amount_marshal (cents_float False 9473680)) = Inr (cents_float False 9473680)"
  using amount_roundtrip [of 9473680 False] by simp

text \<open>
  A JSON string and a bare number decode alike, and \<open>null\<close>, the empty string and the
  string \<open>null\<close> all decode to zero; whatever decodes is the zero or what \<open>ParseFloat\<close> accepts.
\<close>

lemma amount_unmarshal_lenient:
  "amount_unmarshal ([CHR 0x22] @ s @ [CHR 0x22]) = amount_unmarshal s
   \<and> amount_unmarshal ''null'' = Inr f64_zero \<and> amount_unmarshal [] = Inr f64_zero
   \<and> (case amount_unmarshal s of
        Inl e \<Rightarrow> parse_float (trim_byte (CHR 0x22) s) = Inl e
      | Inr a \<Rightarrow> a = f64_zero \<or> parse_float (trim_byte (CHR 0x22) s) = Inr a)"
proof -
  have "trim_byte (CHR 0x22) ''null'' = ''null''" "trim_byte (CHR 0x22) [] = []"
    by (simp_all add: trim_byte_def trim_ends_def)
  moreover have "res_bind r Inr = r" for r :: "num_error + amount" by (cases r) auto
  ultimately show ?thesis
    by (auto simp: amount_unmarshal_def trim_byte_quotes Let_def simp del: append.simps
        split: sum.splits)
qed

end
