(* ===== verification/GoErrors.thy ===== *)
theory GoErrors
  imports GoStrconv
begin

text \<open>
  Error values as trees: the sentinels and struct errors the service distinguishes, any other
  error as its text, and the two ways errors are combined, \<open>fmt.Errorf\<close> with \<open>%w\<close> and
  \<open>errors.Join\<close>. \<open>errors.As\<close> and \<open>errors.Is\<close> search such a tree depth first.
\<close>

datatype goerr =
  ErrUpstream int string
| ErrNotFound
| ErrCanceled
| ErrDeadline
| ErrText string
| ErrWrap string goerr
| ErrJoin "goerr list"

fun as_upstream :: "goerr \<Rightarrow> (int \<times> string) option"
  and first_upstream :: "goerr list \<Rightarrow> (int \<times> string) option" where
  "as_upstream (ErrUpstream st body) = Some (st, body)"
| "as_upstream ErrNotFound = None"
| "as_upstream ErrCanceled = None"
| "as_upstream ErrDeadline = None"
| "as_upstream (ErrText s) = None"
| "as_upstream (ErrWrap p e) = as_upstream e"
| "as_upstream (ErrJoin es) = first_upstream es"
| "first_upstream [] = None"
| "first_upstream (e # es) =
     (case as_upstream e of Some x \<Rightarrow> Some x | None \<Rightarrow> first_upstream es)"

fun is_not_found :: "goerr \<Rightarrow> bool"
  and any_not_found :: "goerr list \<Rightarrow> bool" where
  "is_not_found ErrNotFound = True"
| "is_not_found (ErrUpstream st body) = False"
| "is_not_found ErrCanceled = False"
| "is_not_found ErrDeadline = False"
| "is_not_found (ErrText s) = False"
| "is_not_found (ErrWrap p e) = is_not_found e"
| "is_not_found (ErrJoin es) = any_not_found es"
| "any_not_found [] = False"
| "any_not_found (e # es) = (is_not_found e \<or> any_not_found es)"

text \<open>\<open>Error()\<close>; a wrapping message ends in \<open>: %w\<close>, and a join puts one error per line.\<close>

fun err_text :: "goerr \<Rightarrow> string"
  and err_texts :: "goerr list \<Rightarrow> string list" where
  "err_text (ErrUpstream st body) = ''ticketbutler returned '' @ itoa st @ '': '' @ body"
| "err_text ErrNotFound = ''no snapshot stored''"
| "err_text ErrCanceled = ''context canceled''"
| "err_text ErrDeadline = ''context deadline exceeded''"
| "err_text (ErrText s) = s"
| "err_text (ErrWrap p e) = p @ '': '' @ err_text e"
| "err_text (ErrJoin es) = join (err_texts es) [chr 10]"
| "err_texts [] = []"
| "err_texts (e # es) = err_text e # err_texts es"

end
