(* ===== verification/JsonDecode.thy ===== *)
theory JsonDecode
  imports TbTypes GoErrors
begin

text \<open>
  Decoding JSON into the structs of the service, as \<open>json.Unmarshal\<close> does by the tags of their
  fields. What the scanner of the package delivers is a tree: every value with its text, strings
  with their unescaped bytes as well, numbers as their literal. A field takes the value of the key
  that is its name, or failing that of one that equals it up to case; other keys are ignored, an
  absent field and a null leave the zero value, and a value of another kind is an error. Keys of an
  object are taken not to repeat, also up to case, and of several errors the first field's is reported.
\<close>

section \<open>Values\<close>

datatype parsed =
  PNull
| PBool bool
| PNum string
| PStr string string
| PArr string "parsed list"
| PObj string "(string \<times> parsed) list"

fun raw :: "parsed \<Rightarrow> string" where
  "raw PNull = ''null''"
| "raw (PBool b) = (if b then ''true'' else ''false'')"
| "raw (PNum s) = s"
| "raw (PStr r s) = r"
| "raw (PArr r vs) = r"
| "raw (PObj r kvs) = r"

type_synonym 'a decoder = "parsed \<Rightarrow> goerr + 'a"

definition mismatch :: "string \<Rightarrow> goerr + 'a" where
  "mismatch what = Inl (ErrText (''json: cannot unmarshal value into Go value of type '' @ what))"

definition lookup :: "(string \<times> parsed) list \<Rightarrow> string \<Rightarrow> parsed option" where
  "lookup kvs name =
     (case map_of kvs name of
        Some v \<Rightarrow> Some v
      | None \<Rightarrow> map_option snd (List.find (\<lambda>(k, v). equal_fold k name) kvs))"

definition field :: "(string \<times> parsed) list \<Rightarrow> string \<Rightarrow> 'a decoder \<Rightarrow> goerr + 'a" where
  "field kvs name dec = dec (case lookup kvs name of Some v \<Rightarrow> v | None \<Rightarrow> PNull)"

section \<open>Kinds\<close>

definition unmarshal_string :: "string decoder" where
  "unmarshal_string v = (case v of PNull \<Rightarrow> Inr [] | PStr r s \<Rightarrow> Inr s | _ \<Rightarrow> mismatch ''string'')"

definition unmarshal_bool :: "bool decoder" where
  "unmarshal_bool v = (case v of PNull \<Rightarrow> Inr False | PBool b \<Rightarrow> Inr b | _ \<Rightarrow> mismatch ''bool'')"

definition unmarshal_int :: "int decoder" where
  "unmarshal_int v =
     (case v of PNull \<Rightarrow> Inr 0 | PNum s \<Rightarrow> (case atoi s of Inl e \<Rightarrow> mismatch ''int'' | Inr n \<Rightarrow> Inr n) | _ \<Rightarrow> mismatch ''int'')"

definition unmarshal_float :: "float64 decoder" where
  "unmarshal_float v =
     (case v of
        PNull \<Rightarrow> Inr f64_zero
      | PNum s \<Rightarrow> (case parse_float s of Inl e \<Rightarrow> mismatch ''float64'' | Inr x \<Rightarrow> Inr x)
      | _ \<Rightarrow> mismatch ''float64'')"

text \<open>Amounts and raw messages are given the text of their value, a null included.\<close>

definition unmarshal_amount :: "amount decoder" where
  "unmarshal_amount v =
     res_map_err (\<lambda>e. ErrText (''strconv.ParseFloat: parsing '' @ raw v @ '': invalid'')) (amount_unmarshal (raw v))"

definition unmarshal_raw :: "(string \<times> parsed) list \<Rightarrow> string \<Rightarrow> string" where
  "unmarshal_raw kvs name = (case lookup kvs name of None \<Rightarrow> [] | Some v \<Rightarrow> raw v)"

definition unmarshal_option :: "'a decoder \<Rightarrow> 'a option decoder" where
  "unmarshal_option dec v = (if v = PNull then Inr None else res_bind (dec v) (\<lambda>x. Inr (Some x)))"

definition unmarshal_slice :: "'a decoder \<Rightarrow> 'a slice decoder" where
  "unmarshal_slice dec v =
     (case v of
        PNull \<Rightarrow> Inr None
      | PArr r vs \<Rightarrow> res_bind (res_each dec vs) (\<lambda>xs. Inr (Some xs))
      | _ \<Rightarrow> mismatch ''slice'')"

text \<open>Null is the nil map, which an object in its place makes.\<close>

definition unmarshal_map :: "'a decoder \<Rightarrow> (string, 'a) gomap decoder" where
  "unmarshal_map dec v =
     (case v of
        PNull \<Rightarrow> Inr None
      | PObj r kvs \<Rightarrow>
          res_bind (res_each (\<lambda>(k, x). res_bind (dec x) (\<lambda>y. Inr (k, y))) kvs) (\<lambda>ps.
            Inr (fold (\<lambda>(k, y) m. gm_put k y m) ps (Some [])))
      | _ \<Rightarrow> mismatch ''map'')"

definition unmarshal_struct :: "((string \<times> parsed) list \<Rightarrow> goerr + 'a) \<Rightarrow> 'a decoder" where
  "unmarshal_struct dec v = (case v of PNull \<Rightarrow> dec [] | PObj r kvs \<Rightarrow> dec kvs | _ \<Rightarrow> mismatch ''struct'')"

section \<open>The payload\<close>

definition unmarshal_choice :: "choice decoder" where
  "unmarshal_choice = unmarshal_struct (\<lambda>kvs.
     res_bind (field kvs ''choice_uuid'' unmarshal_string) (\<lambda>uuid.
     res_bind (field kvs ''choice_heading'' unmarshal_string) (\<lambda>heading.
       Inr \<lparr>choice_ChoiceUUID = uuid, choice_ChoiceHeading = heading\<rparr>)))"

definition unmarshal_answer :: "answer decoder" where
  "unmarshal_answer = unmarshal_struct (\<lambda>kvs.
     res_bind (field kvs ''question_heading'' unmarshal_string) (\<lambda>heading.
     res_bind (field kvs ''question_uuid'' unmarshal_string) (\<lambda>uuid.
     res_bind (field kvs ''variation'' unmarshal_string) (\<lambda>variation.
     res_bind (field kvs ''answer_value'' unmarshal_string) (\<lambda>answer_value.
     res_bind (field kvs ''answered_choices'' (unmarshal_slice unmarshal_choice)) (\<lambda>choices.
       Inr \<lparr>answer_QuestionHeading = heading, answer_QuestionUUID = uuid, answer_Variation = variation,
            answer_AnswerValue = answer_value, answer_AnsweredChoices = choices\<rparr>))))))"

definition unmarshal_answer_collection :: "answer_collection decoder" where
  "unmarshal_answer_collection = unmarshal_struct (\<lambda>kvs.
     res_bind (field kvs ''uuid'' unmarshal_string) (\<lambda>uuid.
     res_bind (field kvs ''answers'' (unmarshal_slice unmarshal_answer)) (\<lambda>as.
       Inr \<lparr>ac_UUID = uuid, ac_Answers = as\<rparr>)))"

definition unmarshal_ticket :: "ticket decoder" where
  "unmarshal_ticket = unmarshal_struct (\<lambda>kvs.
     res_bind (field kvs ''id'' unmarshal_int) (\<lambda>ident.
     res_bind (field kvs ''uuid'' unmarshal_string) (\<lambda>uuid.
     res_bind (field kvs ''purchase_uuid'' unmarshal_string) (\<lambda>purchase.
     res_bind (field kvs ''ticket_type_pk'' unmarshal_int) (\<lambda>pk.
     res_bind (field kvs ''ticket_type_name'' unmarshal_string) (\<lambda>type_name.
     res_bind (field kvs ''first_name'' unmarshal_string) (\<lambda>first.
     res_bind (field kvs ''last_name'' unmarshal_string) (\<lambda>last_name.
     res_bind (field kvs ''full_name'' unmarshal_string) (\<lambda>full.
     res_bind (field kvs ''email'' unmarshal_string) (\<lambda>email.
     res_bind (field kvs ''company_name'' unmarshal_string) (\<lambda>company.
     res_bind (field kvs ''price'' unmarshal_amount) (\<lambda>price.
     res_bind (field kvs ''price_total'' unmarshal_amount) (\<lambda>price_total.
     res_bind (field kvs ''checked_in'' unmarshal_bool) (\<lambda>checked_in.
     res_bind (field kvs ''ticket_refund'' unmarshal_bool) (\<lambda>refund.
     res_bind (field kvs ''ticket_answer_collection'' (unmarshal_option unmarshal_answer_collection)) (\<lambda>ac.
       Inr \<lparr>ticket_ID = ident, ticket_UUID = uuid, ticket_PurchaseUUID = purchase, ticket_TicketTypePK = pk,
            ticket_TicketTypeName = type_name, ticket_FirstName = first, ticket_LastName = last_name,
            ticket_FullName = full, ticket_Email = email, ticket_CompanyName = company,
            ticket_Price = price, ticket_PriceTotal = price_total, ticket_CheckedIn = checked_in,
            ticket_TicketRefund = refund, ticket_AnswerCollection = ac\<rparr>))))))))))))))))"

definition unmarshal_order_line :: "order_line decoder" where
  "unmarshal_order_line = unmarshal_struct (\<lambda>kvs.
     res_bind (field kvs ''uuid'' unmarshal_string) (\<lambda>uuid.
     res_bind (field kvs ''title'' unmarshal_string) (\<lambda>title.
     res_bind (field kvs ''type'' unmarshal_string) (\<lambda>kind.
     res_bind (field kvs ''quantity'' unmarshal_int) (\<lambda>quantity.
     res_bind (field kvs ''price'' unmarshal_amount) (\<lambda>price.
     res_bind (field kvs ''total'' unmarshal_amount) (\<lambda>total.
     res_bind (field kvs ''discount_total'' (unmarshal_option unmarshal_amount)) (\<lambda>discount_total.
     res_bind (field kvs ''amount_of_refunded_tickets'' unmarshal_int) (\<lambda>refunded.
     res_bind (field kvs ''ticket_description'' (unmarshal_option unmarshal_string)) (\<lambda>description.
     res_bind (field kvs ''ticket_type_date'' unmarshal_string) (\<lambda>type_date.
     res_bind (field kvs ''has_ticket_type_date'' unmarshal_bool) (\<lambda>has_date.
       Inr \<lparr>ol_UUID = uuid, ol_Title = title, ol_Type = kind, ol_Quantity = quantity, ol_Price = price,
            ol_Total = total, ol_DiscountTotal = discount_total, ol_AmountOfRefundedTickets = refunded,
            ol_TicketDescription = description, ol_TicketTypeDate = type_date,
            ol_HasTicketTypeDate = has_date\<rparr>))))))))))))"

definition unmarshal_address :: "address decoder" where
  "unmarshal_address = unmarshal_struct (\<lambda>kvs.
     res_bind (field kvs ''first_name'' unmarshal_string) (\<lambda>first.
     res_bind (field kvs ''last_name'' unmarshal_string) (\<lambda>last_name.
     res_bind (field kvs ''email'' unmarshal_string) (\<lambda>email.
     res_bind (field kvs ''phone'' unmarshal_string) (\<lambda>phone.
     res_bind (field kvs ''business_name'' unmarshal_string) (\<lambda>business.
       Inr \<lparr>address_FirstName = first, address_LastName = last_name, address_Email = email,
            address_Phone = phone, address_BusinessName = business\<rparr>))))))"

definition unmarshal_order :: "order decoder" where
  "unmarshal_order = unmarshal_struct (\<lambda>kvs.
     res_bind (field kvs ''uuid'' unmarshal_string) (\<lambda>uuid.
     res_bind (field kvs ''order_id'' unmarshal_string) (\<lambda>order_id.
     res_bind (field kvs ''currency'' unmarshal_string) (\<lambda>currency.
     res_bind (field kvs ''state'' unmarshal_string) (\<lambda>state.
     res_bind (field kvs ''date'' unmarshal_string) (\<lambda>date.
     res_bind (field kvs ''vat_exempt'' unmarshal_bool) (\<lambda>vat_exempt.
     res_bind (field kvs ''vat_rate'' unmarshal_float) (\<lambda>vat_rate.
     res_bind (field kvs ''news_letter'' unmarshal_bool) (\<lambda>news_letter.
     res_bind (field kvs ''payment_method'' unmarshal_string) (\<lambda>payment_method.
     res_bind (field kvs ''address'' unmarshal_address) (\<lambda>address.
     res_bind (field kvs ''order_lines'' (unmarshal_slice unmarshal_order_line)) (\<lambda>order_lines.
     res_bind (field kvs ''tickets'' (unmarshal_slice unmarshal_ticket)) (\<lambda>tickets.
       Inr \<lparr>order_UUID = uuid, order_OrderID = order_id, order_Currency = currency, order_State = state,
            order_Date = date, order_VATExempt = vat_exempt, order_VATRate = vat_rate,
            order_NewsLetter = news_letter, order_PaymentMethod = payment_method, order_Address = address,
            order_Discount = unmarshal_raw kvs ''discount'', order_OrderLines = order_lines,
            order_Tickets = tickets\<rparr>)))))))))))))"

definition unmarshal_orders_response :: "orders_response decoder" where
  "unmarshal_orders_response = unmarshal_struct (\<lambda>kvs.
     res_bind (field kvs ''uuid'' unmarshal_string) (\<lambda>uuid.
     res_bind (field kvs ''orders'' (unmarshal_slice unmarshal_order)) (\<lambda>orders.
       Inr \<lparr>resp_UUID = uuid, resp_Orders = orders\<rparr>)))"

end
