(* ===== verification/JsonScan.thy ===== *)
theory JsonScan
  imports JsonDecode
begin

text \<open>
  Scanning JSON text, as the decoder of \<open>encoding/json\<close> does: one value is read from the start of
  the input and what follows it is left alone; the input may end early, or hold a byte no value can
  continue with. Arrays and objects nest up to 10000 deep. Strings are unescaped the way the package
  does: a surrogate without its partner and bytes that are not UTF-8 become U+FFFD.
\<close>

section \<open>Scanning\<close>

datatype 'a scanned = Scanned 'a string | Short | Bad

definition is_space :: "char \<Rightarrow> bool" where
  "is_space c \<longleftrightarrow> byte c = 32 \<or> byte c = 9 \<or> byte c = 13 \<or> byte c = 10"

definition skip_space :: "string \<Rightarrow> string" where
  "skip_space = dropWhile is_space"

fun scan_map :: "('a \<Rightarrow> 'b) \<Rightarrow> 'a scanned \<Rightarrow> 'b scanned" where
  "scan_map f (Scanned v rest) = Scanned (f v) rest"
| "scan_map f Short = Short"
| "scan_map f Bad = Bad"

fun scan_word :: "string \<Rightarrow> string \<Rightarrow> unit scanned" where
  "scan_word [] s = Scanned () s"
| "scan_word (w # ws) [] = Short"
| "scan_word (w # ws) (c # cs) = (if c = w then scan_word ws cs else Bad)"

subsection \<open>Numbers\<close>

definition is_digit :: "char \<Rightarrow> bool" where
  "is_digit c \<longleftrightarrow> 48 \<le> byte c \<and> byte c \<le> 57"

definition scan_digits :: "string \<Rightarrow> string scanned" where
  "scan_digits s =
     (case s of
        [] \<Rightarrow> Short
      | c # cs \<Rightarrow> if is_digit c then Scanned (takeWhile is_digit s) (dropWhile is_digit s) else Bad)"

definition scan_int :: "string \<Rightarrow> string scanned" where
  "scan_int s =
     (case s of
        [] \<Rightarrow> Short
      | c # cs \<Rightarrow> if c = CHR ''0'' then Scanned [c] cs else scan_digits s)"

definition scan_frac :: "string \<Rightarrow> string scanned" where
  "scan_frac s =
     (case s of
        c # cs \<Rightarrow> if c = CHR ''.'' then scan_map ((#) c) (scan_digits cs) else Scanned [] s
      | [] \<Rightarrow> Scanned [] [])"

definition scan_exp :: "string \<Rightarrow> string scanned" where
  "scan_exp s =
     (case s of
        c # cs \<Rightarrow>
          if c = CHR ''e'' \<or> c = CHR ''E'' then
            (case cs of
               sg # ds \<Rightarrow>
                 if sg = CHR ''+'' \<or> sg = CHR ''-'' then scan_map (\<lambda>d. c # sg # d) (scan_digits ds)
                 else scan_map ((#) c) (scan_digits cs)
             | [] \<Rightarrow> Short)
          else Scanned [] s
      | [] \<Rightarrow> Scanned [] [])"

definition scan_unsigned :: "string \<Rightarrow> string scanned" where
  "scan_unsigned s =
     (case scan_int s of
        Scanned i r1 \<Rightarrow>
          (case scan_frac r1 of
             Scanned f r2 \<Rightarrow> scan_map (\<lambda>e. i @ f @ e) (scan_exp r2)
           | Short \<Rightarrow> Short | Bad \<Rightarrow> Bad)
      | Short \<Rightarrow> Short | Bad \<Rightarrow> Bad)"

definition scan_number :: "string \<Rightarrow> string scanned" where
  "scan_number s =
     (case s of
        c # cs \<Rightarrow> if c = CHR ''-'' then scan_map ((#) c) (scan_unsigned cs) else scan_unsigned s
      | [] \<Rightarrow> Short)"

subsection \<open>Strings\<close>

text \<open>The states inside a string: after a backslash, and with hexadecimal digits to come.\<close>

datatype in_string = InString | InEscape | InHex nat

abbreviation quote_char :: char where "quote_char \<equiv> CHR 0x22"
abbreviation backslash :: char where "backslash \<equiv> CHR 0x5C"

definition simple_escape :: "char \<Rightarrow> char option" where
  "simple_escape c =
     (if c = quote_char \<or> c = backslash \<or> c = CHR ''/'' then Some c
      else if c = CHR ''b'' then Some (chr 8) else if c = CHR ''f'' then Some (chr 12)
      else if c = CHR ''n'' then Some (chr 10) else if c = CHR ''r'' then Some (chr 13)
      else if c = CHR ''t'' then Some (chr 9) else None)"

text \<open>The rest of a string up to and with its closing quote.\<close>

fun scan_string :: "in_string \<Rightarrow> string \<Rightarrow> string scanned" where
  "scan_string st [] = Short"
| "scan_string InString (c # cs) =
     (if c = quote_char then Scanned [c] cs
      else if c = backslash then scan_map ((#) c) (scan_string InEscape cs)
      else if byte c < 32 then Bad
      else scan_map ((#) c) (scan_string InString cs))"
| "scan_string InEscape (c # cs) =
     (if simple_escape c \<noteq> None then scan_map ((#) c) (scan_string InString cs)
      else if c = CHR ''u'' then scan_map ((#) c) (scan_string (InHex 3) cs)
      else Bad)"
| "scan_string (InHex n) (c # cs) =
     (if hex_val c \<noteq> None
      then scan_map ((#) c) (scan_string (case n of 0 \<Rightarrow> InString | Suc m \<Rightarrow> InHex m) cs)
      else Bad)"

text \<open>\<open>getu4\<close> on the four digits of an escape.\<close>

definition hex_digits :: "string \<Rightarrow> int" where
  "hex_digits s = foldl (\<lambda>n c. 16 * n + (case hex_val c of Some d \<Rightarrow> d | None \<Rightarrow> 0)) 0 s"

definition next_escape :: "string \<Rightarrow> int option" where
  "next_escape s =
     (if 6 \<le> length s \<and> s ! 0 = backslash \<and> s ! 1 = CHR ''u''
         \<and> list_all (\<lambda>c. hex_val c \<noteq> None) (take 4 (drop 2 s))
      then Some (hex_digits (take 4 (drop 2 s))) else None)"

text \<open>\<open>utf16.DecodeRune\<close>.\<close>

definition surrogate_pair :: "int \<Rightarrow> int \<Rightarrow> int option" where
  "surrogate_pair hi lo =
     (if 55296 \<le> hi \<and> hi < 56320 \<and> 56320 \<le> lo \<and> lo < 57344
      then Some ((hi - 55296) * 1024 + (lo - 56320) + 65536) else None)"

function unquote :: "string \<Rightarrow> string" where
  "unquote [] = []"
| "unquote (c # cs) =
     (if c = backslash then
        (case cs of
           [] \<Rightarrow> []
         | e # es \<Rightarrow>
             if e = CHR ''u'' then
               let r = hex_digits (take 4 es); rest = drop 4 es
               in if 55296 \<le> r \<and> r < 57344 then
                    (case (case next_escape rest of None \<Rightarrow> None | Some lo \<Rightarrow> surrogate_pair r lo) of
                       Some p \<Rightarrow> encode_rune p @ unquote (drop 6 rest)
                     | None \<Rightarrow> encode_rune rune_error @ unquote rest)
                  else encode_rune r @ unquote rest
             else (case simple_escape e of Some x \<Rightarrow> x | None \<Rightarrow> e) # unquote es)
      else
        (case decode_rune (c # cs) of (r, w) \<Rightarrow> encode_rune r @ unquote (drop w (c # cs))))"
  by pat_completeness auto
termination
proof (relation "measure length", goal_cases)
  case (6 c cs r w)
  then have "w = snd (decode_rune (c # cs))" by (metis snd_conv)
  then show ?case using decode_rune_width [of c cs] by auto
qed auto

subsection \<open>Values\<close>

text \<open>The part of the input in front of what is left.\<close>

definition consumed :: "string \<Rightarrow> string \<Rightarrow> string" where
  "consumed s rest = take (length s - length rest) s"

lemma length_skip_space: "length (skip_space s) \<le> length s"
  by (simp add: skip_space_def length_dropWhile_le)

text \<open>
  \<open>scan_elems\<close> reads the elements of a non-empty array with the closing bracket, \<open>scan_members\<close>
  the members of a non-empty object with the closing brace. What is left of the input is always
  shorter, so the tests of its length are never false; they are there for termination.
\<close>

function (sequential)
      scan_value :: "int \<Rightarrow> string \<Rightarrow> parsed scanned"
  and scan_elems :: "int \<Rightarrow> string \<Rightarrow> parsed list scanned"
  and scan_members :: "int \<Rightarrow> string \<Rightarrow> (string \<times> parsed) list scanned" where
  "scan_value d [] = Short"
| "scan_value d (c # cs) =
     (if c = CHR ''{'' then
        (if d \<le> 0 then Bad
         else case skip_space cs of
           [] \<Rightarrow> Short
         | x # xs \<Rightarrow>
             if x = CHR ''}'' then Scanned (PObj (consumed (c # cs) xs) []) xs
             else (case scan_members (d - 1) cs of
                     Scanned kvs rest \<Rightarrow> Scanned (PObj (consumed (c # cs) rest) kvs) rest
                   | Short \<Rightarrow> Short | Bad \<Rightarrow> Bad))
      else if c = CHR ''['' then
        (if d \<le> 0 then Bad
         else case skip_space cs of
           [] \<Rightarrow> Short
         | x # xs \<Rightarrow>
             if x = CHR '']'' then Scanned (PArr (consumed (c # cs) xs) []) xs
             else (case scan_elems (d - 1) cs of
                     Scanned vs rest \<Rightarrow> Scanned (PArr (consumed (c # cs) rest) vs) rest
                   | Short \<Rightarrow> Short | Bad \<Rightarrow> Bad))
      else if c = quote_char then
        scan_map (\<lambda>body. PStr (c # body) (unquote (butlast body))) (scan_string InString cs)
      else if c = CHR ''n'' then scan_map (\<lambda>_. PNull) (scan_word ''ull'' cs)
      else if c = CHR ''t'' then scan_map (\<lambda>_. PBool True) (scan_word ''rue'' cs)
      else if c = CHR ''f'' then scan_map (\<lambda>_. PBool False) (scan_word ''alse'' cs)
      else if c = CHR ''-'' \<or> is_digit c then scan_map PNum (scan_number (c # cs))
      else Bad)"
| "scan_elems d s =
     (case scan_value d (skip_space s) of
        Scanned v rest \<Rightarrow>
          (case skip_space rest of
             [] \<Rightarrow> Short
           | c # cs \<Rightarrow>
               if c = CHR '']'' then Scanned [v] cs
               else if c = CHR '','' \<and> length cs < length s then
                 (case scan_elems d cs of
                    Scanned vs rest' \<Rightarrow> Scanned (v # vs) rest' | Short \<Rightarrow> Short | Bad \<Rightarrow> Bad)
               else Bad)
      | Short \<Rightarrow> Short | Bad \<Rightarrow> Bad)"
| "scan_members d s =
     (case skip_space s of
        [] \<Rightarrow> Short
      | q # qs \<Rightarrow>
          if q \<noteq> quote_char then Bad
          else
            (case scan_string InString qs of
               Scanned body after \<Rightarrow>
                 (case skip_space after of
                    [] \<Rightarrow> Short
                  | col # vs \<Rightarrow>
                      if col = CHR '':'' \<and> length vs < length s then
                        (case scan_value d (skip_space vs) of
                           Scanned v rest \<Rightarrow>
                             (case skip_space rest of
                                [] \<Rightarrow> Short
                              | c # cs \<Rightarrow>
                                  if c = CHR ''}'' then Scanned [(unquote (butlast body), v)] cs
                                  else if c = CHR '','' \<and> length cs < length s then
                                    (case scan_members d cs of
                                       Scanned kvs rest' \<Rightarrow> Scanned ((unquote (butlast body), v) # kvs) rest'
                                     | Short \<Rightarrow> Short | Bad \<Rightarrow> Bad)
                                  else Bad)
                         | Short \<Rightarrow> Short | Bad \<Rightarrow> Bad)
                      else Bad)
             | Short \<Rightarrow> Short | Bad \<Rightarrow> Bad))"
  by pat_completeness auto

termination
  by (relation "measure (case_sum (\<lambda>(d, s). 2 * length s) (case_sum (\<lambda>(d, s). 2 * length s + 1) (\<lambda>(d, s). 2 * length s + 1)))")
    (auto simp: less_Suc_eq_le intro: order_trans [OF length_skip_space])

section \<open>What a scanner consumes\<close>

text \<open>What may follow a number without becoming part of it.\<close>

definition delim :: "string \<Rightarrow> bool" where
  "delim t \<longleftrightarrow> (case t of [] \<Rightarrow> True | c # cs \<Rightarrow> \<not> is_digit c \<and> c \<notin> {CHR ''.'', CHR ''e'', CHR ''E'', CHR ''+'', CHR ''-''})"

lemma delim_simps [simp]:
  "delim []" "delim (CHR '','' # t)" "delim (CHR '']'' # t)" "delim (CHR ''}'' # t)" "delim (CHR '':'' # t)"
  by (simp_all add: delim_def is_digit_def byte_def)

lemma delim_space: "is_space c \<Longrightarrow> delim (c # t)"
  by (auto simp: delim_def is_space_def is_digit_def byte_def)

lemma scan_map_Scanned: "scan_map f r = Scanned v rest \<longleftrightarrow> (\<exists>w. r = Scanned w rest \<and> v = f w)"
  by (cases r) auto

lemma scan_word_spec: "scan_word ws s = Scanned u rest \<Longrightarrow> s = ws @ rest"
  by (induction ws s rule: scan_word.induct) (auto split: if_splits)

lemma scan_word_append: "scan_word ws (ws @ t) = Scanned () t"
  by (induction ws) auto

subsection \<open>Numbers\<close>

lemma scan_digits_append:
  assumes "ds \<noteq> []" "list_all is_digit ds" "t = [] \<or> \<not> is_digit (hd t)"
  shows "scan_digits (ds @ t) = Scanned ds t"
proof -
  have "takeWhile is_digit (ds @ t) = ds" "dropWhile is_digit (ds @ t) = t"
    using assms(2,3) by (cases t; simp add: list_all_iff takeWhile_append dropWhile_append)+
  moreover obtain c cs where "ds = c # cs" using assms(1) by (cases ds) auto
  ultimately show ?thesis using assms(2) by (auto simp: scan_digits_def)
qed

lemma scan_digits_spec: "scan_digits s = Scanned ds rest \<Longrightarrow> s = ds @ rest \<and> ds \<noteq> [] \<and> list_all is_digit ds"
  by (cases s) (auto simp: scan_digits_def list_all_iff dest: set_takeWhileD split: if_splits)

lemma scan_int_spec:
  assumes "scan_int s = Scanned i rest"
  shows "s = i @ rest \<and> i \<noteq> [] \<and> list_all is_digit i \<and> (\<forall>t. (t = [] \<or> \<not> is_digit (hd t)) \<longrightarrow> scan_int (i @ t) = Scanned i t)"
proof (cases s)
  case (Cons c cs)
  show ?thesis
  proof (cases "c = CHR ''0''")
    case True
    then have "i = [c]" "rest = cs" using assms by (simp_all add: Cons scan_int_def)
    then show ?thesis using True by (simp add: Cons scan_int_def is_digit_def byte_def)
  next
    case False
    then have "scan_digits s = Scanned i rest" using assms by (simp add: Cons scan_int_def)
    then have i: "s = i @ rest" "i \<noteq> []" "list_all is_digit i" using scan_digits_spec by blast+
    then have "hd i = c" using Cons by (cases i) auto
    then show ?thesis using i False scan_digits_append [OF i(2,3)] by (cases i) (auto simp: scan_int_def)
  qed
qed (use assms in \<open>simp add: scan_int_def\<close>)

lemma scan_frac_spec:
  assumes "scan_frac s = Scanned f rest"
  shows "s = f @ rest \<and> (f = [] \<or> hd f = CHR ''.'')
    \<and> (\<forall>t. (t = [] \<or> \<not> is_digit (hd t) \<and> hd t \<noteq> CHR ''.'') \<longrightarrow> scan_frac (f @ t) = Scanned f t)"
proof (cases s)
  case Nil
  then show ?thesis using assms by (auto simp: scan_frac_def split: list.split)
next
  case (Cons c cs)
  show ?thesis
  proof (cases "c = CHR ''.''")
    case True
    then obtain ds where ds: "scan_digits cs = Scanned ds rest" "f = c # ds"
      using assms by (auto simp: Cons scan_frac_def scan_map_Scanned)
    then show ?thesis using scan_digits_spec [OF ds(1)] scan_digits_append [of ds] scan_digits_append [of ds "[]"] True by (auto simp: Cons scan_frac_def)
  next
    case False
    then have "f = []" "rest = s" using assms by (simp_all add: Cons scan_frac_def)
    then show ?thesis by (auto simp: scan_frac_def split: list.split)
  qed
qed

lemma scan_exp_spec:
  assumes "scan_exp s = Scanned e rest"
  shows "s = e @ rest \<and> (e = [] \<or> hd e = CHR ''e'' \<or> hd e = CHR ''E'')
    \<and> (\<forall>t. (t = [] \<or> \<not> is_digit (hd t) \<and> hd t \<noteq> CHR ''e'' \<and> hd t \<noteq> CHR ''E'') \<longrightarrow> scan_exp (e @ t) = Scanned e t)"
proof (cases s)
  case Nil
  then show ?thesis using assms by (auto simp: scan_exp_def split: list.split)
next
  case (Cons c cs)
  show ?thesis
  proof (cases "c = CHR ''e'' \<or> c = CHR ''E''")
    case True
    then obtain sg ds where cs: "cs = sg # ds" using assms by (cases cs) (auto simp: Cons scan_exp_def)
    show ?thesis
    proof (cases "sg = CHR ''+'' \<or> sg = CHR ''-''")
      case sign: True
      then obtain d where d: "scan_digits ds = Scanned d rest" "e = c # sg # d"
        using assms True by (auto simp: Cons cs scan_exp_def scan_map_Scanned)
      then show ?thesis
        using scan_digits_spec [OF d(1)] scan_digits_append [of d] scan_digits_append [of d "[]"] True sign by (auto simp: Cons cs scan_exp_def)
    next
      case False
      then obtain d where d: "scan_digits cs = Scanned d rest" "e = c # d"
        using assms True by (auto simp: Cons cs scan_exp_def scan_map_Scanned)
      then have "cs = d @ rest" "d \<noteq> []" "list_all is_digit d" using scan_digits_spec by blast+
      moreover from this have "hd d = sg" using cs by (cases d) auto
      ultimately show ?thesis
        using scan_digits_append [of d] scan_digits_append [of d "[]"] True False d(2) by (cases d) (auto simp: Cons scan_exp_def)
    qed
  next
    case False
    then have "e = []" "rest = s" using assms by (simp_all add: Cons scan_exp_def)
    then show ?thesis by (auto simp: scan_exp_def split: list.split)
  qed
qed

lemma delim_hd: "delim t \<Longrightarrow> t = [] \<or> \<not> is_digit (hd t) \<and> hd t \<notin> {CHR ''.'', CHR ''e'', CHR ''E'', CHR ''+'', CHR ''-''}"
  by (cases t) (auto simp: delim_def)

lemma not_digits: "\<not> is_digit CHR ''.''" "\<not> is_digit CHR ''e''" "\<not> is_digit CHR ''E''" "\<not> is_digit CHR ''-''"
  by (simp_all add: is_digit_def byte_def)

lemma hd_append_cases: "f @ g = [] \<or> hd (f @ g) = hd f \<and> f \<noteq> [] \<or> f = [] \<and> hd (f @ g) = hd g"
  by (cases f) auto

lemma scan_unsigned_spec:
  assumes "scan_unsigned s = Scanned p rest"
  shows "s = p @ rest \<and> p \<noteq> [] \<and> is_digit (hd p) \<and> (\<forall>t. delim t \<longrightarrow> scan_unsigned (p @ t) = Scanned p t)"
proof -
  obtain i r1 f r2 e where parts: "scan_int s = Scanned i r1" "scan_frac r1 = Scanned f r2" "scan_exp r2 = Scanned e rest"
    "p = i @ f @ e"
    using assms by (auto simp: scan_unsigned_def scan_map_Scanned split: scanned.splits)
  note I = scan_int_spec [OF parts(1)] and F = scan_frac_spec [OF parts(2)] and X = scan_exp_spec [OF parts(3)]
  have "scan_unsigned (p @ t) = Scanned p t" if "delim t" for t
  proof -
    have t: "t = [] \<or> \<not> is_digit (hd t) \<and> hd t \<noteq> CHR ''.'' \<and> hd t \<noteq> CHR ''e'' \<and> hd t \<noteq> CHR ''E''"
      using delim_hd [OF that] by blast
    have e: "e = [] \<or> hd e = CHR ''e'' \<or> hd e = CHR ''E''" using X by blast
    have f: "f = [] \<or> hd f = CHR ''.''" using F by blast
    have et: "e @ t = [] \<or> \<not> is_digit (hd (e @ t)) \<and> hd (e @ t) \<noteq> CHR ''.''"
    proof (cases "e = []")
      case True
      then show ?thesis using t unfolding True append_Nil by blast
    next
      case False
      then have "hd (e @ t) = hd e" "hd e = CHR ''e'' \<or> hd e = CHR ''E''" using e by (simp_all only: hd_append2 simp_thms)
      then show ?thesis using not_digits by auto
    qed
    have ft: "f @ e @ t = [] \<or> \<not> is_digit (hd (f @ e @ t))"
    proof (cases "f = []")
      case True
      then show ?thesis using et unfolding True append_Nil by blast
    next
      case False
      then have "hd (f @ e @ t) = hd f" "hd f = CHR ''.''" using f by (simp_all only: hd_append2 simp_thms)
      then show ?thesis using not_digits by auto
    qed
    have "scan_int (i @ f @ e @ t) = Scanned i (f @ e @ t)" by (rule I [THEN conjunct2, THEN conjunct2, THEN conjunct2, rule_format, OF ft])
    moreover have "scan_frac (f @ e @ t) = Scanned f (e @ t)" by (rule F [THEN conjunct2, THEN conjunct2, rule_format, OF et])
    moreover have "scan_exp (e @ t) = Scanned e t"
      by (rule X [THEN conjunct2, THEN conjunct2, rule_format]) (use t in blast)
    ultimately show ?thesis by (simp add: scan_unsigned_def parts(4))
  qed
  moreover have i: "i \<noteq> []" "list_all is_digit i" "s = i @ r1" "r1 = f @ r2" "r2 = e @ rest" using I F X by blast+
  then have "is_digit (hd p)" "p \<noteq> []" "s = p @ rest" by (cases i; simp add: parts(4))+
  ultimately show ?thesis by blast
qed

lemma scan_number_spec:
  assumes "scan_number s = Scanned p rest"
  shows "s = p @ rest \<and> p \<noteq> [] \<and> (is_digit (hd p) \<or> hd p = CHR ''-'') \<and> (\<forall>t. delim t \<longrightarrow> scan_number (p @ t) = Scanned p t)"
proof (cases s)
  case (Cons c cs)
  show ?thesis
  proof (cases "c = CHR ''-''")
    case True
    then obtain q where q: "scan_unsigned cs = Scanned q rest" "p = c # q"
      using assms by (auto simp: Cons scan_number_def scan_map_Scanned)
    then show ?thesis using scan_unsigned_spec [OF q(1)] True by (simp add: Cons scan_number_def)
  next
    case False
    then have u: "scan_unsigned s = Scanned p rest" using assms by (simp add: Cons scan_number_def)
    note U = scan_unsigned_spec [OF u]
    then obtain d ds where "p = d # ds" "is_digit d" by (cases p) auto
    then show ?thesis using U not_digits by (auto simp: scan_number_def)
  qed
qed (use assms in \<open>simp add: scan_number_def\<close>)

subsection \<open>Strings\<close>

lemma scan_string_spec: "scan_string st s = Scanned body rest \<Longrightarrow> s = body @ rest \<and> body \<noteq> [] \<and> (\<forall>t. scan_string st (body @ t) = Scanned body t)"
proof (induction st s arbitrary: body rule: scan_string.induct)
  case (2 c cs)
  then show ?case by (cases "c = quote_char"; cases "c = backslash"; cases "byte c < 32") (auto simp: scan_map_Scanned)
next
  case (3 c cs)
  then show ?case by (cases "simple_escape c \<noteq> None"; cases "c = CHR ''u''") (auto simp: scan_map_Scanned)
next
  case (4 n c cs)
  then show ?case by (cases "hex_val c \<noteq> None") (auto simp: scan_map_Scanned)
qed simp

subsection \<open>Spaces\<close>

lemma skip_space_Cons: "skip_space s = x # xs \<Longrightarrow> \<exists>w. s = w @ x # xs \<and> list_all is_space w \<and> \<not> is_space x"
proof -
  assume s: "skip_space s = x # xs"
  have "s = takeWhile is_space s @ x # xs" using s by (metis skip_space_def takeWhile_dropWhile_id)
  moreover have "list_all is_space (takeWhile is_space s)" by (auto simp: list_all_iff dest: set_takeWhileD)
  moreover have "\<not> is_space x" using s by (metis hd_dropWhile list.distinct(1) list.sel(1) skip_space_def)
  ultimately show ?thesis by blast
qed

lemma skip_space_append: "list_all is_space w \<Longrightarrow> \<not> is_space x \<Longrightarrow> skip_space (w @ x # t) = x # t"
  by (induction w) (auto simp: skip_space_def)

lemma not_space [simp]:
  "\<not> is_space quote_char" "\<not> is_space CHR ''}''" "\<not> is_space CHR '']''" "\<not> is_space CHR '',''" "\<not> is_space CHR '':''"
  "\<not> is_space CHR ''{''" "\<not> is_space CHR ''[''" "\<not> is_space CHR ''n''" "\<not> is_space CHR ''t''" "\<not> is_space CHR ''f''" "\<not> is_space CHR ''-''"
  by (simp_all add: is_space_def byte_def)

lemma digit_not_space: "is_digit c \<Longrightarrow> \<not> is_space c"
  by (auto simp: is_digit_def is_space_def)

lemma delim_spaces: "list_all is_space w \<Longrightarrow> delim (c # t) \<Longrightarrow> delim (w @ c # t)"
  by (cases w) (auto simp: delim_space)

end
