(* ===== verification/JsonGrammar.thy ===== *)
theory JsonGrammar
  imports JsonScan
begin

text \<open>
  The grammar of JSON text, as relations between a text and the tree of it, and the scanner against
  it: what the scanner reads is a text of the grammar, and every text of the grammar is read from
  any input it starts. Properties of the texts are proved by induction over the grammar.
\<close>

section \<open>The grammar\<close>

declare scan_value.simps(2) [simp del] scan_elems.simps [simp del] scan_members.simps [simp del]

abbreviation spaces :: "string \<Rightarrow> bool" where "spaces \<equiv> list_all is_space"

text \<open>\<open>d\<close> is the number of arrays and objects the text may still nest.\<close>

definition is_number :: "string \<Rightarrow> bool" where
  "is_number p \<longleftrightarrow> scan_number p = Scanned p []"

definition is_string :: "string \<Rightarrow> bool" where
  "is_string body \<longleftrightarrow> scan_string InString body = Scanned body []"

inductive
      value_text :: "int \<Rightarrow> string \<Rightarrow> parsed \<Rightarrow> bool"
  and elems_text :: "int \<Rightarrow> string \<Rightarrow> parsed list \<Rightarrow> bool"
  and members_text :: "int \<Rightarrow> string \<Rightarrow> (string \<times> parsed) list \<Rightarrow> bool" where
  null_text: "value_text d ''null'' PNull"
| true_text: "value_text d ''true'' (PBool True)"
| false_text: "value_text d ''false'' (PBool False)"
| number_text: "is_number p \<Longrightarrow> value_text d p (PNum p)"
| string_text: "is_string body \<Longrightarrow> value_text d (quote_char # body) (PStr (quote_char # body) (unquote (butlast body)))"
| empty_array_text: "0 < d \<Longrightarrow> spaces w \<Longrightarrow> value_text d (CHR ''['' # w @ '']'') (PArr (CHR ''['' # w @ '']'') [])"
| array_text: "0 < d \<Longrightarrow> elems_text (d - 1) p vs \<Longrightarrow> value_text d (CHR ''['' # p) (PArr (CHR ''['' # p) vs)"
| empty_object_text: "0 < d \<Longrightarrow> spaces w \<Longrightarrow> value_text d (CHR ''{'' # w @ ''}'') (PObj (CHR ''{'' # w @ ''}'') [])"
| object_text: "0 < d \<Longrightarrow> members_text (d - 1) p kvs \<Longrightarrow> value_text d (CHR ''{'' # p) (PObj (CHR ''{'' # p) kvs)"
| last_elem: "spaces w \<Longrightarrow> value_text d p v \<Longrightarrow> spaces w' \<Longrightarrow> elems_text d (w @ p @ w' @ '']'') [v]"
| more_elems: "spaces w \<Longrightarrow> value_text d p v \<Longrightarrow> spaces w' \<Longrightarrow> elems_text d q vs \<Longrightarrow> elems_text d (w @ p @ w' @ CHR '','' # q) (v # vs)"
| last_member: "spaces w \<Longrightarrow> is_string body \<Longrightarrow> spaces w1 \<Longrightarrow> spaces w2 \<Longrightarrow> value_text d p v \<Longrightarrow> spaces w' \<Longrightarrow>
    members_text d (w @ quote_char # body @ w1 @ CHR '':'' # w2 @ p @ w' @ ''}'') [(unquote (butlast body), v)]"
| more_members: "spaces w \<Longrightarrow> is_string body \<Longrightarrow> spaces w1 \<Longrightarrow> spaces w2 \<Longrightarrow> value_text d p v \<Longrightarrow> spaces w' \<Longrightarrow> members_text d q kvs \<Longrightarrow>
    members_text d (w @ quote_char # body @ w1 @ CHR '':'' # w2 @ p @ w' @ CHR '','' # q) ((unquote (butlast body), v) # kvs)"

text \<open>The rules read backwards, by the kind of the value.\<close>

inductive_simps value_text_kinds:
  "value_text d p (PNum q)"
  "value_text d p (PStr r s)"
  "value_text d p (PArr r vs)"
  "value_text d p (PObj r kvs)"

lemma value_text_raw: "value_text d p v \<Longrightarrow> raw v = p"
  by (cases rule: value_text.cases) auto

lemma is_number_spec: "is_number p \<longleftrightarrow> p \<noteq> [] \<and> (is_digit (hd p) \<or> hd p = CHR ''-'') \<and> (\<forall>t. delim t \<longrightarrow> scan_number (p @ t) = Scanned p t)"
proof
  assume "is_number p"
  then show "p \<noteq> [] \<and> (is_digit (hd p) \<or> hd p = CHR ''-'') \<and> (\<forall>t. delim t \<longrightarrow> scan_number (p @ t) = Scanned p t)"
    using scan_number_spec [of p p "[]"] unfolding is_number_def by blast
next
  assume h: "p \<noteq> [] \<and> (is_digit (hd p) \<or> hd p = CHR ''-'') \<and> (\<forall>t. delim t \<longrightarrow> scan_number (p @ t) = Scanned p t)"
  have "scan_number (p @ []) = Scanned p []" using h delim_simps(1) by blast
  then show "is_number p" by (simp add: is_number_def)
qed

lemma scan_number_text: "scan_number s = Scanned p rest \<Longrightarrow> s = p @ rest \<and> is_number p"
  using scan_number_spec [of s p rest] by (simp add: is_number_spec)

lemma is_string_append: "is_string body \<Longrightarrow> scan_string InString (body @ t) = Scanned body t"
  using scan_string_spec [of InString body body "[]"] by (simp add: is_string_def)

lemma scan_string_text: "scan_string InString s = Scanned body rest \<Longrightarrow> s = body @ rest \<and> is_string body"
  using scan_string_spec [of InString s body rest] unfolding is_string_def by (metis append_Nil2)

lemma not_digit_chars:
  "is_digit c \<Longrightarrow> c \<noteq> CHR ''{'' \<and> c \<noteq> CHR ''['' \<and> c \<noteq> quote_char \<and> c \<noteq> CHR ''n'' \<and> c \<noteq> CHR ''t'' \<and> c \<noteq> CHR ''f'' \<and> c \<noteq> CHR '']''"
  by (auto simp: is_digit_def byte_def)

lemma scan_value_number:
  assumes "c = CHR ''-'' \<or> is_digit c"
  shows "scan_value d (c # cs) = scan_map PNum (scan_number (c # cs))"
proof (cases "is_digit c")
  case True
  then show ?thesis using not_digit_chars [OF True] by (simp add: scan_value.simps)
qed (use assms in \<open>simp add: scan_value.simps\<close>)

lemma is_number_starts: "is_number p \<Longrightarrow> \<exists>c q. p = c # q \<and> \<not> is_space c \<and> c \<noteq> CHR '']''"
proof -
  assume "is_number p"
  then obtain c q where p: "p = c # q" "is_digit c \<or> c = CHR ''-''" by (cases p) (auto simp: is_number_spec)
  then show ?thesis using digit_not_space [of c] not_digit_chars [of c] by auto
qed

lemma value_text_starts: "value_text d p v \<Longrightarrow> \<exists>c q. p = c # q \<and> \<not> is_space c \<and> c \<noteq> CHR '']''"
  by (erule value_text.cases) (use is_number_starts in auto)

section \<open>What the scanner reads\<close>

lemma consumed_append [simp]: "consumed (p @ rest) rest = p"
  by (simp add: consumed_def)

lemma consumed_Cons: "consumed (c # p @ rest) rest = c # p"
  using consumed_append [of "c # p" rest] by simp

text \<open>Forward steps, with the tests of the length discharged.\<close>

lemma scan_elems_last:
  assumes "list_all is_space w" "vt = x # q" "\<not> is_space x" "scan_value d (vt @ w' @ CHR '']'' # t) = Scanned v (w' @ CHR '']'' # t)"
    "list_all is_space w'"
  shows "scan_elems d (w @ vt @ w' @ CHR '']'' # t) = Scanned [v] t"
  using assms by (simp add: scan_elems.simps skip_space_append)

lemma scan_elems_more:
  assumes "list_all is_space w" "vt = x # q" "\<not> is_space x" "scan_value d (vt @ w' @ CHR '','' # t) = Scanned v (w' @ CHR '','' # t)"
    "list_all is_space w'" "scan_elems d t = Scanned vs t'"
  shows "scan_elems d (w @ vt @ w' @ CHR '','' # t) = Scanned (v # vs) t'"
  using assms by (simp add: scan_elems.simps skip_space_append)

lemma scan_members_last:
  assumes "list_all is_space w" "scan_string InString (body @ w1 @ CHR '':'' # w2 @ vt @ w' @ CHR ''}'' # t)
      = Scanned body (w1 @ CHR '':'' # w2 @ vt @ w' @ CHR ''}'' # t)"
    "list_all is_space w1" "list_all is_space w2" "vt = x # q" "\<not> is_space x"
    "scan_value d (vt @ w' @ CHR ''}'' # t) = Scanned v (w' @ CHR ''}'' # t)" "list_all is_space w'"
  shows "scan_members d (w @ quote_char # body @ w1 @ CHR '':'' # w2 @ vt @ w' @ CHR ''}'' # t) = Scanned [(unquote (butlast body), v)] t"
  using assms by (simp add: scan_members.simps skip_space_append)

lemma scan_members_more:
  assumes "list_all is_space w" "scan_string InString (body @ w1 @ CHR '':'' # w2 @ vt @ w' @ CHR '','' # t)
      = Scanned body (w1 @ CHR '':'' # w2 @ vt @ w' @ CHR '','' # t)"
    "list_all is_space w1" "list_all is_space w2" "vt = x # q" "\<not> is_space x"
    "scan_value d (vt @ w' @ CHR '','' # t) = Scanned v (w' @ CHR '','' # t)" "list_all is_space w'"
    "scan_members d t = Scanned kvs t'"
  shows "scan_members d (w @ quote_char # body @ w1 @ CHR '':'' # w2 @ vt @ w' @ CHR '','' # t) = Scanned ((unquote (butlast body), v) # kvs) t'"
  using assms by (simp add: scan_members.simps skip_space_append)

subsection \<open>Every text that is read is one of the grammar\<close>

lemma scan_elems_cases:
  assumes "scan_elems d s = Scanned vs rest"
  obtains w x q r1 v w'
  where "s = w @ x # q" "list_all is_space w" "\<not> is_space x" "scan_value d (x # q) = Scanned v r1"
    "skip_space s = x # q"
    "r1 = w' @ CHR '']'' # rest" "list_all is_space w'" "vs = [v]"
  | w x q r1 v w' r2 vs'
  where "s = w @ x # q" "list_all is_space w" "\<not> is_space x" "scan_value d (x # q) = Scanned v r1"
    "skip_space s = x # q"
    "skip_space r1 = CHR '','' # r2" "r1 = w' @ CHR '','' # r2" "list_all is_space w'" "length r2 < length s"
    "scan_elems d r2 = Scanned vs' rest" "vs = v # vs'"
proof -
  obtain v r1 where 1: "scan_value d (skip_space s) = Scanned v r1"
    using assms by (auto simp: scan_elems.simps split: scanned.splits)
  then obtain x q where x: "skip_space s = x # q" by (cases "skip_space s") auto
  from skip_space_Cons [OF this] obtain w where w: "s = w @ x # q" "list_all is_space w" "\<not> is_space x" by blast
  obtain c r2 where c: "skip_space r1 = c # r2" using assms 1 by (cases "skip_space r1") (auto simp: scan_elems.simps)
  from skip_space_Cons [OF this] obtain w' where w': "r1 = w' @ c # r2" "list_all is_space w'" by blast
  show ?thesis
  proof (cases "c = CHR '']''")
    case True
    then show ?thesis using that(1) w x 1 w' assms c by (auto simp: scan_elems.simps)
  next
    case False
    then have c': "c = CHR '',''" "length r2 < length s" using assms 1 c by (auto simp: scan_elems.simps split: if_splits)
    then obtain vs' where "scan_elems d r2 = Scanned vs' rest" "vs = v # vs'"
      using assms 1 c by (subst (asm) scan_elems.simps) (auto split: scanned.splits)
    then show ?thesis using that(2) w x 1 w' c c' by auto
  qed
qed

lemma scan_members_cases:
  assumes "scan_members d s = Scanned kvs rest"
  obtains w q body w1 w2 x vq r1 v w'
  where "s = w @ quote_char # q" "list_all is_space w" "skip_space s = quote_char # q"
    "scan_string InString q = Scanned body (w1 @ CHR '':'' # w2 @ x # vq)" "list_all is_space w1" "list_all is_space w2" "\<not> is_space x"
    "skip_space (w1 @ CHR '':'' # w2 @ x # vq) = CHR '':'' # w2 @ x # vq" "length (w2 @ x # vq) < length s" "skip_space (w2 @ x # vq) = x # vq"
    "scan_value d (x # vq) = Scanned v r1"
    "r1 = w' @ CHR ''}'' # rest" "list_all is_space w'" "kvs = [(unquote (butlast body), v)]"
  | w q body w1 w2 x vq r1 v w' r2 kvs'
  where "s = w @ quote_char # q" "list_all is_space w" "skip_space s = quote_char # q"
    "scan_string InString q = Scanned body (w1 @ CHR '':'' # w2 @ x # vq)" "list_all is_space w1" "list_all is_space w2" "\<not> is_space x"
    "skip_space (w1 @ CHR '':'' # w2 @ x # vq) = CHR '':'' # w2 @ x # vq" "length (w2 @ x # vq) < length s" "skip_space (w2 @ x # vq) = x # vq"
    "scan_value d (x # vq) = Scanned v r1"
    "skip_space r1 = CHR '','' # r2" "r1 = w' @ CHR '','' # r2" "list_all is_space w'" "length r2 < length s"
    "scan_members d r2 = Scanned kvs' rest" "kvs = (unquote (butlast body), v) # kvs'"
proof -
  obtain q where q: "skip_space s = quote_char # q"
    using assms by (cases "skip_space s") (auto simp: scan_members.simps split: if_splits)
  from skip_space_Cons [OF this] obtain w where w: "s = w @ quote_char # q" "list_all is_space w" by blast
  obtain body r0 where b: "scan_string InString q = Scanned body r0"
    using assms q by (cases "scan_string InString q") (auto simp: scan_members.simps)
  obtain col r0' where col: "skip_space r0 = col # r0'" using assms q b by (cases "skip_space r0") (auto simp: scan_members.simps)
  then have col': "col = CHR '':''" "length r0' < length s" using assms q b by (auto simp: scan_members.simps split: if_splits)
  obtain v r1 where v: "scan_value d (skip_space r0') = Scanned v r1"
    using assms q b col col' by (cases "scan_value d (skip_space r0')") (auto simp: scan_members.simps)
  then obtain x vq where x: "skip_space r0' = x # vq" by (cases "skip_space r0'") auto
  obtain w1 where w1: "r0 = w1 @ CHR '':'' # r0'" "list_all is_space w1" using skip_space_Cons [OF col] col' by auto
  obtain w2 where w2: "r0' = w2 @ x # vq" "list_all is_space w2" "\<not> is_space x" using skip_space_Cons [OF x] by auto
  obtain c r2 where c: "skip_space r1 = c # r2" using assms q b col col' v by (cases "skip_space r1") (auto simp: scan_members.simps)
  from skip_space_Cons [OF this] obtain w' where w': "r1 = w' @ c # r2" "list_all is_space w'" by blast
  note step = assms [unfolded scan_members.simps [of d s] q list.case b scanned.case col col'(1) v c]
  show ?thesis
  proof (cases "c = CHR ''}''")
    case True
    then show ?thesis using that(1) [OF w q b [unfolded w1 w2] w1(2) w2(2,3)] step col col' x v w' by (auto simp: w1 w2)
  next
    case False
    then have c': "c = CHR '',''" "length r2 < length s" using step col' by (auto split: if_splits)
    then obtain kvs' where "scan_members d r2 = Scanned kvs' rest" "kvs = (unquote (butlast body), v) # kvs'"
      using step col' by (auto split: scanned.splits)
    then show ?thesis using that(2) [OF w q b [unfolded w1 w2] w1(2) w2(2,3)] col col' x v w' c c' by (auto simp: w1 w2)
  qed
qed

definition reads :: "(string \<Rightarrow> 'a \<Rightarrow> bool) \<Rightarrow> string \<Rightarrow> 'a \<Rightarrow> string \<Rightarrow> bool" where
  "reads text s v rest \<longleftrightarrow> (\<exists>p. s = p @ rest \<and> text p v)"

lemma readsI: "text p v \<Longrightarrow> s = p @ rest \<Longrightarrow> reads text s v rest"
  unfolding reads_def by blast

lemma scan_atom_sound:
  assumes "scan_value d (c # cs) = Scanned v rest" "c \<noteq> CHR ''{''" "c \<noteq> CHR ''[''"
  shows "reads (value_text d) (c # cs) v rest"
proof -
  note sv = assms(1) [unfolded scan_value.simps if_not_P [OF assms(2)] if_not_P [OF assms(3)]]
  consider (str) "c = quote_char" | (null) "c = CHR ''n''" | (tr) "c = CHR ''t''" | (fa) "c = CHR ''f''"
    | (num) "c = CHR ''-'' \<or> is_digit c"
    using sv by (auto split: if_splits)
  then show ?thesis
  proof cases
    case str
    then obtain body where b: "scan_string InString cs = Scanned body rest" "v = PStr (c # body) (unquote (butlast body))"
      using sv by (auto simp: scan_map_Scanned)
    then show ?thesis
      using scan_string_text [OF b(1)] by (intro readsI [where p = "c # body"]) (simp_all add: str string_text)
  next
    case null
    then have b: "scan_word ''ull'' cs = Scanned () rest" "v = PNull" using sv by (auto simp: scan_map_Scanned)
    then show ?thesis
      using scan_word_spec [OF b(1)] by (intro readsI [where p = "''null''"]) (simp_all add: null null_text)
  next
    case tr
    then have b: "scan_word ''rue'' cs = Scanned () rest" "v = PBool True" using sv by (auto simp: scan_map_Scanned)
    then show ?thesis
      using scan_word_spec [OF b(1)] by (intro readsI [where p = "''true''"]) (simp_all add: tr true_text)
  next
    case fa
    then have b: "scan_word ''alse'' cs = Scanned () rest" "v = PBool False" using sv by (auto simp: scan_map_Scanned)
    then show ?thesis
      using scan_word_spec [OF b(1)] by (intro readsI [where p = "''false''"]) (simp_all add: fa false_text)
  next
    case num
    obtain p where p: "scan_number (c # cs) = Scanned p rest" "v = PNum p"
      using assms(1) unfolding scan_value_number [OF num] scan_map_Scanned by blast
    then show ?thesis
      using scan_number_text [OF p(1)] by (intro readsI [where p = p]) (simp_all add: number_text)
  qed
qed

lemma scan_value_object:
  assumes "scan_value d (CHR ''{'' # cs) = Scanned v rest"
  shows "0 < d \<and> (skip_space cs = CHR ''}'' # rest \<and> v = PObj (consumed (CHR ''{'' # cs) rest) []
    \<or> (\<exists>x xs kvs. skip_space cs = x # xs \<and> x \<noteq> CHR ''}'' \<and> scan_members (d - 1) cs = Scanned kvs rest
         \<and> v = PObj (consumed (CHR ''{'' # cs) rest) kvs))"
  using assms by (auto simp: scan_value.simps split: if_splits list.splits scanned.splits)

lemma scan_value_array:
  assumes "scan_value d (CHR ''['' # cs) = Scanned v rest"
  shows "0 < d \<and> (skip_space cs = CHR '']'' # rest \<and> v = PArr (consumed (CHR ''['' # cs) rest) []
    \<or> (\<exists>x xs vs. skip_space cs = x # xs \<and> x \<noteq> CHR '']'' \<and> scan_elems (d - 1) cs = Scanned vs rest
         \<and> v = PArr (consumed (CHR ''['' # cs) rest) vs))"
  using assms by (auto simp: scan_value.simps split: if_splits list.splits scanned.splits)

lemma scan_sound:
  "scan_value d s = Scanned v rest \<Longrightarrow> reads (value_text d) s v rest"
  "scan_elems d s = Scanned vs rest \<Longrightarrow> reads (elems_text d) s vs rest"
  "scan_members d s = Scanned kvs rest \<Longrightarrow> reads (members_text d) s kvs rest"
proof (induction d s and d s and d s arbitrary: v rest and vs rest and kvs rest
    rule: scan_value_scan_elems_scan_members.induct)
  case (2 d c cs)
  consider (obj) "c = CHR ''{''" | (arr) "c = CHR ''[''" | (atom) "c \<noteq> CHR ''{''" "c \<noteq> CHR ''[''" by blast
  then show ?case
  proof cases
    case obj
    from scan_value_object [OF "2.prems" [unfolded obj]] show ?thesis
    proof (elim conjE disjE exE)
      assume h: "0 < d" "skip_space cs = CHR ''}'' # rest" "v = PObj (consumed (CHR ''{'' # cs) rest) []"
      obtain w where w: "cs = w @ CHR ''}'' # rest" "spaces w" using skip_space_Cons [OF h(2)] by blast
      then have cs: "c # cs = (CHR ''{'' # w @ ''}'') @ rest" by (simp add: obj)
      show ?thesis
        using h(3) empty_object_text [OF h(1) w(2)] unfolding obj [symmetric] cs consumed_append by (intro readsI) (simp_all add: obj)
    next
      fix x xs kvs
      assume h: "0 < d" "skip_space cs = x # xs" "x \<noteq> CHR ''}''" "scan_members (d - 1) cs = Scanned kvs rest"
        "v = PObj (consumed (CHR ''{'' # cs) rest) kvs"
      have "reads (members_text (d - 1)) cs kvs rest" by (rule "2.IH"(1) [OF obj _ h(2,3,4)]) (use h(1) in simp)
      then obtain p where p: "cs = p @ rest" "members_text (d - 1) p kvs" by (auto simp: reads_def)
      then show ?thesis
        using object_text [OF h(1) p(2)] by (intro readsI [where p = "CHR ''{'' # p"]) (simp_all add: obj h(5) consumed_Cons)
    qed
  next
    case arr
    from scan_value_array [OF "2.prems" [unfolded arr]] show ?thesis
    proof (elim conjE disjE exE)
      assume h: "0 < d" "skip_space cs = CHR '']'' # rest" "v = PArr (consumed (CHR ''['' # cs) rest) []"
      obtain w where w: "cs = w @ CHR '']'' # rest" "spaces w" using skip_space_Cons [OF h(2)] by blast
      then have cs: "c # cs = (CHR ''['' # w @ '']'') @ rest" by (simp add: arr)
      show ?thesis
        using h(3) empty_array_text [OF h(1) w(2)] unfolding arr [symmetric] cs consumed_append by (intro readsI) (simp_all add: arr)
    next
      fix x xs vs
      assume h: "0 < d" "skip_space cs = x # xs" "x \<noteq> CHR '']''" "scan_elems (d - 1) cs = Scanned vs rest"
        "v = PArr (consumed (CHR ''['' # cs) rest) vs"
      have "reads (elems_text (d - 1)) cs vs rest" by (rule "2.IH"(2) [OF _ arr _ h(2,3,4)]) (use h(1) in \<open>simp_all add: arr\<close>)
      then obtain p where p: "cs = p @ rest" "elems_text (d - 1) p vs" by (auto simp: reads_def)
      then show ?thesis
        using array_text [OF h(1) p(2)] by (intro readsI [where p = "CHR ''['' # p"]) (simp_all add: arr h(5) consumed_Cons)
    qed
  qed (use "2.prems" scan_atom_sound in blast)
next
  case (3 d s)
  from 3(3) show ?case
  proof (cases rule: scan_elems_cases)
    case (1 w x q r1 v w')
    then have "reads (value_text d) (x # q) v (w' @ CHR '']'' # rest)" using 3(1) by simp
    then obtain p where p: "x # q = p @ w' @ CHR '']'' # rest" "value_text d p v" by (auto simp: reads_def)
    then show ?thesis
      using last_elem [OF 1(2) p(2) 1(7)] by (intro readsI [where p = "w @ p @ w' @ '']''"]) (simp_all add: 1)
  next
    case (2 w x q r1 v w' r2 vs')
    then have "reads (value_text d) (x # q) v (w' @ CHR '','' # r2)" using 3(1) by simp
    then obtain p where p: "x # q = p @ w' @ CHR '','' # r2" "value_text d p v" by (auto simp: reads_def)
    have "reads (elems_text d) r2 vs' rest" using 3(2) 2 by simp
    then obtain p' where p': "r2 = p' @ rest" "elems_text d p' vs'" by (auto simp: reads_def)
    show ?thesis
      using more_elems [OF 2(2) p(2) 2(8) p'(2)] p(1) by (intro readsI [where p = "w @ p @ w' @ CHR '','' # p'"]) (simp_all add: 2(1,11) p'(1))
  qed
next
  case (4 d s)
  from 4(3) show ?case
  proof (cases rule: scan_members_cases)
    case (1 w q body w1 w2 x vq r1 v w')
    then have "reads (value_text d) (x # vq) v (w' @ CHR ''}'' # rest)" using 4(1) [OF 1(3) _ 1(4) 1(8)] by simp
    then obtain p where p: "x # vq = p @ w' @ CHR ''}'' # rest" "value_text d p v" by (auto simp: reads_def)
    have b: "q = body @ w1 @ CHR '':'' # w2 @ x # vq" "is_string body" using scan_string_text [OF 1(4)] by blast+
    show ?thesis
      using last_member [OF 1(2) b(2) 1(5,6) p(2) 1(13)]
      by (intro readsI [where p = "w @ quote_char # body @ w1 @ CHR '':'' # w2 @ p @ w' @ ''}''"]) (simp_all add: 1(1,14) b(1) p(1))
  next
    case (2 w q body w1 w2 x vq r1 v w' r2 kvs')
    then have "reads (value_text d) (x # vq) v (w' @ CHR '','' # r2)" using 4(1) [OF 2(3) _ 2(4) 2(8)] by simp
    then obtain p where p: "x # vq = p @ w' @ CHR '','' # r2" "value_text d p v" by (auto simp: reads_def)
    have "reads (members_text d) r2 kvs' rest" using 4(2) [OF 2(3) _ 2(4) 2(8) _ _ 2(12)] 2 by simp
    then obtain p' where p': "r2 = p' @ rest" "members_text d p' kvs'" by (auto simp: reads_def)
    have b: "q = body @ w1 @ CHR '':'' # w2 @ x # vq" "is_string body" using scan_string_text [OF 2(4)] by blast+
    show ?thesis
      using more_members [OF 2(2) b(2) 2(5,6) p(2) 2(14) p'(2)]
      by (intro readsI [where p = "w @ quote_char # body @ w1 @ CHR '':'' # w2 @ p @ w' @ CHR '','' # p'"]) (simp_all add: 2(1,17) b(1) p(1) p'(1))
  qed
qed simp

subsection \<open>Every text of the grammar is read\<close>

lemma spaces_delim: "spaces w \<Longrightarrow> c \<in> {CHR '','', CHR '']'', CHR ''}''} \<Longrightarrow> delim (w @ c # t)"
  by (auto intro: delim_spaces)

lemma elems_text_starts:
  assumes "elems_text d p vs"
  shows "\<exists>w c q. p = w @ c # q \<and> spaces w \<and> \<not> is_space c \<and> c \<noteq> CHR '']''"
proof -
  obtain w p' v r where p: "p = w @ p' @ r" "spaces w" "value_text d p' v" using assms by (cases rule: elems_text.cases) blast+
  obtain c q where "p' = c # q" "\<not> is_space c" "c \<noteq> CHR '']''" using value_text_starts [OF p(3)] by blast
  with p show ?thesis by auto
qed

lemma members_text_starts: "members_text d p kvs \<Longrightarrow> \<exists>w q. p = w @ quote_char # q \<and> spaces w"
  by (cases rule: members_text.cases) auto

lemma scan_complete:
  "value_text d p v \<Longrightarrow> delim t \<Longrightarrow> scan_value d (p @ t) = Scanned v t"
  "elems_text d p vs \<Longrightarrow> scan_elems d (p @ t) = Scanned vs t"
  "members_text d p kvs \<Longrightarrow> scan_members d (p @ t) = Scanned kvs t"
proof (induction arbitrary: t and t and t rule: value_text_elems_text_members_text.inducts)
  case (null_text d)
  then show ?case using scan_word_append [of "''ull''" t] by (simp add: scan_value.simps)
next
  case (true_text d)
  then show ?case using scan_word_append [of "''rue''" t] by (simp add: scan_value.simps)
next
  case (false_text d)
  then show ?case using scan_word_append [of "''alse''" t] by (simp add: scan_value.simps)
next
  case (number_text p d)
  then obtain c q where p: "p = c # q" "is_digit c \<or> c = CHR ''-''" "scan_number (p @ t) = Scanned p t"
    by (cases p) (auto simp: is_number_spec)
  then have c: "c = CHR ''-'' \<or> is_digit c" by blast
  show ?case using p(3) scan_value_number [OF c, of d "q @ t"] by (simp add: p(1))
next
  case (string_text body d)
  then show ?case by (simp add: scan_value.simps is_string_append)
next
  case (empty_array_text d w)
  have "skip_space (w @ CHR '']'' # t) = CHR '']'' # t" using empty_array_text by (simp add: skip_space_append)
  moreover have "consumed (CHR ''['' # w @ CHR '']'' # t) t = CHR ''['' # w @ '']''"
    using consumed_append [of "CHR ''['' # w @ '']''" t] by simp
  ultimately show ?case using empty_array_text(1) by (simp add: scan_value.simps)
next
  case (array_text d p vs)
  obtain w c q where p: "p = w @ c # q" "spaces w" "\<not> is_space c" "c \<noteq> CHR '']''" using elems_text_starts [OF array_text(2)] by blast
  then have "skip_space (p @ t) = c # q @ t" by (simp add: skip_space_append)
  then show ?case using array_text(1,3) p(4) by (simp add: scan_value.simps consumed_Cons)
next
  case (empty_object_text d w)
  have "skip_space (w @ CHR ''}'' # t) = CHR ''}'' # t" using empty_object_text by (simp add: skip_space_append)
  moreover have "consumed (CHR ''{'' # w @ CHR ''}'' # t) t = CHR ''{'' # w @ ''}''"
    using consumed_append [of "CHR ''{'' # w @ ''}''" t] by simp
  ultimately show ?case using empty_object_text(1) by (simp add: scan_value.simps)
next
  case (object_text d p kvs)
  obtain w q where p: "p = w @ quote_char # q" "spaces w" using members_text_starts [OF object_text(2)] by blast
  then have "skip_space (p @ t) = quote_char # q @ t" by (simp add: skip_space_append)
  then show ?case using object_text(1,3) by (simp add: scan_value.simps consumed_Cons)
next
  case (last_elem w d p v w')
  obtain x q where x: "p = x # q" "\<not> is_space x" using value_text_starts [OF last_elem(2)] by blast
  have "scan_value d (p @ w' @ CHR '']'' # t) = Scanned v (w' @ CHR '']'' # t)"
    using last_elem by (intro last_elem(4) spaces_delim) simp_all
  from scan_elems_last [OF last_elem(1) x this last_elem(3)] show ?case by simp
next
  case (more_elems w d p v w' q vs)
  obtain x y where x: "p = x # y" "\<not> is_space x" using value_text_starts [OF more_elems(2)] by blast
  have "scan_value d (p @ w' @ CHR '','' # q @ t) = Scanned v (w' @ CHR '','' # q @ t)"
    using more_elems by (intro more_elems(5) spaces_delim) simp_all
  from scan_elems_more [OF more_elems(1) x this more_elems(3) more_elems(6)] show ?case by simp
next
  case (last_member w body w1 w2 d p v w')
  obtain x q where x: "p = x # q" "\<not> is_space x" using value_text_starts [OF last_member(5)] by blast
  have "scan_value d (p @ w' @ CHR ''}'' # t) = Scanned v (w' @ CHR ''}'' # t)"
    using last_member by (intro last_member(7) spaces_delim) simp_all
  from scan_members_last [OF last_member(1) is_string_append [OF last_member(2)] last_member(3,4) x this last_member(6)]
  show ?case by simp
next
  case (more_members w body w1 w2 d p v w' q kvs)
  obtain x y where x: "p = x # y" "\<not> is_space x" using value_text_starts [OF more_members(5)] by blast
  have "scan_value d (p @ w' @ CHR '','' # q @ t) = Scanned v (w' @ CHR '','' # q @ t)"
    using more_members by (intro more_members(8) spaces_delim) simp_all
  from scan_members_more [OF more_members(1) is_string_append [OF more_members(2)] more_members(3,4) x this more_members(6,9)]
  show ?case by simp
qed

lemma scan_value_text: "scan_value d s = Scanned v rest \<Longrightarrow> s = raw v @ rest \<and> value_text d (raw v) v"
proof -
  assume "scan_value d s = Scanned v rest"
  then obtain p where "s = p @ rest" "value_text d p v" using scan_sound(1) unfolding reads_def by blast
  then show ?thesis using value_text_raw by blast
qed

theorem scan_value_iff:
  assumes "delim rest"
  shows "scan_value d s = Scanned v rest \<longleftrightarrow> s = raw v @ rest \<and> value_text d (raw v) v"
  using scan_value_text scan_complete(1) [OF _ assms] by blast

subsection \<open>Deeper nesting\<close>

lemma text_deeper:
  "value_text d p v \<Longrightarrow> d \<le> d' \<Longrightarrow> value_text d' p v"
  "elems_text d p vs \<Longrightarrow> d \<le> d' \<Longrightarrow> elems_text d' p vs"
  "members_text d p kvs \<Longrightarrow> d \<le> d' \<Longrightarrow> members_text d' p kvs"
proof (induction arbitrary: d' and d' and d' rule: value_text_elems_text_members_text.inducts)
  case (array_text d p vs)
  then show ?case by (intro value_text_elems_text_members_text.array_text) simp_all
next
  case (object_text d p kvs)
  then show ?case by (intro value_text_elems_text_members_text.object_text) simp_all
qed (rule value_text_elems_text_members_text.intros; simp)+

end
