(* ===== verification/JsonCompact.thy ===== *)
theory JsonCompact
  imports JsonGrammar
begin

text \<open>
  \<open>json.Compact\<close> with HTML escaping, as the encoder applies it to raw messages: spaces outside
  strings are dropped, and inside strings the characters of HTML and the line separators of
  JavaScript are escaped. The result is a text of the grammar again, and compact.
\<close>

datatype in_text = Outside | Inside | Escaped

text \<open>U+2028 and U+2029 after their first byte.\<close>

definition separator_rest :: "string \<Rightarrow> bool" where
  "separator_rest s \<longleftrightarrow> take 2 s = [CHR 0x80, CHR 0xA8] \<or> take 2 s = [CHR 0x80, CHR 0xA9]"

definition html_escape :: "char \<Rightarrow> string option" where
  "html_escape c =
     (if c = CHR ''<'' then Some (backslash # ''u003c'') else if c = CHR ''>'' then Some (backslash # ''u003e'')
      else if c = CHR ''&'' then Some (backslash # ''u0026'') else None)"

function compact_json :: "in_text \<Rightarrow> string \<Rightarrow> string" where
  "compact_json st [] = []"
| "compact_json Outside (c # cs) =
     (if is_space c then compact_json Outside cs else c # compact_json (if c = quote_char then Inside else Outside) cs)"
| "compact_json Escaped (c # cs) = c # compact_json Inside cs"
| "compact_json Inside (c # cs) =
     (if c = quote_char then c # compact_json Outside cs
      else if c = backslash then c # compact_json Escaped cs
      else if c = CHR 0xE2 \<and> separator_rest cs
        then backslash # ''u202'' @ (if cs ! 1 = CHR 0xA8 then ''8'' else ''9'') @ compact_json Inside (drop 2 cs)
      else (case html_escape c of Some e \<Rightarrow> e | None \<Rightarrow> [c]) @ compact_json Inside cs)"
  by pat_completeness auto
termination
  by (relation "measure (\<lambda>(st, s). length s)") auto

section \<open>Strings\<close>

fun mode :: "in_string \<Rightarrow> in_text" where
  "mode InString = Inside"
| "mode InEscape = Escaped"
| "mode (InHex n) = Inside"

definition is_body :: "in_string \<Rightarrow> string \<Rightarrow> bool" where
  "is_body st b \<longleftrightarrow> scan_string st b = Scanned b []"

lemma is_body_simps:
  "\<not> is_body st []"
  "is_body InString (c # cs) \<longleftrightarrow> (if c = quote_char then cs = [] else if c = backslash then is_body InEscape cs
     else 32 \<le> byte c \<and> is_body InString cs)"
  "is_body InEscape (c # cs) \<longleftrightarrow> (if simple_escape c \<noteq> None then is_body InString cs else c = CHR ''u'' \<and> is_body (InHex 3) cs)"
  "is_body (InHex n) (c # cs) \<longleftrightarrow> hex_val c \<noteq> None \<and> is_body (case n of 0 \<Rightarrow> InString | Suc m \<Rightarrow> InHex m) cs"
  by (auto simp: is_body_def scan_map_Scanned)

lemma separator_rest_body:
  assumes "is_body InString b"
  shows "separator_rest (b @ t) \<longleftrightarrow> separator_rest b"
proof -
  obtain c cs where b: "b = c # cs" using assms by (cases b) (auto simp: is_body_simps)
  show ?thesis
  proof (cases cs)
    case Nil
    then have "c = quote_char" using assms b by (auto simp: is_body_simps split: if_splits)
    then show ?thesis by (simp add: b Nil separator_rest_def)
  qed (simp add: b separator_rest_def)
qed

lemma separator_rest_split:
  assumes "separator_rest cs"
  obtains x r where "cs = CHR 0x80 # x # r" "x = CHR 0xA8 \<or> x = CHR 0xA9"
proof -
  have "take 2 cs = [cs ! 0, cs ! 1]" "length cs \<ge> 2"
    using assms by (cases cs; cases "tl cs"; auto simp: separator_rest_def numeral_2_eq_2)+
  then show ?thesis
    using assms that by (cases cs; cases "tl cs") (auto simp: separator_rest_def numeral_2_eq_2)
qed

lemma body_separator:
  assumes "is_body InString (CHR 0x80 # x # r)" "x = CHR 0xA8 \<or> x = CHR 0xA9"
  shows "is_body InString r"
  using assms by (auto simp: is_body_simps byte_def)

lemma separator_rest_compact:
  assumes "is_body InString b"
  shows "separator_rest (compact_json Inside b) \<longleftrightarrow> separator_rest b"
proof (cases b)
  case (Cons c cs)
  show ?thesis
  proof (cases "c = CHR 0x80")
    case True
    then have "is_body InString cs" using assms by (simp add: Cons is_body_simps)
    then obtain x r where x: "cs = x # r" by (cases cs) (auto simp: is_body_simps)
    have "compact_json Inside b = CHR 0x80 # compact_json Inside (x # r)" by (simp add: Cons True html_escape_def x)
    moreover have "hd (compact_json Inside (x # r)) = x \<or> hd (compact_json Inside (x # r)) = backslash \<and> x \<notin> {CHR 0xA8, CHR 0xA9}"
      "compact_json Inside (x # r) \<noteq> []"
      by (auto simp: html_escape_def)
    ultimately show ?thesis
      by (cases "compact_json Inside (x # r)") (auto simp: Cons True x separator_rest_def numeral_2_eq_2)
  next
    case False
    then have "\<not> separator_rest b" by (simp add: Cons separator_rest_def)
    moreover have "hd (compact_json Inside b) \<noteq> CHR 0x80" "compact_json Inside b \<noteq> []" using False by (auto simp: Cons html_escape_def)
    ultimately show ?thesis by (cases "compact_json Inside b") (auto simp: separator_rest_def numeral_2_eq_2)
  qed
qed (use assms in \<open>simp add: is_body_simps\<close>)

lemma compact_escapes:
  "compact_json Inside (backslash # ''u003c'' @ t) = backslash # ''u003c'' @ compact_json Inside t"
  "compact_json Inside (backslash # ''u003e'' @ t) = backslash # ''u003e'' @ compact_json Inside t"
  "compact_json Inside (backslash # ''u0026'' @ t) = backslash # ''u0026'' @ compact_json Inside t"
  "compact_json Inside (backslash # ''u202'' @ ''8'' @ t) = backslash # ''u202'' @ ''8'' @ compact_json Inside t"
  "compact_json Inside (backslash # ''u202'' @ ''9'' @ t) = backslash # ''u202'' @ ''9'' @ compact_json Inside t"
  by (simp_all add: html_escape_def)

lemma body_escapes:
  "is_body InString (backslash # ''u003c'' @ t) \<longleftrightarrow> is_body InString t"
  "is_body InString (backslash # ''u003e'' @ t) \<longleftrightarrow> is_body InString t"
  "is_body InString (backslash # ''u0026'' @ t) \<longleftrightarrow> is_body InString t"
  "is_body InString (backslash # ''u202'' @ ''8'' @ t) \<longleftrightarrow> is_body InString t"
  "is_body InString (backslash # ''u202'' @ ''9'' @ t) \<longleftrightarrow> is_body InString t"
  by (simp_all add: is_body_simps simple_escape_def hex_val_def digit_val_def byte_def numeral_3_eq_3)

text \<open>A body is compacted without a look at what follows it, to a body that is compact.\<close>

definition compacts :: "in_string \<Rightarrow> string \<Rightarrow> bool" where
  "compacts st b \<longleftrightarrow> is_body st (compact_json (mode st) b)
     \<and> (\<forall>t. compact_json (mode st) (b @ t) = compact_json (mode st) b @ compact_json Outside t)
     \<and> (\<forall>t. compact_json (mode st) (compact_json (mode st) b @ t) = compact_json (mode st) b @ compact_json Outside t)"

lemma compacts_plain:
  assumes "compacts InString cs" "is_body InString cs" "c \<noteq> quote_char" "c \<noteq> backslash" "32 \<le> byte c"
    "\<not> (c = CHR 0xE2 \<and> separator_rest cs)" "html_escape c = None"
  shows "compacts InString (c # cs)"
proof -
  have step: "compact_json Inside (c # x) = c # compact_json Inside x" if "\<not> (c = CHR 0xE2 \<and> separator_rest x)" for x
    using assms(3,4,7) that by simp
  have b: "is_body InString (compact_json Inside cs)" using assms(1) by (simp add: compacts_def)
  have c: "compact_json Inside (c # cs @ t) = c # compact_json Inside (cs @ t)" for t
    using assms(6) by (intro step) (simp add: separator_rest_body [OF assms(2)])
  from c [of "[]"] have c0: "compact_json Inside (c # cs) = c # compact_json Inside cs" by simp
  have "compact_json Inside (c # compact_json Inside cs @ t) = c # compact_json Inside (compact_json Inside cs @ t)" for t
    using assms(6) by (intro step) (simp add: separator_rest_body [OF b] separator_rest_compact [OF assms(2)])
  then show ?thesis
    using assms(1,3-5) unfolding compacts_def mode.simps append_Cons c c0 by (simp add: is_body_simps)
qed

lemma compacts_escape:
  assumes "compacts InString r" "\<And>t. compact_json Inside (b @ t) = e @ compact_json Inside (r @ t)"
    "\<And>t. compact_json Inside (e @ t) = e @ compact_json Inside t" "\<And>t. is_body InString (e @ t) \<longleftrightarrow> is_body InString t"
  shows "compacts InString b"
proof -
  have "compact_json Inside b = e @ compact_json Inside r" using assms(2) [of "[]"] by simp
  then show ?thesis using assms(1) by (simp add: compacts_def assms(2-4))
qed

lemma body_compacts: "is_body st b \<Longrightarrow> compacts st b"
proof (induction "length b" arbitrary: st b rule: less_induct)
  case less
  obtain c cs where b: "b = c # cs" using less.prems by (cases b) (auto simp: is_body_simps)
  have IH: "is_body st' b' \<Longrightarrow> length b' < length b \<Longrightarrow> compacts st' b'" for st' b' using less.hyps by blast
  show ?case
  proof (cases st)
    case InEscape
    have "if simple_escape c \<noteq> None then is_body InString cs else c = CHR ''u'' \<and> is_body (InHex 3) cs"
      using less.prems unfolding b InEscape is_body_simps .
    note h = this
    show ?thesis
    proof (cases "simple_escape c = None")
      case False
      then have "compacts InString cs" using h by (intro IH) (simp_all add: b)
      then show ?thesis using False by (simp add: compacts_def InEscape b is_body_simps)
    next
      case True
      then have c: "c = CHR ''u''" "compacts (InHex 3) cs" using h by (simp, intro IH) (simp_all add: b)
      then show ?thesis using True by (simp add: compacts_def InEscape b is_body_simps)
    qed
  next
    case (InHex n)
    let ?st = "case n of 0 \<Rightarrow> InString | Suc m \<Rightarrow> InHex m"
    have h: "hex_val c \<noteq> None" "is_body ?st cs" using less.prems by (simp_all add: b InHex is_body_simps)
    then have "compacts ?st cs" by (intro IH) (simp_all add: b)
    moreover have "mode ?st = Inside" by (simp split: nat.split)
    moreover have "c \<noteq> quote_char" "c \<noteq> backslash" "c \<noteq> CHR 0xE2" "html_escape c = None"
      using h(1) by (auto simp: hex_val_def digit_val_def html_escape_def byte_def)
    ultimately show ?thesis using h(1) by (simp add: compacts_def InHex b is_body_simps)
  next
    case InString
    have body: "is_body InString (c # cs)" using less.prems by (simp add: b InString)
    consider (quote) "c = quote_char" | (bslash) "c = backslash" | (sep) "c = CHR 0xE2" "separator_rest cs"
      | (html) e where "html_escape c = Some e"
      | (plain) "c \<noteq> quote_char" "c \<noteq> backslash" "\<not> (c = CHR 0xE2 \<and> separator_rest cs)" "html_escape c = None"
      by blast
    then show ?thesis
    proof cases
      case quote
      then show ?thesis using body by (simp add: compacts_def b InString is_body_simps)
    next
      case bslash
      then have "is_body InEscape cs" using body by (simp add: is_body_simps)
      then have "compacts InEscape cs" by (intro IH) (simp_all add: b)
      then show ?thesis using bslash by (simp add: compacts_def InString b is_body_simps)
    next
      case sep
      obtain x r where x: "cs = CHR 0x80 # x # r" "x = CHR 0xA8 \<or> x = CHR 0xA9" using separator_rest_split [OF sep(2)] .
      have "is_body InString cs" using body sep(1) by (simp add: is_body_simps)
      then have "is_body InString r" unfolding x(1) using x(2) by (rule body_separator)
      then have r: "compacts InString r" by (intro IH) (simp_all add: b x)
      let ?e = "backslash # ''u202'' @ (if x = CHR 0xA8 then ''8'' else ''9'')"
      have "compact_json Inside (b @ t) = ?e @ compact_json Inside (r @ t)" for t
        using sep x separator_rest_body [OF \<open>is_body InString cs\<close>, of t] by (simp add: b)
      moreover have "compact_json Inside (?e @ t) = ?e @ compact_json Inside t" for t
        using compact_escapes(4,5) [of t] by (cases "x = CHR 0xA8") (simp_all only: append.simps simp_thms if_True if_False)
      moreover have "is_body InString (?e @ t) \<longleftrightarrow> is_body InString t" for t
        using body_escapes(4,5) [of t] by (cases "x = CHR 0xA8") (simp_all only: append.simps simp_thms if_True if_False)
      ultimately show ?thesis unfolding InString by (rule compacts_escape [OF r])
    next
      case (html e)
      then have c: "c \<noteq> quote_char" "c \<noteq> backslash" "c \<noteq> CHR 0xE2" by (auto simp: html_escape_def)
      then have "is_body InString cs" using body by (simp add: is_body_simps)
      then have r: "compacts InString cs" by (intro IH) (simp_all add: b)
      have e: "e = backslash # ''u003c'' \<or> e = backslash # ''u003e'' \<or> e = backslash # ''u0026''"
        using html by (auto simp: html_escape_def split: if_splits)
      have "compact_json Inside (b @ t) = e @ compact_json Inside (cs @ t)" for t using c html by (simp add: b)
      moreover have "compact_json Inside (e @ t) = e @ compact_json Inside t" for t
        using compact_escapes(1-3) [of t] e by (elim disjE) (simp_all only: append.simps)
      moreover have "is_body InString (e @ t) \<longleftrightarrow> is_body InString t" for t
        using body_escapes(1-3) [of t] e by (elim disjE) (simp_all only: append.simps)
      ultimately show ?thesis unfolding InString by (rule compacts_escape [OF r])
    next
      case plain
      then have cs: "is_body InString cs" "32 \<le> byte c" using body by (simp_all add: is_body_simps)
      then have "compacts InString cs" by (intro IH) (simp_all add: b)
      then show ?thesis unfolding b InString using plain cs by (intro compacts_plain)
    qed
  qed
qed

section \<open>Values\<close>

text \<open>A piece of text outside strings that is compacted on its own, to a piece that is compact.\<close>

definition splits :: "string \<Rightarrow> bool" where
  "splits p \<longleftrightarrow> (\<forall>t. compact_json Outside (p @ t) = compact_json Outside p @ compact_json Outside t)"

definition chunk :: "string \<Rightarrow> bool" where
  "chunk p \<longleftrightarrow> splits p \<and> splits (compact_json Outside p) \<and> compact_json Outside (compact_json Outside p) = compact_json Outside p"

lemma splits_append: "splits p \<Longrightarrow> splits q \<Longrightarrow> splits (p @ q)"
  by (simp add: splits_def)

lemma chunk_compact: "chunk p \<Longrightarrow> compact_json Outside (p @ t) = compact_json Outside p @ compact_json Outside t"
  by (simp add: chunk_def splits_def)

lemma chunk_append:
  assumes "chunk p" "chunk q"
  shows "chunk (p @ q)"
  using assms splits_append [of p q] splits_append [of "compact_json Outside p" "compact_json Outside q"]
  by (simp add: chunk_def) (simp add: splits_def)

lemma chunk_char: "c \<noteq> quote_char \<Longrightarrow> chunk [c]"
  by (cases "is_space c") (simp_all add: chunk_def splits_def)

lemma chunk_Cons: "c \<noteq> quote_char \<Longrightarrow> chunk p \<Longrightarrow> chunk (c # p)"
  using chunk_append [OF chunk_char, of c p] by simp

lemma chunk_Nil: "chunk []"
  by (simp add: chunk_def splits_def)

definition plain :: "char \<Rightarrow> bool" where
  "plain c \<longleftrightarrow> c \<noteq> quote_char \<and> \<not> is_space c"

lemma plain_text: "list_all plain p \<Longrightarrow> chunk p \<and> compact_json Outside p = p"
  by (induction p) (simp_all add: chunk_Nil chunk_Cons plain_def)

lemma spaces_text: "spaces w \<Longrightarrow> chunk w \<and> compact_json Outside w = []"
  by (induction w) (auto simp: chunk_Nil intro!: chunk_Cons)

lemma string_text_chunk:
  assumes "is_string body"
  shows "chunk (quote_char # body)" "compact_json Outside (quote_char # body) = quote_char # compact_json Inside body"
    "is_string (compact_json Inside body)"
proof -
  have "is_body InString body" using assms by (simp add: is_body_def is_string_def)
  from body_compacts [OF this] have c: "is_body InString (compact_json Inside body)"
    "compact_json Inside (body @ t) = compact_json Inside body @ compact_json Outside t"
    "compact_json Inside (compact_json Inside body @ t) = compact_json Inside body @ compact_json Outside t" for t
    by (simp_all add: compacts_def)
  show "compact_json Outside (quote_char # body) = quote_char # compact_json Inside body" by simp
  show "chunk (quote_char # body)" using c(2) c(3) c(3) [of "[]"] by (simp add: chunk_def splits_def)
  show "is_string (compact_json Inside body)" using c(1) by (simp add: is_body_def is_string_def)
qed

lemma digit_plain: "is_digit c \<Longrightarrow> plain c"
  using digit_not_space [of c] not_digit_chars [of c] by (simp add: plain_def)

lemma digits_plain: "list_all is_digit ds \<Longrightarrow> list_all plain ds"
  by (auto simp: list_all_iff digit_plain)

lemma plain_signs: "plain CHR ''-''" "plain CHR ''+''" "plain CHR ''.''" "plain CHR ''e''" "plain CHR ''E''"
  by (simp_all add: plain_def is_space_def byte_def)

lemma scan_digits_plain: "scan_digits s = Scanned ds rest \<Longrightarrow> list_all plain ds"
  using scan_digits_spec digits_plain by blast

lemma scan_frac_plain: "scan_frac s = Scanned f rest \<Longrightarrow> list_all plain f"
  by (auto simp: scan_frac_def scan_map_Scanned plain_signs dest: scan_digits_plain split: list.splits if_splits)

lemma scan_exp_plain: "scan_exp s = Scanned f rest \<Longrightarrow> list_all plain f"
  by (auto simp: scan_exp_def scan_map_Scanned plain_signs dest: scan_digits_plain split: list.splits if_splits)

lemma scan_unsigned_plain:
  assumes "scan_unsigned s = Scanned p rest"
  shows "list_all plain p"
proof -
  obtain i r1 f r2 e where parts: "scan_int s = Scanned i r1" "scan_frac r1 = Scanned f r2" "scan_exp r2 = Scanned e rest"
    "p = i @ f @ e"
    using assms by (auto simp: scan_unsigned_def scan_map_Scanned split: scanned.splits)
  have "list_all plain i" using scan_int_spec [OF parts(1)] digits_plain by blast
  then show ?thesis using scan_frac_plain [OF parts(2)] scan_exp_plain [OF parts(3)] by (simp add: parts(4))
qed

lemma number_plain: "is_number p \<Longrightarrow> list_all plain p"
  unfolding is_number_def
  by (auto simp: scan_number_def scan_map_Scanned plain_signs dest: scan_unsigned_plain split: list.splits if_splits)

lemma compact_Cons_char: "c \<noteq> quote_char \<Longrightarrow> \<not> is_space c \<Longrightarrow> compact_json Outside (c # t) = c # compact_json Outside t"
  by simp

lemma compact_text:
  "value_text d p v \<Longrightarrow> chunk p \<and> (\<exists>v'. value_text d (compact_json Outside p) v')"
  "elems_text d p vs \<Longrightarrow> chunk p \<and> (\<exists>vs'. elems_text d (compact_json Outside p) vs')"
  "members_text d p kvs \<Longrightarrow> chunk p \<and> (\<exists>kvs'. members_text d (compact_json Outside p) kvs')"
proof (induction rule: value_text_elems_text_members_text.inducts)
  case (null_text d)
  have "list_all plain ''null''" by (simp add: plain_def is_space_def byte_def)
  from plain_text [OF this] show ?case using value_text_elems_text_members_text.null_text [of d] by auto
next
  case (true_text d)
  have "list_all plain ''true''" by (simp add: plain_def is_space_def byte_def)
  from plain_text [OF this] show ?case using value_text_elems_text_members_text.true_text [of d] by auto
next
  case (false_text d)
  have "list_all plain ''false''" by (simp add: plain_def is_space_def byte_def)
  from plain_text [OF this] show ?case using value_text_elems_text_members_text.false_text [of d] by auto
next
  case (number_text p d)
  then show ?case using plain_text [OF number_plain] value_text_elems_text_members_text.number_text [of p d] by auto
next
  case (string_text body d)
  from string_text_chunk [OF this] value_text_elems_text_members_text.string_text [of _ d] show ?case by auto
next
  case (empty_array_text d w)
  have "compact_json Outside (w @ '']'') = '']''" using spaces_text [OF empty_array_text(2)] by (simp add: chunk_compact)
  moreover have "chunk (CHR ''['' # w @ '']'')"
    using spaces_text [OF empty_array_text(2)] by (simp add: chunk_Cons chunk_append chunk_char)
  moreover have "value_text d (CHR ''['' # [] @ '']'') (PArr (CHR ''['' # [] @ '']'') [])"
    using empty_array_text(1) by (intro value_text_elems_text_members_text.empty_array_text) simp_all
  ultimately show ?case by auto
next
  case (array_text d p vs)
  then obtain vs' where "elems_text (d - 1) (compact_json Outside p) vs'" "chunk p" by blast
  then show ?case
    using value_text_elems_text_members_text.array_text [OF array_text(1)] by (auto intro: chunk_Cons)
next
  case (empty_object_text d w)
  have "compact_json Outside (w @ ''}'') = ''}''" using spaces_text [OF empty_object_text(2)] by (simp add: chunk_compact)
  moreover have "chunk (CHR ''{'' # w @ ''}'')"
    using spaces_text [OF empty_object_text(2)] by (simp add: chunk_Cons chunk_append chunk_char)
  moreover have "value_text d (CHR ''{'' # [] @ ''}'') (PObj (CHR ''{'' # [] @ ''}'') [])"
    using empty_object_text(1) by (intro value_text_elems_text_members_text.empty_object_text) simp_all
  ultimately show ?case by auto
next
  case (object_text d p kvs)
  then obtain kvs' where "members_text (d - 1) (compact_json Outside p) kvs'" "chunk p" by blast
  then show ?case
    using value_text_elems_text_members_text.object_text [OF object_text(1)] by (auto intro: chunk_Cons)
next
  case (last_elem w d p v w')
  then obtain v' where v': "value_text d (compact_json Outside p) v'" "chunk p" by blast
  note W = spaces_text [OF last_elem(1)] and W' = spaces_text [OF last_elem(3)]
  have "chunk (w @ p @ w' @ '']'')" by (intro chunk_append chunk_char) (simp_all add: W W' v')
  moreover have "compact_json Outside (w @ p @ w' @ '']'') = [] @ compact_json Outside p @ [] @ '']''"
    using W W' v'(2) by (simp add: chunk_compact)
  moreover have "elems_text d ([] @ compact_json Outside p @ [] @ '']'') [v']"
    by (rule value_text_elems_text_members_text.last_elem) (simp_all add: v')
  ultimately show ?case by metis
next
  case (more_elems w d p v w' q vs)
  then obtain v' vs' where v': "value_text d (compact_json Outside p) v'" "chunk p" "elems_text d (compact_json Outside q) vs'" "chunk q" by blast
  note W = spaces_text [OF more_elems(1)] and W' = spaces_text [OF more_elems(3)]
  have "chunk (w @ p @ w' @ CHR '','' # q)" by (intro chunk_append chunk_Cons) (simp_all add: W W' v')
  moreover have "compact_json Outside (w @ p @ w' @ CHR '','' # q) = [] @ compact_json Outside p @ [] @ CHR '','' # compact_json Outside q"
    using W W' v'(2) by (simp add: chunk_compact)
  moreover have "elems_text d ([] @ compact_json Outside p @ [] @ CHR '','' # compact_json Outside q) (v' # vs')"
    by (rule value_text_elems_text_members_text.more_elems) (simp_all add: v')
  ultimately show ?case by metis
next
  case (last_member w body w1 w2 d p v w')
  then obtain v' where v': "value_text d (compact_json Outside p) v'" "chunk p" by blast
  note W = spaces_text [OF last_member(1)] spaces_text [OF last_member(3)] spaces_text [OF last_member(4)] spaces_text [OF last_member(6)]
  note B = string_text_chunk [OF last_member(2)]
  have pieces: "w @ quote_char # body @ w1 @ CHR '':'' # w2 @ p @ w' @ ''}'' = w @ (quote_char # body) @ w1 @ CHR '':'' # w2 @ p @ w' @ ''}''"
    by simp
  have "chunk (w @ (quote_char # body) @ w1 @ CHR '':'' # w2 @ p @ w' @ ''}'')"
    by (intro chunk_append B(1) chunk_Cons [of "CHR '':''"] chunk_char) (simp_all add: W v')
  moreover have "compact_json Outside (w @ (quote_char # body) @ w1 @ CHR '':'' # w2 @ p @ w' @ ''}'')
      = [] @ quote_char # compact_json Inside body @ [] @ CHR '':'' # [] @ compact_json Outside p @ [] @ ''}''"
    using W v'(2) chunk_compact [OF B(1)] B(2) by (simp add: chunk_compact del: append_Cons compact_json.simps(2)) (simp add: chunk_compact)
  moreover have "members_text d ([] @ quote_char # compact_json Inside body @ [] @ CHR '':'' # [] @ compact_json Outside p @ [] @ ''}'')
      [(unquote (butlast (compact_json Inside body)), v')]"
    by (rule value_text_elems_text_members_text.last_member) (simp_all add: v' B)
  ultimately show ?case unfolding pieces by metis
next
  case (more_members w body w1 w2 d p v w' q kvs)
  then obtain v' kvs' where v': "value_text d (compact_json Outside p) v'" "chunk p" "members_text d (compact_json Outside q) kvs'" "chunk q" by blast
  note W = spaces_text [OF more_members(1)] spaces_text [OF more_members(3)] spaces_text [OF more_members(4)] spaces_text [OF more_members(6)]
  note B = string_text_chunk [OF more_members(2)]
  have pieces: "w @ quote_char # body @ w1 @ CHR '':'' # w2 @ p @ w' @ CHR '','' # q = w @ (quote_char # body) @ w1 @ CHR '':'' # w2 @ p @ w' @ CHR '','' # q"
    by simp
  have "chunk (w @ (quote_char # body) @ w1 @ CHR '':'' # w2 @ p @ w' @ CHR '','' # q)"
    by (intro chunk_append B(1) chunk_Cons [of "CHR '':''"] chunk_Cons [of "CHR '',''"]) (simp_all add: W v')
  moreover have "compact_json Outside (w @ (quote_char # body) @ w1 @ CHR '':'' # w2 @ p @ w' @ CHR '','' # q)
      = [] @ quote_char # compact_json Inside body @ [] @ CHR '':'' # [] @ compact_json Outside p @ [] @ CHR '','' # compact_json Outside q"
    using W v'(2) chunk_compact [OF B(1)] B(2) by (simp add: chunk_compact del: append_Cons compact_json.simps(2)) (simp add: chunk_compact)
  moreover have "members_text d ([] @ quote_char # compact_json Inside body @ [] @ CHR '':'' # [] @ compact_json Outside p @ [] @ CHR '','' # compact_json Outside q)
      ((unquote (butlast (compact_json Inside body)), v') # kvs')"
    by (rule value_text_elems_text_members_text.more_members) (simp_all add: v' B)
  ultimately show ?case unfolding pieces by metis
qed

end
