(* ===== verification/FloatText.thy ===== *)
theory FloatText
  imports GoStrconv
begin

text \<open>
  The text \<open>encoding/json\<close> writes for a \<open>float64\<close>: the shortest decimal that is read back as the
  same float (\<open>strconv.AppendFloat\<close> with precision -1), in positional notation, or in scientific
  notation below \<open>1e-6\<close> and from \<open>1e21\<close> on. The decimals that round to a float lie between the
  middles to its neighbours, and on them when its mantissa is even; the shortest is found on the
  coarsest decimal grid that has a point there next to the float. Quarters of its last place make
  the middles integers.
\<close>

section \<open>The shortest decimal\<close>

definition quarters :: int where
  "quarters = 2 ^ 1076"

definition lower4 :: "int \<Rightarrow> int \<Rightarrow> int" where
  "lower4 m e = (if m = 2 ^ 52 \<and> 0 < e then 4 * m - 1 else 4 * m - 2) * 2 ^ nat e"

definition upper4 :: "int \<Rightarrow> int \<Rightarrow> int" where
  "upper4 m e = (4 * m + 2) * 2 ^ nat e"

text \<open>The grid of the multiples of \<open>10^j\<close>: the point at or below the float, and whether a point \<open>n\<close> rounds to it.\<close>

definition floor_at :: "int \<Rightarrow> int \<Rightarrow> int \<Rightarrow> int" where
  "floor_at m e j = (4 * m * 2 ^ nat e * 10 ^ nat (- j)) div (quarters * 10 ^ nat j)"

definition rounds_back :: "int \<Rightarrow> int \<Rightarrow> int \<Rightarrow> int \<Rightarrow> bool" where
  "rounds_back m e j n \<longleftrightarrow>
     (let a = n * (quarters * 10 ^ nat j); l = lower4 m e * 10 ^ nat (- j); u = upper4 m e * 10 ^ nat (- j)
      in (l < a \<or> even m \<and> l = a) \<and> (a < u \<or> even m \<and> a = u))"

function shortest_scale :: "int \<Rightarrow> int \<Rightarrow> int \<Rightarrow> int" where
  "shortest_scale m e j =
     (if j \<le> - 1080 \<or> rounds_back m e j (floor_at m e j) \<or> rounds_back m e j (floor_at m e j + 1) then j
      else shortest_scale m e (j - 1))"
  by pat_completeness auto
termination by (relation "measure (\<lambda>(m, e, j). nat (j + 1080))") auto

declare shortest_scale.simps [simp del]

text \<open>A power of ten above every decimal in question.\<close>

definition start_scale :: "int \<Rightarrow> int \<Rightarrow> int" where
  "start_scale m e = (nbits (upper4 m e) - 1076) * 30103 div 100000 + 2"

text \<open>Of two points the nearer one, the even one when both are as near.\<close>

definition shortest :: "int \<Rightarrow> int \<Rightarrow> int \<times> int" where
  "shortest m e =
     (let j = shortest_scale m e (start_scale m e); n = floor_at m e j;
          nearest = round_half_even (4 * m * 2 ^ nat e * 10 ^ nat (- j)) (quarters * 10 ^ nat j)
      in (if rounds_back m e j n \<and> rounds_back m e j (n + 1) then nearest
          else if rounds_back m e j n then n else n + 1, j))"

section \<open>It is read back\<close>

text \<open>A ratio half way between two integers is rounded to the even one.\<close>

lemma round_half_even_tie:
  assumes "0 < b" "\<bar>real_of_int a / real_of_int b - real_of_int k\<bar> \<le> 1 / 2"
    and "\<bar>real_of_int a / real_of_int b - real_of_int k\<bar> = 1 / 2 \<Longrightarrow> even k"
  shows "round_half_even a b = k"
proof (cases "\<bar>real_of_int a / real_of_int b - real_of_int k\<bar> = 1 / 2")
  case False
  then show ?thesis using round_half_even_unique [OF assms(1)] assms(2) by simp
next
  case True
  obtain q r where qr: "q = a div b" "r = a mod b" by blast
  have ev: "even k" using assms(3) True by blast
  have "2 * a = (2 * k + 1) * b \<or> 2 * a = (2 * k - 1) * b"
  proof -
    have "real_of_int a / real_of_int b - real_of_int k = 1 / 2 \<or> real_of_int a / real_of_int b - real_of_int k = - 1 / 2"
      using True by linarith
    then have "real_of_int (2 * a) = real_of_int ((2 * k + 1) * b) \<or> real_of_int (2 * a) = real_of_int ((2 * k - 1) * b)"
      using assms(1) by (auto simp: field_simps)
    then show ?thesis by (simp only: of_int_eq_iff)
  qed
  moreover have "a = b * q + r" by (simp add: qr)
  moreover have r: "0 \<le> r" "r < b" using assms(1) by (simp_all add: qr)
  ultimately consider "2 * (b * q + r) = (2 * k + 1) * b" | "2 * (b * q + r) = (2 * k - 1) * b" by metis
  then show ?thesis
  proof cases
    case 1
    then have eq: "b * (2 * k + 1 - 2 * q) = 2 * r" by (simp add: algebra_simps)
    have "0 \<le> b * (2 * k + 1 - 2 * q)" "b * (2 * k + 1 - 2 * q) < b * 2" using eq r by simp_all
    then have "0 \<le> 2 * k + 1 - 2 * q" "2 * k + 1 - 2 * q < 2"
      using assms(1) by (simp_all only: zero_le_mult_iff mult_less_cancel_left_pos) linarith
    then have q: "q = k" by presburger
    then have "2 * r = b" using eq by simp
    then show ?thesis using q ev by (simp add: round_half_even_def Let_def flip: qr)
  next
    case 2
    then have eq: "b * (2 * k - 1 - 2 * q) = 2 * r" by (simp add: algebra_simps)
    have "0 \<le> b * (2 * k - 1 - 2 * q)" "b * (2 * k - 1 - 2 * q) < b * 2" using eq r by simp_all
    then have "0 \<le> 2 * k - 1 - 2 * q" "2 * k - 1 - 2 * q < 2"
      using assms(1) by (simp_all only: zero_le_mult_iff mult_less_cancel_left_pos) linarith
    then have q: "q = k - 1" by presburger
    then have "2 * r = b" using eq by simp
    then show ?thesis using q ev by (simp add: round_half_even_def Let_def flip: qr)
  qed
qed

text \<open>The exponent is determined by the bounds.\<close>

lemma ulp_exp_unique:
  fixes x :: real
  assumes "0 \<le> t" "x / 2 powi t < 2 ^ 53" "t = 0 \<or> 2 ^ 52 \<le> x / 2 powi t"
    and "0 \<le> t'" "x / 2 powi t' < 2 ^ 53" "t' = 0 \<or> 2 ^ 52 \<le> x / 2 powi t'"
  shows "t = t'"
proof -
  have *: "\<not> t < t'" if "x / 2 powi t < 2 ^ 53" "t' = 0 \<or> 2 ^ 52 \<le> x / 2 powi t'" "0 \<le> t" for t t' :: int
  proof
    assume lt: "t < t'"
    then have "2 ^ 52 \<le> x / 2 powi t'" using that by auto
    then have "2 ^ 52 * 2 powi t' \<le> x" by (simp add: field_simps)
    moreover have "(2::real) powi (t + 1) \<le> 2 powi t'" using lt by (intro power_int_increasing) auto
    then have "2 ^ 52 * (2 powi t * 2) \<le> 2 ^ 52 * (2::real) powi t'" by (simp add: power_int_add)
    moreover have "x < 2 ^ 53 * 2 powi t" using that(1) by (simp add: field_simps)
    ultimately show False by simp
  qed
  show ?thesis using * [of t t'] * [of t' t] assms by linarith
qed

text \<open>Every ratio between the middles to the neighbours of a float rounds to it.\<close>

text \<open>The mantissa the quotient is nearest to at the right exponent is that of the result.\<close>

lemma f64_round_at:
  assumes "0 < p" "0 < q" "f64_ulp_exp p q 1074 = t"
    and "\<bar>units_of p q 1074 / 2 powi t - real_of_int k\<bar> \<le> 1 / 2"
    and "\<bar>units_of p q 1074 / 2 powi t - real_of_int k\<bar> = 1 / 2 \<Longrightarrow> even k"
  shows "f64_round s p q 1074 = f64_pack s k t"
proof -
  have "f64_mant p q 1074 = k"
    unfolding f64_mant_def Let_def assms(3)
    using assms(4,5) units_of_scale [OF assms(2), of p 1074 t] assms(2)
    by (intro round_half_even_tie) simp_all
  then show ?thesis using assms(1,3) by (simp add: f64_round_mant)
qed

text \<open>Below a power of two the grid is twice as fine, and what is above its last middle is rounded up to the power.\<close>

lemma f64_round_power:
  assumes "0 < p" "0 < q" "0 < e" "e \<le> 2045"
    and "2 ^ 52 - 1 / 4 \<le> units_of p q 1074 / 2 powi e" "units_of p q 1074 / 2 powi e < 2 ^ 52"
  shows "f64_round s p q 1074 = FFin s (2 ^ 52) e"
proof -
  let ?y = "units_of p q 1074 / 2 powi e" and ?z = "units_of p q 1074 / 2 powi (e - 1)"
  have gen: "2 ^ 52 - 1 / 4 \<le> y \<Longrightarrow> y < 2 ^ 52 \<Longrightarrow> 2 ^ 53 - 1 / 2 \<le> 2 * y \<and> 2 * y < 2 ^ 53" for y :: real
    by simp
  have half: "?z = 2 * ?y" by (simp add: power_int_diff)
  have b: "2 ^ 53 - 1 / 2 \<le> ?z" "?z < 2 ^ 53" using gen [OF assms(5,6)] unfolding half by blast+
  have near: "2 ^ 53 - 1 / 2 \<le> y \<Longrightarrow> y < 2 ^ 53 \<Longrightarrow> 2 ^ 52 \<le> y \<and> \<bar>y - real_of_int (2 ^ 53)\<bar> \<le> 1 / 2" for y :: real
    by simp
  have "2 ^ 52 \<le> ?z" using near [OF b] by blast
  then have te: "f64_ulp_exp p q 1074 = e - 1"
    using ulp_exp_unique [OF f64_ulp_exp_bounds [OF assms(1,2)] _ b(2)] assms(3) by simp
  have "f64_round s p q 1074 = f64_pack s (2 ^ 53) (e - 1)"
    by (rule f64_round_at [OF assms(1,2) te]) (use near [OF b] in simp_all)
  then show ?thesis using assms(3,4) by (simp add: f64_pack_def)
qed

lemma f64_round_between:
  fixes p q m e :: int
  assumes "0 < p" "0 < q" "0 < m" "f64_ok (FFin s m e)"
    and lo: "real_of_int (lower4 m e) \<le> 4 * units_of p q 1074" and hi: "4 * units_of p q 1074 \<le> real_of_int (upper4 m e)"
    and tie: "odd m \<Longrightarrow> real_of_int (lower4 m e) < 4 * units_of p q 1074 \<and> 4 * units_of p q 1074 < real_of_int (upper4 m e)"
  shows "f64_round s p q 1074 = FFin s m e"
proof -
  let ?y = "units_of p q 1074 / 2 powi e"
  have ok: "m < 2 ^ 53" "0 \<le> e" "e \<le> 2045" "e = 0 \<or> 2 ^ 52 \<le> m"
    using assms(4) by (auto simp: f64_ok_def)
  have pe: "(2::real) powi e = 2 ^ nat e" using ok(2) by (rule powi2_nat)
  have pos: "0 < (2::real) ^ nat e" by simp
  have hi': "?y \<le> real_of_int m + 1 / 2" using hi pos by (simp add: upper4_def pe field_simps)
  show ?thesis
  proof (cases "m = 2 ^ 52 \<and> 0 < e \<and> ?y < 2 ^ 52")
    case True
    then have "2 ^ 52 - 1 / 4 \<le> ?y" using lo pos by (simp add: lower4_def pe field_simps)
    then show ?thesis using f64_round_power [OF assms(1,2) _ ok(3)] True by blast
  next
    case False
    have lo': "real_of_int m - 1 / 2 \<le> ?y"
    proof (cases "m = 2 ^ 52 \<and> 0 < e")
      case True
      then have "real_of_int m = 2 ^ 52" "2 ^ 52 \<le> ?y" using False by simp_all
      then show ?thesis by linarith
    next
      case False
      then show ?thesis using lo pos by (simp only: lower4_def pe if_False) (simp add: field_simps)
    qed
    have m: "e = 0 \<or> m = 2 ^ 52 \<or> real_of_int (2 ^ 52 + 1) \<le> real_of_int m" "real_of_int m \<le> real_of_int (2 ^ 53 - 1)"
      unfolding of_int_le_iff using ok(1,4) by auto
    have y: "e = 0 \<or> 2 ^ 52 \<le> ?y" "?y < 2 ^ 53" using m lo' hi' False ok(2) by auto
    have te: "f64_ulp_exp p q 1074 = e"
      using ulp_exp_unique [OF f64_ulp_exp_bounds [OF assms(1,2)] ok(2) y(2,1)] .
    have "f64_round s p q 1074 = f64_pack s m e"
    proof (rule f64_round_at [OF assms(1,2) te])
      show "\<bar>?y - real_of_int m\<bar> \<le> 1 / 2" using lo' hi' by linarith
      show "even m" if "\<bar>?y - real_of_int m\<bar> = 1 / 2"
      proof (rule ccontr)
        assume odd: "odd m"
        then have "m \<noteq> 2 ^ 52" by auto
        then have "real_of_int m - 1 / 2 < ?y" "?y < real_of_int m + 1 / 2"
          using tie [OF odd] pos by (simp_all add: lower4_def upper4_def pe field_simps)
        then show False using that by linarith
      qed
    qed
    then show ?thesis using ok by (simp add: f64_pack_def)
  qed
qed

lemma quarters_pos [simp]: "0 < quarters"
  unfolding quarters_def by (rule zero_less_power) simp

lemma rounds_back_pos: "0 < m \<Longrightarrow> rounds_back m e j n \<Longrightarrow> 0 < n"
proof (rule ccontr)
  assume m: "0 < m" and r: "rounds_back m e j n" and n: "\<not> 0 < n"

  have "0 < lower4 m e * 10 ^ nat (- j)" using m by (auto simp: lower4_def)
  moreover have "lower4 m e * 10 ^ nat (- j) \<le> n * (quarters * 10 ^ nat j)"
    using r by (auto simp: rounds_back_def Let_def)
  moreover have "n * (quarters * 10 ^ nat j) \<le> 0" using n by (intro mult_nonpos_nonneg) (auto simp: less_imp_le)
  ultimately show False by linarith
qed

lemma rounds_back_round:
  assumes "0 < m" "f64_ok (FFin s m e)" "rounds_back m e j n"
  shows "f64_round s (n * 10 ^ nat j) (10 ^ nat (- j)) 1074 = FFin s m e"
proof (rule f64_round_between)
  define Q where "Q = real_of_int (10 ^ nat (- j))"
  define A where "A = real_of_int (n * (quarters * 10 ^ nat j))"
  have Q: "0 < Q" by (simp add: Q_def)
  have "(2::int) ^ 1076 = 2 ^ 2 * 2 ^ 1074" unfolding power_add [symmetric] by simp
  then have "(4::real) * 2 ^ 1074 = real_of_int quarters" unfolding quarters_def by (simp only: of_int_mult of_int_power of_int_numeral) simp
  moreover have "4 * units_of (n * 10 ^ nat j) (10 ^ nat (- j)) 1074 = real_of_int n * 10 ^ nat j * (4 * 2 ^ 1074) / Q"
    by (simp add: units_of_def Q_def)
  ultimately have u: "4 * units_of (n * 10 ^ nat j) (10 ^ nat (- j)) 1074 = A / Q"
    unfolding A_def by (simp only: of_int_mult of_int_power of_int_numeral ac_simps)
  have R: "(lower4 m e * 10 ^ nat (- j) < n * (quarters * 10 ^ nat j) \<or> even m \<and> lower4 m e * 10 ^ nat (- j) = n * (quarters * 10 ^ nat j))
    \<and> (n * (quarters * 10 ^ nat j) < upper4 m e * 10 ^ nat (- j) \<or> even m \<and> n * (quarters * 10 ^ nat j) = upper4 m e * 10 ^ nat (- j))"
    using assms(3) unfolding rounds_back_def Let_def .
  have le: "a * 10 ^ nat (- j) \<le> n * (quarters * 10 ^ nat j) \<longleftrightarrow> real_of_int a \<le> A / Q"
    "a * 10 ^ nat (- j) < n * (quarters * 10 ^ nat j) \<longleftrightarrow> real_of_int a < A / Q"
    "n * (quarters * 10 ^ nat j) \<le> a * 10 ^ nat (- j) \<longleftrightarrow> A / Q \<le> real_of_int a"
    "n * (quarters * 10 ^ nat j) < a * 10 ^ nat (- j) \<longleftrightarrow> A / Q < real_of_int a" for a
    unfolding pos_le_divide_eq [OF Q] pos_less_divide_eq [OF Q] pos_divide_le_eq [OF Q] pos_divide_less_eq [OF Q]
    unfolding A_def Q_def of_int_mult [symmetric] of_int_le_iff of_int_less_iff by simp_all
  show "real_of_int (lower4 m e) \<le> 4 * units_of (n * 10 ^ nat j) (10 ^ nat (- j)) 1074"
    unfolding u le(1) [symmetric] using R by auto
  show "4 * units_of (n * 10 ^ nat j) (10 ^ nat (- j)) 1074 \<le> real_of_int (upper4 m e)"
    unfolding u le(3) [symmetric] using R by auto
  show "real_of_int (lower4 m e) < 4 * units_of (n * 10 ^ nat j) (10 ^ nat (- j)) 1074
      \<and> 4 * units_of (n * 10 ^ nat j) (10 ^ nat (- j)) 1074 < real_of_int (upper4 m e)" if "odd m"
    unfolding u le(2,4) [symmetric] using R that by auto
  show "0 < n * 10 ^ nat j" using rounds_back_pos [OF assms(1,3)] by simp
qed (use assms in auto)

text \<open>On the finest grid the float itself is a point.\<close>

lemma rounds_back_exact:
  assumes "0 < m" "j \<le> - 1080"
  shows "rounds_back m e j (floor_at m e j)"
proof -
  define k where "k = nat (- j)"
  have k: "1080 \<le> k" "nat j = 0" using assms(2) by (simp_all add: k_def)
  have q: "0 < quarters" "quarters \<noteq> 0" using quarters_pos by linarith+
  define v where "v = 4 * m * 2 ^ nat e * 10 ^ k"
  have "(10::int) ^ k = 2 ^ k * 5 ^ k" by (simp flip: power_mult_distrib)
  moreover have "(2::int) ^ k = 2 ^ 1076 * 2 ^ (k - 1076)" 
  proof -
    have "k = 1076 + (k - 1076)" using k(1) by simp
    then show ?thesis by (metis power_add)
  qed
  ultimately have "quarters dvd v" unfolding v_def quarters_def by (metis dvd_mult dvd_mult2 dvd_triv_left)
  then have a: "floor_at m e j * (quarters * 10 ^ nat j) = v"
    unfolding floor_at_def k_def [symmetric] v_def [symmetric] k(2) by simp
  have "lower4 m e < 4 * m * 2 ^ nat e" "4 * m * 2 ^ nat e < upper4 m e"
    by (auto simp: lower4_def upper4_def algebra_simps)
  then have "lower4 m e * 10 ^ k < v" "v < upper4 m e * 10 ^ k"
    unfolding v_def by (intro mult_strict_right_mono; simp)+
  then show ?thesis unfolding rounds_back_def Let_def a k_def [symmetric] by simp
qed

lemma shortest_scale_rounds:
  assumes "0 < m"
  shows "rounds_back m e (shortest_scale m e j) (floor_at m e (shortest_scale m e j))
    \<or> rounds_back m e (shortest_scale m e j) (floor_at m e (shortest_scale m e j) + 1)"
  using assms
proof (induction m e j rule: shortest_scale.induct)
  case (1 m e j)
  note m = 1(2)
  show ?case
  proof (cases "j \<le> - 1080 \<or> rounds_back m e j (floor_at m e j) \<or> rounds_back m e j (floor_at m e j + 1)")
    case False
    then have "shortest_scale m e j = shortest_scale m e (j - 1)" by (subst shortest_scale.simps) simp
    then show ?thesis using 1(1) [OF False m] by simp
  next
    case True
    then have "shortest_scale m e j = j" by (subst shortest_scale.simps) simp
    then show ?thesis using True rounds_back_exact [OF m, of j e] by auto
  qed
qed

lemma shortest_rounds:
  assumes "0 < m" "shortest m e = (n, j)"
  shows "rounds_back m e j n"
proof -
  have j: "j = shortest_scale m e (start_scale m e)" using assms(2) by (simp add: shortest_def Let_def)
  let ?a = "4 * m * 2 ^ nat e * 10 ^ nat (- j)" and ?b = "quarters * 10 ^ nat j"
  have "round_half_even ?a ?b = floor_at m e j \<or> round_half_even ?a ?b = floor_at m e j + 1"
    unfolding floor_at_def by (simp add: round_half_even_def Let_def)
  moreover have "rounds_back m e j (floor_at m e j) \<or> rounds_back m e j (floor_at m e j + 1)"
    unfolding j by (rule shortest_scale_rounds [OF assms(1)])
  ultimately show ?thesis
    using assms(2) unfolding shortest_def Let_def j [symmetric] by (auto split: if_splits)
qed

section \<open>The text\<close>

text \<open>\<open>k\<close> digits of a number, with leading zeros.\<close>

fun padded :: "nat \<Rightarrow> int \<Rightarrow> string" where
  "padded 0 n = []"
| "padded (Suc k) n = padded k (n div 10) @ [digit_char (n mod 10)]"

definition fixed_text :: "int \<Rightarrow> int \<Rightarrow> string" where
  "fixed_text n j =
     (if 0 \<le> j then dec_digits (n * 10 ^ nat j)
      else dec_digits (n div 10 ^ nat (- j)) @ ''.'' @ padded (nat (- j)) (n mod 10 ^ nat (- j)))"

definition sci_text :: "int \<Rightarrow> int \<Rightarrow> string" where
  "sci_text n j =
     (let ds = dec_digits n; x = j + int (length ds) - 1
      in hd ds # (if tl ds = [] then [] else CHR ''.'' # tl ds)
         @ (if x < 0 then ''e-'' else ''e+'') @ dec_digits \<bar>x\<bar>)"

text \<open>
  The bounds of the positional notation are those of the float, compared exactly: \<open>1e-6\<close> is the
  float nearest to it.
\<close>

definition scientific :: "int \<Rightarrow> int \<Rightarrow> bool" where
  "scientific m e \<longleftrightarrow>
     m * 2 ^ nat e < f64_units (f64_round False 1 (10 ^ 6) 1074) \<or> 10 ^ 21 * 2 ^ 1074 \<le> m * 2 ^ nat e"

definition float_text :: "float64 \<Rightarrow> string" where
  "float_text x =
     (case x of
        FNaN \<Rightarrow> ''NaN'' | FInf s \<Rightarrow> (if s then ''-Inf'' else ''+Inf'')
      | FFin s m e \<Rightarrow>
          (if s then ''-'' else [])
          @ (if m = 0 then ''0''
             else case shortest m e of (n, j) \<Rightarrow> if scientific m e then sci_text n j else fixed_text n j))"

section \<open>Reading decimal texts\<close>

lemma digits_from_digits: "digits_from n cs = Some m \<Longrightarrow> c \<in> set cs \<Longrightarrow> digit_val c \<noteq> None"
  by (induction n cs rule: digits_from.induct) (auto split: option.splits)

lemma digit_val_byte: "digit_val c = Some d \<Longrightarrow> byte c = 48 + d \<and> 0 \<le> d \<and> d < 10"
  by (auto simp: digit_val_def split: if_splits)

lemma digits_from_padded: "0 \<le> n \<Longrightarrow> n < 10 ^ k \<Longrightarrow> digits_from a (padded k n) = Some (a * 10 ^ k + n)"
proof (induction k arbitrary: n)
  case (Suc k)
  then have n: "0 \<le> n div 10" "n div 10 < 10 ^ k" by auto
  have "10 * (a * 10 ^ k + n div 10) + n mod 10 = a * 10 ^ Suc k + n" by (simp add: distrib_left)
  then show ?case using Suc.IH [OF n] by (simp add: digits_from_append)
qed simp

lemma length_padded [simp]: "length (padded k n) = k"
  by (induction k arbitrary: n) simp_all

lemma read_exp_digits:
  "digits_from e cs = Some m \<Longrightarrow> 0 \<le> e \<Longrightarrow> m < 10000 \<Longrightarrow> read_exp e cs = (m, [])"
proof (induction e cs rule: digits_from.induct)
  case (2 e c cs)
  then obtain d where d: "digit_val c = Some d" "digits_from (10 * e + d) cs = Some m"
    by (auto split: option.splits)
  have b: "byte c = 48 + d" "0 \<le> d" using digit_val_byte [OF d(1)] by simp_all
  have pos: "0 \<le> 10 * e + d" using b "2.prems"(2) by simp
  have "10 * e + d \<le> m" by (rule digits_from_mono [OF pos d(2)])
  then have "e < 10000" using "2.prems" b by simp
  moreover have "c \<noteq> CHR ''_''" using d(1) by (auto simp: digit_val_def byte_def split: if_splits)
  moreover have "read_exp (10 * e + d) cs = (m, [])" by (rule "2.IH" [OF d pos "2.prems"(3)])
  ultimately show ?case using d(1) by (simp add: mult.commute)
qed simp

text \<open>The texts written: digits, a point and digits, an exponent.\<close>

definition exp_text :: "int option \<Rightarrow> string" where
  "exp_text x = (case x of None \<Rightarrow> [] | Some k \<Rightarrow> (if k < 0 then ''e-'' else ''e+'') @ dec_digits \<bar>k\<bar>)"

definition point_text :: "string \<Rightarrow> string \<Rightarrow> string" where
  "point_text ds fs = ds @ (if fs = [] then [] else CHR ''.'' # fs)"

definition exp_value :: "int option \<Rightarrow> int" where
  "exp_value x = (case x of None \<Rightarrow> 0 | Some k \<Rightarrow> k)"

definition sign_text :: "bool \<Rightarrow> string" where
  "sign_text s = (if s then ''-'' else [])"

definition num_char :: "char \<Rightarrow> bool" where
  "num_char c \<longleftrightarrow> digit_val c \<noteq> None \<or> c = CHR ''-'' \<or> c = CHR ''+'' \<or> c = CHR ''.'' \<or> c = CHR ''e''"

lemma num_chars_dec: "0 \<le> n \<Longrightarrow> list_all (\<lambda>c. digit_val c \<noteq> None) (dec_digits n)"
  using digits_from_digits [OF digits_from_dec_digits] by (auto simp: list_all_iff)

lemma digit_num_char: "list_all (\<lambda>c. digit_val c \<noteq> None) cs \<Longrightarrow> list_all num_char cs"
  by (auto simp: list_all_iff num_char_def)

lemma num_chars_exp: "list_all num_char (exp_text x)"
proof (cases x)
  case (Some k)
  have "list_all num_char (dec_digits \<bar>k\<bar>)" by (intro digit_num_char num_chars_dec) simp
  moreover have "num_char CHR ''e''" "num_char CHR ''-''" "num_char CHR ''+''" by (simp_all add: num_char_def)
  ultimately show ?thesis by (simp add: Some exp_text_def)
qed (simp add: exp_text_def)

lemma num_chars_text:
  assumes "digits_from 0 (ds @ fs) = Some n"
  shows "list_all num_char (sign_text s @ point_text ds fs @ exp_text x)"
proof -
  have "list_all num_char (ds @ fs)"
    using digits_from_digits [OF assms] by (intro digit_num_char) (auto simp: list_all_iff)
  then show ?thesis using num_chars_exp by (simp add: sign_text_def point_text_def num_char_def)
qed

lemma num_char_cases: "num_char c \<Longrightarrow> c \<noteq> CHR ''_'' \<and> c \<noteq> CHR ''x'' \<and> c \<noteq> CHR ''X''"
  by (auto simp: num_char_def digit_val_def byte_def split: if_splits)

lemma digit_val_not: "digit_val c = Some d \<Longrightarrow> c \<notin> {CHR ''-'', CHR ''+'', CHR ''.'', CHR ''e'', CHR ''E'', CHR ''_''}"
  by (auto simp: digit_val_def byte_def split: if_splits)

lemma read_mant_text:
  assumes "digits_from 0 (ds @ fs) = Some n" "ds \<noteq> []" "rest = [] \<or> hd rest = CHR ''e''"
  shows "read_mant False \<lparr>ms_sawdot = False, ms_sawdigits = False, ms_mant = 0, ms_frac = 0\<rparr> (point_text ds fs @ rest) =
    (\<lparr>ms_sawdot = (fs \<noteq> []), ms_sawdigits = True, ms_mant = n, ms_frac = int (length fs)\<rparr>, rest)"
proof -
  obtain k where k: "digits_from 0 ds = Some k" "digits_from k fs = Some n"
    using assms(1) by (auto simp: digits_from_append split: option.splits)
  have stop: "read_mant False st rest = (st, rest)" for st
    using assms(3) by (cases rest) (auto simp: digit_val_def byte_def)
  show ?thesis
  proof (cases "fs = []")
    case True
    then show ?thesis
      using read_mant_digits [OF k(1) assms(2), where rest = rest] k stop by (simp add: point_text_def)
  next
    case False
    then show ?thesis
      using read_mant_digits [OF k(1) assms(2), where rest = "CHR ''.'' # fs @ rest"]
        read_mant_digits [OF k(2) False, where rest = rest] stop
      by (simp add: point_text_def)
  qed
qed

lemma exp_text_read:
  assumes "\<bar>exp_value x\<bar> < 10000"
  shows "(case exp_text x of [] \<Rightarrow> Some 0 | c # cs \<Rightarrow>
      (let (eneg, ds) = strip_sign cs
       in if ds = [] \<or> digit_val (hd ds) = None then None
          else let (e, rest') = read_exp 0 ds in if rest' \<noteq> [] then None else Some (if eneg then - e else e)))
    = Some (exp_value x) \<and> (exp_text x = [] \<or> (\<exists>cs. exp_text x = CHR ''e'' # cs))"
proof (cases x)
  case (Some k)
  then have "read_exp 0 (dec_digits \<bar>k\<bar>) = (\<bar>k\<bar>, [])"
    using assms by (intro read_exp_digits digits_from_dec_digits) (simp_all add: exp_value_def)
  moreover have "digit_val (hd (dec_digits \<bar>k\<bar>)) \<noteq> None" using num_chars_dec [of "\<bar>k\<bar>"] by (simp add: list_all_iff)
  ultimately show ?thesis by (cases "k < 0") (simp_all add: Some exp_text_def exp_value_def strip_sign_def)
qed (simp add: exp_text_def exp_value_def)

lemma read_float_text:
  assumes "digits_from 0 (ds @ fs) = Some n" "ds \<noteq> []" "\<bar>exp_value x\<bar> < 10000"
  shows "read_float (sign_text s @ point_text ds fs @ exp_text x) =
    Some \<lparr>fl_neg = s, fl_hex = False, fl_mant = n, fl_exp = exp_value x - int (length fs)\<rparr>"
proof -
  let ?body = "point_text ds fs @ exp_text x"
  have chars: "list_all num_char (sign_text s @ ?body)" by (rule num_chars_text [OF assms(1)])
  then have no_us: "CHR ''_'' \<notin> set (sign_text s @ ?body)"
    using num_char_cases by (auto simp: list_all_iff simp del: set_append)
  obtain c cs where c: "ds = c # cs" using assms(2) by (cases ds) auto
  then obtain d where d: "digit_val c = Some d"
    using digits_from_digits [OF assms(1), of c] by auto
  have hd: "?body \<noteq> []" "hd ?body = c" using c by (simp_all add: point_text_def)
  have sign: "strip_sign (sign_text s @ ?body) = (s, ?body)"
    using hd digit_val_not [OF d] by (auto simp: strip_sign_def sign_text_def)
  have "\<not> hex_prefix ?body"
  proof
    assume h: "hex_prefix ?body"
    then have "?body ! 1 \<in> set ?body" unfolding hex_prefix_def by (intro nth_mem) simp
    then have "num_char (?body ! 1)" using chars by (simp add: list_all_iff)
    with h show False using num_char_cases unfolding hex_prefix_def by blast
  qed
  moreover have rest: "exp_text x = [] \<or> hd (exp_text x) = CHR ''e''"
    by (auto simp: exp_text_def split: option.splits)
  moreover note read_mant_text [OF assms(1,2) rest]
  moreover have "(case exp_text x of [] \<Rightarrow> Some 0 | c # cs \<Rightarrow>
      (let (eneg, ds) = strip_sign cs
       in if ds = [] \<or> digit_val (hd ds) = None then None
          else let (e, rest') = read_exp 0 ds in if rest' \<noteq> [] then None else Some (if eneg then - e else e)))
    = Some (exp_value x)" "exp_text x = [] \<or> (\<exists>cs. exp_text x = CHR ''e'' # cs)"
    using exp_text_read [OF assms(3)] by blast+
  ultimately show ?thesis
    using no_us sign by (auto simp: read_float_def Let_def split: prod.splits if_splits)
qed

lemma special_float_text:
  assumes "digits_from 0 (ds @ fs) = Some n" "ds \<noteq> []"
  shows "special_float (sign_text s @ point_text ds fs @ exp_text x) = None"
proof -
  obtain c cs where c: "ds = c # cs" using assms(2) by (cases ds) auto
  then obtain d where d: "digit_val c = Some d"
    using digits_from_digits [OF assms(1), of c] by auto
  have b: "byte c = 48 + d" "0 \<le> d" "d < 10" using digit_val_byte [OF d] by simp_all
  have f: "fold_ascii (byte c) = byte c" using b by (simp add: fold_ascii_def)
  have sign: "strip_sign (sign_text s @ point_text ds fs @ exp_text x) = (s, point_text ds fs @ exp_text x)"
    using c digit_val_not [OF d] by (auto simp: strip_sign_def sign_text_def point_text_def)
  have "byte CHR ''i'' = 105" "byte CHR ''n'' = 110" by (simp_all add: byte_def)
  then show ?thesis
    using b f unfolding special_float_def sign
    by (auto simp: c point_text_def sign_text_def fold_ascii_def byte_def)
qed

section \<open>How long the text gets\<close>

lemma length_dec_digits: "0 \<le> n \<Longrightarrow> n < 10 ^ Suc k \<Longrightarrow> length (dec_digits n) \<le> Suc k"
proof (induction k arbitrary: n)
  case 0
  then show ?case by (subst dec_digits.simps) simp
next
  case (Suc k)
  show ?case
  proof (cases "n < 10")
    case True
    then show ?thesis by (subst dec_digits.simps) simp
  next
    case False
    have "0 \<le> n div 10" "n div 10 < 10 ^ Suc k" using Suc.prems by auto
    then show ?thesis using Suc.IH [of "n div 10"] False by (subst dec_digits.simps) simp
  qed
qed

lemma nbits_le: "0 < n \<Longrightarrow> n < 2 ^ k \<Longrightarrow> nbits n \<le> int k"
proof -
  assume n: "0 < n" "n < 2 ^ k"
  then have "(2::int) ^ nat (nbits n - 1) < 2 ^ k" using nbits_bounds [OF n(1)] by linarith
  then have "nat (nbits n - 1) < k" by simp
  then show ?thesis by simp
qed

lemma upper4_bounds:
  assumes "0 < m" "f64_ok (FFin s m e)"
  shows "0 < upper4 m e" "upper4 m e < 2 ^ 2101"
proof -
  have ok: "m < 2 ^ 53" "0 \<le> e" "e \<le> 2045" using assms(2) by (auto simp: f64_ok_def)
  have "(4 * m + 2) * 2 ^ nat e < 2 ^ 56 * (2 ^ nat e :: int)" using ok by (intro mult_strict_right_mono) auto
  also have "\<dots> \<le> 2 ^ 56 * 2 ^ 2045" using ok by (intro mult_left_mono power_increasing) auto
  finally show "upper4 m e < 2 ^ 2101" by (simp only: upper4_def power_add [symmetric]) simp
  show "0 < upper4 m e" using assms(1) by (simp add: upper4_def)
qed

lemma start_scale_bounds:
  assumes "0 < m" "f64_ok (FFin s m e)"
  shows "- 1080 \<le> start_scale m e" "start_scale m e \<le> 400"
proof -
  have "nbits (upper4 m e) \<le> 2101" using nbits_le [OF upper4_bounds [OF assms]] by simp
  moreover have "0 \<le> nbits (upper4 m e)" by simp
  ultimately have "(- 1076) * 30103 \<le> (nbits (upper4 m e) - 1076) * 30103" "(nbits (upper4 m e) - 1076) * 30103 \<le> 1025 * 30103"
    by (intro mult_right_mono; simp)+
  then have "(- 1076) * 30103 div 100000 \<le> (nbits (upper4 m e) - 1076) * 30103 div 100000"
    "(nbits (upper4 m e) - 1076) * 30103 div 100000 \<le> 1025 * 30103 div 100000"
    by (intro zdiv_mono1; simp)+
  then show "- 1080 \<le> start_scale m e" "start_scale m e \<le> 400" unfolding start_scale_def by simp_all
qed

lemma shortest_scale_bounds: "- 1080 \<le> j \<Longrightarrow> - 1080 \<le> shortest_scale m e j \<and> shortest_scale m e j \<le> j"
proof (induction m e j rule: shortest_scale.induct)
  case (1 m e j)
  show ?case
  proof (cases "j \<le> - 1080 \<or> rounds_back m e j (floor_at m e j) \<or> rounds_back m e j (floor_at m e j + 1)")
    case True
    then have "shortest_scale m e j = j" by (subst shortest_scale.simps) simp
    then show ?thesis using "1.prems" by simp
  next
    case False
    then have "shortest_scale m e j = shortest_scale m e (j - 1)" by (subst shortest_scale.simps) simp
    then show ?thesis using "1.IH" [OF False] False by simp
  qed
qed

lemma shortest_bounds:
  assumes "0 < m" "f64_ok (FFin s m e)" "shortest m e = (n, j)"
  shows "0 < n" "- 1080 \<le> j" "j \<le> 400" "length (dec_digits n) \<le> 1800"
proof -
  have r: "rounds_back m e j n" by (rule shortest_rounds [OF assms(1,3)])
  show n: "0 < n" by (rule rounds_back_pos [OF assms(1) r])
  have "j = shortest_scale m e (start_scale m e)" using assms(3) by (simp add: shortest_def Let_def)
  then show j: "- 1080 \<le> j" "j \<le> 400"
    using shortest_scale_bounds [OF start_scale_bounds(1) [OF assms(1,2)]] start_scale_bounds(2) [OF assms(1,2)]
    by (metis, metis order_trans)
  have "0 < quarters * 10 ^ nat j" using quarters_pos by simp
  then have "1 \<le> quarters * 10 ^ nat j" by linarith
  then have "n * 1 \<le> n * (quarters * 10 ^ nat j)" using n by (intro mult_left_mono) simp_all
  also have "\<dots> \<le> upper4 m e * 10 ^ nat (- j)" using r by (auto simp: rounds_back_def Let_def)
  also have "\<dots> \<le> upper4 m e * 10 ^ 1080"
    using upper4_bounds(1) [OF assms(1,2)] j by (intro mult_left_mono power_increasing) auto
  also have "\<dots> < 2 ^ 2101 * 10 ^ 1080"
    by (rule mult_strict_right_mono [OF upper4_bounds(2) [OF assms(1,2)]]) (rule zero_less_power, simp)
  also have "\<dots> \<le> 10 ^ Suc 1799"
  proof -
    have "(2::int) ^ 2101 \<le> 2 ^ (3 * 701)" by (rule power_increasing) simp_all
    also have "\<dots> = 8 ^ 701" unfolding power_mult by simp
    also have "\<dots> \<le> 10 ^ 701" by (rule power_mono) simp_all
    finally have "(2::int) ^ 2101 * 10 ^ 1080 \<le> 10 ^ 701 * 10 ^ 1080" by (rule mult_right_mono) (rule zero_le_power, simp)
    also have "\<dots> \<le> 10 ^ Suc 1799" unfolding power_add [symmetric] by (rule power_increasing) simp_all
    finally show ?thesis .
  qed
  finally have "n < 10 ^ Suc 1799" by (simp only: mult_1_right)
  from length_dec_digits [OF less_imp_le [OF n] this] show "length (dec_digits n) \<le> 1800" by simp
qed

section \<open>The round trip\<close>

lemma parse_decimal:
  assumes "0 < m" "f64_ok (FFin s m e)" "shortest m e = (n, j)"
    and "digits_from 0 (ds @ fs) = Some k" "ds \<noteq> []" "\<bar>exp_value x\<bar> < 10000"
    and "k * 10 ^ nat (exp_value x - int (length fs)) = n * 10 ^ nat j" "nat (- (exp_value x - int (length fs))) = nat (- j)"
  shows "parse_float (sign_text s @ point_text ds fs @ exp_text x) = Inr (FFin s m e)"
proof -
  have "f64_round s (n * 10 ^ nat j) (10 ^ nat (- j)) 1074 = FFin s m e"
    by (rule rounds_back_round [OF assms(1,2) shortest_rounds [OF assms(1,3)]])
  then show ?thesis
    using read_float_text [OF assms(4-6), of s] special_float_text [OF assms(4,5), of s x] assms(7,8)
    by (simp add: parse_float_def lit_value_def Let_def)
qed

lemma fixed_text_parts:
  assumes "0 < n"
  shows "\<exists>ds fs k. fixed_text n j = point_text ds fs \<and> digits_from 0 (ds @ fs) = Some k \<and> ds \<noteq> []
    \<and> k * 10 ^ nat (- int (length fs)) = n * 10 ^ nat j \<and> length fs = nat (- j)"
proof (cases "0 \<le> j")
  case True
  have d: "digits_from 0 (dec_digits (n * 10 ^ nat j) @ []) = Some (n * 10 ^ nat j)"
    using assms digits_from_dec_digits [of "n * 10 ^ nat j"] by simp
  show ?thesis
    by (rule exI [of _ "dec_digits (n * 10 ^ nat j)"], rule exI [of _ "[]"], rule exI [of _ "n * 10 ^ nat j"])
      (use True d in \<open>simp add: fixed_text_def point_text_def\<close>)
next
  case False
  define k where "k = nat (- j)"
  have k: "0 < k" "nat j = 0" using False by (simp_all add: k_def)
  have d: "digits_from 0 (dec_digits (n div 10 ^ k) @ padded k (n mod 10 ^ k)) = Some n"
    using assms div_mult_mod_eq [of n "10 ^ k"] digits_from_dec_digits [of "n div 10 ^ k"]
    by (simp add: digits_from_append digits_from_padded pos_imp_zdiv_nonneg_iff)
  have "padded k (n mod 10 ^ k) \<noteq> []" using k length_padded [of k "n mod 10 ^ k"] by (metis length_0_conv less_numeral_extra(3))
  with False k d show ?thesis
    by - (rule exI [of _ "dec_digits (n div 10 ^ k)"], rule exI [of _ "padded k (n mod 10 ^ k)"], rule exI [of _ n],
      simp add: fixed_text_def point_text_def k_def [symmetric] del: padded.simps)
qed

text \<open>Every finite float is read back from its text.\<close>

lemma parse_float_text:
  assumes "f64_ok x" "f64_finite x"
  shows "parse_float (float_text x) = Inr x"
proof (cases x)
  case (FFin s m e)
  note ok = assms(1) [unfolded FFin]
  show ?thesis
  proof (cases "m = 0")
    case True
    then have "x = FFin s 0 0" using ok by (auto simp: f64_ok_def FFin)
    moreover have "parse_float ''0'' = Inr (FFin False 0 0)" "parse_float ''-0'' = Inr (FFin True 0 0)" by code_simp+
    ultimately show ?thesis by (simp add: float_text_def)
  next
    case False
    then have m: "0 < m" using ok by (simp add: f64_ok_def)
    obtain n j where nj: "shortest m e = (n, j)" by fastforce
    note b = shortest_bounds [OF m ok nj]
    show ?thesis
    proof (cases "scientific m e")
      case True
      let ?ds = "dec_digits n"
      let ?x = "j + int (length ?ds) - 1"
      have d: "[hd ?ds] @ tl ?ds = ?ds" by simp
      have len: "int (length (tl ?ds)) = int (length ?ds) - 1" by (cases ?ds) simp_all
      have x: "\<bar>?x\<bar> < 10000" using b(2-4) by linarith
      have "parse_float (sign_text s @ point_text [hd ?ds] (tl ?ds) @ exp_text (Some ?x)) = Inr (FFin s m e)"
        using digits_from_dec_digits [of n] b(1) x len
        by (intro parse_decimal [OF m ok nj, where k = n]) (simp_all add: d exp_value_def del: append.simps)
      moreover have "float_text x = sign_text s @ point_text [hd ?ds] (tl ?ds) @ exp_text (Some ?x)"
        using False True by (simp add: float_text_def FFin nj sci_text_def Let_def sign_text_def point_text_def exp_text_def)
      ultimately show ?thesis by (simp add: FFin)
    next
      case F: False
      obtain ds fs k where t: "fixed_text n j = point_text ds fs" "digits_from 0 (ds @ fs) = Some k" "ds \<noteq> []"
        "k * 10 ^ nat (- int (length fs)) = n * 10 ^ nat j" "length fs = nat (- j)"
        using fixed_text_parts [OF b(1)] by blast
      have "parse_float (sign_text s @ point_text ds fs @ exp_text None) = Inr (FFin s m e)"
        using t by (intro parse_decimal [OF m ok nj]) (simp_all add: exp_value_def)
      moreover have "float_text x = sign_text s @ point_text ds fs @ exp_text None"
        using False F by (simp add: float_text_def FFin nj t(1) sign_text_def exp_text_def)
      ultimately show ?thesis by (simp add: FFin)
    qed
  qed
qed (use assms(2) in simp_all)

end
