(* ===== verification/Rfc3339.thy ===== *)
theory Rfc3339
  imports GoTime FloatText
begin

text \<open>
  The text of a \<open>time.Time\<close> in JSON: RFC 3339 in UTC with up to nine digits of the second,
  trailing zeros left out, for the years 0 to 9999; and \<open>time.Parse(time.RFC3339, s)\<close>, which reads
  it, with a fraction after a point or a comma, an hour of one digit and any offset.
  An instant is its number of nanoseconds since 1970.
\<close>

section \<open>The calendar\<close>

definition leap :: "int \<Rightarrow> bool" where
  "leap y \<longleftrightarrow> 4 dvd y \<and> (\<not> 100 dvd y \<or> 400 dvd y)"

definition months :: "int \<Rightarrow> int list" where
  "months y = [31, if leap y then 29 else 28, 31, 30, 31, 30, 31, 31, 30, 31, 30, 31]"

text \<open>The days from the start of year 0 to the start of year \<open>y\<close>.\<close>

definition year_start :: "int \<Rightarrow> int" where
  "year_start y = 365 * y + (y + 3) div 4 - (y + 99) div 100 + (y + 399) div 400"

definition days_before :: "int \<Rightarrow> int \<Rightarrow> int \<Rightarrow> int" where
  "days_before y m d = year_start y + sum_list (take (nat (m - 1)) (months y)) + d - 1"

definition year_of :: "int \<Rightarrow> int" where
  "year_of n =
     (let y = n * 400 div 146097
      in if n < year_start y then y - 1 else if year_start (y + 1) \<le> n then y + 1 else y)"

text \<open>The month and the day in it, from the lengths of the months to come.\<close>

fun month_of :: "int list \<Rightarrow> int \<Rightarrow> int \<Rightarrow> int \<times> int" where
  "month_of [] m d = (m, d + 1)"
| "month_of (l # ls) m d = (if d < l then (m, d + 1) else month_of ls (m + 1) (d - l))"

definition date_of :: "int \<Rightarrow> int \<times> int \<times> int" where
  "date_of n = (let y = year_of n in (y, month_of (months y) 1 (n - year_start y)))"

lemma ceil_div_step:
  fixes k y :: int
  assumes "0 < k"
  shows "(y + 1 + (k - 1)) div k - (y + (k - 1)) div k = (if k dvd y then 1 else 0)"
proof -
  have r: "0 \<le> y mod k" "y mod k < k" using assms by simp_all
  have y: "y = k * (y div k) + y mod k" by simp
  have "(y + k) div k = y div k + 1" using assms by simp
  moreover have "(y + (k - 1)) div k = (if y mod k = 0 then y div k else y div k + 1)"
  proof (cases "y mod k = 0")
    case True
    then have "y + (k - 1) = k * (y div k) + (k - 1)" using y by simp
    then have "(y + (k - 1)) div k = y div k" by (rule int_div_pos_eq) (use assms in auto)
    with True show ?thesis by simp
  next
    case False
    have "y + (k - 1) = k * (y div k + 1) + (y mod k - 1)" using y by (simp add: distrib_left)
    then have "(y + (k - 1)) div k = y div k + 1" by (rule int_div_pos_eq) (use False r in auto)
    with False show ?thesis by simp
  qed
  moreover have "y + 1 + (k - 1) = y + k" by simp
  ultimately show ?thesis by (simp only: dvd_eq_mod_eq_0) simp
qed

lemma year_length: "year_start (y + 1) = year_start y + (if leap y then 366 else 365)"
proof -
  obtain P Q R where b: "P = (4 dvd y)" "Q = (100 dvd y)" "R = (400 dvd y)" by blast
  obtain u v w where u: "u = (y + 3) div 4" "v = (y + 99) div 100" "w = (y + 399) div 400" by blast
  have "(y + 1 + 3) div 4 = u + (if P then 1 else 0)" "(y + 1 + 99) div 100 = v + (if Q then 1 else 0)"
    "(y + 1 + 399) div 400 = w + (if R then 1 else 0)"
    using ceil_div_step [of 4 y] ceil_div_step [of 100 y] ceil_div_step [of 400 y] by (simp_all add: b u)
  then have "year_start (y + 1) = 365 * (y + 1) + (u + (if P then 1 else 0)) - (v + (if Q then 1 else 0)) + (w + (if R then 1 else 0))"
    unfolding year_start_def by (simp only:)
  moreover have "year_start y = 365 * y + u - v + w" unfolding year_start_def u ..
  moreover have "Q \<Longrightarrow> P" "R \<Longrightarrow> Q"
    unfolding b using dvd_trans [of 4 100 y] dvd_trans [of 100 400 y] by simp_all
  moreover have "leap y \<longleftrightarrow> P \<and> (\<not> Q \<or> R)" by (simp only: leap_def b)
  ultimately show ?thesis by (cases P; cases Q; cases R) simp_all
qed

lemma months_sum: "sum_list (months y) = (if leap y then 366 else 365)"
  by (simp add: months_def)

lemma div_interval: "0 < k \<Longrightarrow> k * (a div k) \<le> a \<and> a < k * (a div k) + k" for a k :: int
  using mult_div_mod_eq [of k a] pos_mod_bound [of k a] pos_mod_sign [of k a] by linarith

lemma year_start_approx: "146097 * y - 396 \<le> 400 * year_start y \<and> 400 * year_start y \<le> 146097 * y + 699"
proof -
  obtain u v w where u: "u = (y + 3) div 4" "v = (y + 99) div 100" "w = (y + 399) div 400" by blast
  have "4 * u \<le> y + 3 \<and> y + 3 < 4 * u + 4" "100 * v \<le> y + 99 \<and> y + 99 < 100 * v + 100"
    "400 * w \<le> y + 399 \<and> y + 399 < 400 * w + 400"
    unfolding u using div_interval [of 4 "y + 3"] div_interval [of 100 "y + 99"] div_interval [of 400 "y + 399"] by simp_all
  moreover have "400 * year_start y = 146000 * y + 400 * u - 400 * v + 400 * w"
    unfolding year_start_def u by simp
  ultimately show ?thesis by (elim conjE, intro conjI; linarith)
qed

lemma year_of_bounds: "year_start (year_of n) \<le> n \<and> n < year_start (year_of n + 1)"
proof -
  define y where "y = n * 400 div 146097"
  have "146097 * y + n * 400 mod 146097 = n * 400" "0 \<le> n * 400 mod 146097" "n * 400 mod 146097 < 146097"
    by (simp_all add: y_def)
  then have "146097 * y \<le> n * 400 \<and> n * 400 < 146097 * y + 146097" by linarith
  then have "year_start (y - 1) \<le> n \<and> n < year_start (y + 2)"
    using year_start_approx [of "y - 1"] year_start_approx [of "y + 2"] by (auto simp: algebra_simps)
  moreover have "year_of n = (if n < year_start y then y - 1 else if year_start (y + 1) \<le> n then y + 1 else y)"
    unfolding year_of_def Let_def y_def ..
  moreover have "y + 1 + 1 = y + 2" "y - 1 + 1 = y" by simp_all
  ultimately show ?thesis by (auto simp: algebra_simps)
qed

lemma month_of_spec:
  "0 \<le> d \<Longrightarrow> d < sum_list ls \<Longrightarrow> list_all (\<lambda>l. 0 \<le> l) ls \<Longrightarrow>
     \<exists>k d'. month_of ls m d = (m + int k, d') \<and> k < length ls \<and> 1 \<le> d' \<and> d' \<le> ls ! k \<and> d = sum_list (take k ls) + d' - 1"
proof (induction ls arbitrary: m d)
  case (Cons l ls)
  show ?case
  proof (cases "d < l")
    case True
    then show ?thesis using Cons.prems by (intro exI [of _ 0] exI [of _ "d + 1"]) simp
  next
    case False
    then obtain k d' where "month_of ls (m + 1) (d - l) = (m + 1 + int k, d')" "k < length ls" "1 \<le> d'" "d' \<le> ls ! k"
      "d - l = sum_list (take k ls) + d' - 1"
      using Cons.IH [of "d - l" "m + 1"] Cons.prems by auto
    then show ?thesis using False by (intro exI [of _ "Suc k"] exI [of _ d']) simp
  qed
qed simp

lemma date_of_spec:
  assumes "date_of n = (y, m, d)"
  shows "1 \<le> m" "m \<le> 12" "1 \<le> d" "d \<le> months y ! nat (m - 1)" "days_before y m d = n" "year_start y \<le> n" "n < year_start (y + 1)"
proof -
  have y: "y = year_of n" "month_of (months y) 1 (n - year_start y) = (m, d)"
    using assms by (auto simp: date_of_def Let_def)
  show b: "year_start y \<le> n" "n < year_start (y + 1)" using year_of_bounds [of n] by (simp_all add: y(1))
  then have "0 \<le> n - year_start y" "n - year_start y < sum_list (months y)" by (simp_all add: months_sum year_length)
  moreover have "list_all (\<lambda>l. 0 \<le> l) (months y)" by (simp add: months_def)
  ultimately obtain k where k: "m = 1 + int k" "k < length (months y)" "1 \<le> d" "d \<le> months y ! k"
    "n - year_start y = sum_list (take k (months y)) + d - 1"
    using month_of_spec [of "n - year_start y" "months y" 1] y(2) by auto
  moreover have "length (months y) = 12" by (simp add: months_def)
  ultimately show "1 \<le> m" "m \<le> 12" "1 \<le> d" "d \<le> months y ! nat (m - 1)" "days_before y m d = n"
    by (simp_all add: days_before_def)
qed

section \<open>Writing\<close>

definition epoch_day :: int where
  "epoch_day = 719528"

text \<open>Trailing zeros of the fraction are left out, and the point with them.\<close>

definition strip_zeros :: "string \<Rightarrow> string" where
  "strip_zeros s = rev (dropWhile (\<lambda>c. c = CHR ''0'') (rev s))"

definition frac_text :: "int \<Rightarrow> string" where
  "frac_text f = (if f = 0 then [] else CHR ''.'' # strip_zeros (padded 9 f))"

definition clock_text :: "int \<Rightarrow> string" where
  "clock_text s = padded 2 (s div 3600) @ '':'' @ padded 2 (s div 60 mod 60) @ '':'' @ padded 2 (s mod 60)"

definition day_of :: "int \<Rightarrow> int" where
  "day_of ns = ns div Second div 86400 + epoch_day"

definition time_text :: "int \<Rightarrow> string" where
  "time_text ns =
     (case date_of (day_of ns) of (y, m, d) \<Rightarrow>
        padded 4 y @ ''-'' @ padded 2 m @ ''-'' @ padded 2 d @ ''T''
        @ clock_text (ns div Second mod 86400) @ frac_text (ns mod Second) @ ''Z'')"

definition time_writable :: "int \<Rightarrow> bool" where
  "time_writable ns \<longleftrightarrow> (let y = year_of (day_of ns) in 0 \<le> y \<and> y \<le> 9999)"

section \<open>Reading\<close>

fun digit_at :: "string \<Rightarrow> int option" where
  "digit_at [] = None"
| "digit_at (c # cs) = digit_val c"

text \<open>A number of two digits, or of one where the layout allows it.\<close>

definition get_num :: "bool \<Rightarrow> string \<Rightarrow> (int \<times> string) option" where
  "get_num fixed s =
     (case digit_at s of
        None \<Rightarrow> None
      | Some a \<Rightarrow>
          (case digit_at (drop 1 s) of
             Some b \<Rightarrow> Some (10 * a + b, drop 2 s)
           | None \<Rightarrow> if fixed then None else Some (a, drop 1 s)))"

definition get_year :: "string \<Rightarrow> (int \<times> string) option" where
  "get_year s =
     (if length s < 4 then None
      else case digits_from 0 (take 4 s) of None \<Rightarrow> None | Some y \<Rightarrow> Some (y, drop 4 s))"

fun expect :: "char \<Rightarrow> string \<Rightarrow> string option" where
  "expect x [] = None"
| "expect x (c # cs) = (if c = x then Some cs else None)"

definition in_bounds :: "int \<Rightarrow> int \<Rightarrow> (int \<times> string) option \<Rightarrow> (int \<times> string) option" where
  "in_bounds lo hi r = (case r of None \<Rightarrow> None | Some (n, s) \<Rightarrow> if lo \<le> n \<and> n \<le> hi then Some (n, s) else None)"

text \<open>The digits beyond the ninth are dropped.\<close>

definition get_frac :: "string \<Rightarrow> int \<times> string" where
  "get_frac s =
     (if s \<noteq> [] \<and> (hd s = CHR ''.'' \<or> hd s = CHR '','') \<and> digit_at (tl s) \<noteq> None then
        (let ds = takeWhile (\<lambda>c. digit_val c \<noteq> None) (tl s); kept = take 9 ds
         in (the (digits_from 0 kept) * 10 ^ (9 - length kept), drop (length ds) (tl s)))
      else (0, s))"

definition get_zone :: "string \<Rightarrow> (int \<times> string) option" where
  "get_zone s =
     (if s \<noteq> [] \<and> hd s = CHR ''Z'' then Some (0, tl s)
      else if length s < 6 \<or> s ! 3 \<noteq> CHR '':'' then None
      else do {
        (h, _) \<leftarrow> in_bounds 0 24 (get_num True (take 2 (drop 1 s)));
        (m, _) \<leftarrow> in_bounds 0 60 (get_num True (take 2 (drop 4 s)));
        if hd s = CHR ''+'' then Some ((h * 60 + m) * 60, drop 6 s)
        else if hd s = CHR ''-'' then Some (- ((h * 60 + m) * 60), drop 6 s) else None
      })"

definition parse_rfc3339 :: "string \<Rightarrow> int option" where
  "parse_rfc3339 s = do {
     (y, s) \<leftarrow> get_year s; s \<leftarrow> expect CHR ''-'' s;
     (m, s) \<leftarrow> in_bounds 1 12 (get_num True s); s \<leftarrow> expect CHR ''-'' s;
     (d, s) \<leftarrow> get_num True s; s \<leftarrow> expect CHR ''T'' s;
     (h, s) \<leftarrow> in_bounds 0 23 (get_num False s); s \<leftarrow> expect CHR '':'' s;
     (mi, s) \<leftarrow> in_bounds 0 59 (get_num True s); s \<leftarrow> expect CHR '':'' s;
     (sec, s) \<leftarrow> in_bounds 0 59 (get_num True s);
     let (ns, s) = get_frac s;
     (off, s) \<leftarrow> get_zone s;
     if s = [] \<and> 1 \<le> d \<and> d \<le> months y ! nat (m - 1)
     then Some (((days_before y m d - epoch_day) * 86400 + h * 3600 + mi * 60 + sec - off) * Second + ns)
     else None
   }"

section \<open>What is written is read back\<close>

lemma padded_two: "padded 2 n = [digit_char (n div 10 mod 10), digit_char (n mod 10)]"
  by (simp add: numeral_2_eq_2)

lemma get_num_padded: "0 \<le> n \<Longrightarrow> n < 100 \<Longrightarrow> get_num f (padded 2 n @ r) = Some (n, r)"
proof -
  assume n: "0 \<le> n" "n < 100"
  then have "n div 10 mod 10 = n div 10" by (intro mod_pos_pos_trivial) auto
  then show ?thesis using n by (simp add: padded_two get_num_def)
qed

lemma get_year_padded: "0 \<le> y \<Longrightarrow> y \<le> 9999 \<Longrightarrow> get_year (padded 4 y @ r) = Some (y, r)"
  using digits_from_padded [of y 4 0] by (simp add: get_year_def)

lemma frac_round_trip:
  assumes "0 \<le> f" "f < Second"
  shows "get_frac (frac_text f @ ''Z'') = (f, ''Z'')"
proof (cases "f = 0")
  case True
  then show ?thesis by (simp add: frac_text_def get_frac_def)
next
  case False
  define p where "p = strip_zeros (padded 9 f)"
  define k where "k = length (takeWhile (\<lambda>c. c = CHR ''0'') (rev (padded 9 f)))"
  have zs: "takeWhile (\<lambda>c. c = CHR ''0'') (rev (padded 9 f)) = replicate k CHR ''0''"
    unfolding k_def by (rule replicate_eqI [symmetric, THEN sym]) (auto dest: set_takeWhileD)
  have "rev (padded 9 f) = replicate k CHR ''0'' @ rev p"
    using takeWhile_dropWhile_id [of "\<lambda>c. c = CHR ''0''" "rev (padded 9 f)"] by (simp add: zs p_def strip_zeros_def)
  then have split: "padded 9 f = p @ replicate k CHR ''0''"
    by (metis rev_append rev_replicate rev_rev_ident)
  have len: "length p + k = 9" using arg_cong [OF split, of length] by simp
  have f: "digits_from 0 (padded 9 f) = Some f" using digits_from_padded [of f 9 0] assms by (simp add: Second_def)
  have zero: "digits_from v (replicate j CHR ''0'') = Some (v * 10 ^ j)" for v j
    by (induction j arbitrary: v) (simp_all add: digit_val_def byte_def algebra_simps)
  obtain v where v: "digits_from 0 p = Some v" "v * 10 ^ k = f"
    using f unfolding split digits_from_append by (auto simp: zero split: option.splits)
  have ne: "p \<noteq> []"
  proof
    assume "p = []"
    then have "v = 0" using v(1) by simp
    then show False using v(2) False by simp
  qed
  have dig: "digit_val c \<noteq> None" if "c \<in> set p" for c by (rule digits_from_digits [OF v(1) that])
  then have tw: "takeWhile (\<lambda>c. digit_val c \<noteq> None) (p @ ''Z'') = p"
    by (simp add: takeWhile_append digit_val_def byte_def)
  have "digit_at (p @ ''Z'') \<noteq> None" using ne dig by (cases p) auto
  moreover have "9 - length p = k" "take 9 p = p" using len by simp_all
  ultimately show ?thesis
    using False v tw by (simp add: frac_text_def get_frac_def p_def [symmetric] Let_def)
qed

lemma seconds_split: "0 \<le> s \<Longrightarrow> s div 3600 * 3600 + s div 60 mod 60 * 60 + s mod 60 = s" for s :: int
proof -
  have "s div 3600 = s div 60 div 60" by (simp flip: zdiv_zmult2_eq)
  moreover have "s div 60 div 60 * 60 + s div 60 mod 60 = s div 60" "s div 60 * 60 + s mod 60 = s" by simp_all
  ultimately show ?thesis by linarith
qed

lemma parse_time_text:
  assumes "time_writable ns"
  shows "parse_rfc3339 (time_text ns) = Some ns"
proof -
  obtain y m d where date: "date_of (day_of ns) = (y, m, d)" by (cases "date_of (day_of ns)")
  note D = date_of_spec [OF date]
  have "y = year_of (day_of ns)" using date by (auto simp: date_of_def Let_def)
  then have y: "0 \<le> y" "y \<le> 9999" using assms by (simp_all add: time_writable_def Let_def)
  have "nat (m - 1) < 12" using D(1,2) by simp
  then have "months y ! nat (m - 1) \<le> 31"
    by (simp add: months_def numeral_eq_Suc less_Suc_eq) (auto simp: nth_Cons')
  then have d: "d < 100" using D(4) by linarith
  define s where "s = ns div Second mod 86400"
  have s: "0 \<le> s" "s < 86400" by (simp_all add: s_def)
  have b: "0 \<le> s div 3600" "s div 3600 \<le> 23" "0 \<le> s div 60 mod 60" "s div 60 mod 60 \<le> 59" "0 \<le> s mod 60" "s mod 60 \<le> 59"
    using s by (simp_all add: pos_imp_zdiv_nonneg_iff)
  have f: "0 \<le> ns mod Second" "ns mod Second < Second" by (simp_all add: Second_def)
  have "(days_before y m d - epoch_day) * 86400 + s div 3600 * 3600 + s div 60 mod 60 * 60 + s mod 60 = ns div Second"
  proof -
    have "days_before y m d - epoch_day = ns div Second div 86400" unfolding D(5) day_of_def by simp
    moreover have "ns div Second div 86400 * 86400 + s = ns div Second" unfolding s_def by (rule div_mult_mod_eq)
    ultimately show ?thesis
      using seconds_split [OF s(1)] by (simp only: add.assoc)
  qed
  then have total: "((days_before y m d - epoch_day) * 86400 + s div 3600 * 3600 + s div 60 mod 60 * 60 + s mod 60 - 0) * Second + ns mod Second = ns"
    by (simp only: diff_0_right div_mult_mod_eq)
  obtain h mi sec where clock: "h = s div 3600" "mi = s div 60 mod 60" "sec = s mod 60" by blast
  have num: "get_num f (padded 2 n @ r) = Some (n, r)" if "n \<in> {m, d, h, mi, sec}" for f n r
    using that D(1-3) d b [folded clock] by (intro get_num_padded) auto
  have ok: "in_bounds 1 12 (Some (m, r)) = Some (m, r)" "in_bounds 0 23 (Some (h, r)) = Some (h, r)"
    "in_bounds 0 59 (Some (mi, r)) = Some (mi, r)" "in_bounds 0 59 (Some (sec, r)) = Some (sec, r)" for r
    using D(1,2) b [folded clock] by (simp_all add: in_bounds_def)
  have "time_text ns = padded 4 y @ ''-'' @ padded 2 m @ ''-'' @ padded 2 d @ ''T''
      @ padded 2 h @ '':'' @ padded 2 mi @ '':'' @ padded 2 sec @ frac_text (ns mod Second) @ ''Z''"
    unfolding time_text_def date clock_text_def clock s_def by simp
  then have "parse_rfc3339 (time_text ns) =
      (if 1 \<le> d \<and> d \<le> months y ! nat (m - 1)
       then Some (((days_before y m d - epoch_day) * 86400 + h * 3600 + mi * 60 + sec - 0) * Second + ns mod Second)
       else None)"
    by (simp add: parse_rfc3339_def get_year_padded [OF y] num ok frac_round_trip [OF f] get_zone_def del: mult_Suc)
  then show ?thesis using D(3,4) total [folded clock] by (simp only: if_True simp_thms)
qed

end
