(* ===== verification/JsonTokens.thy ===== *)
theory JsonTokens
  imports JsonCompact FloatText Rfc3339
begin

text \<open>
  The scalars as the encoder of \<open>encoding/json\<close> writes them, and that each is a text of the grammar:
  the numbers, and strings, whose text is unescaped to the string it was written for.
\<close>

section \<open>Numbers\<close>

lemma is_digit_val: "is_digit c \<longleftrightarrow> digit_val c \<noteq> None"
  by (simp add: is_digit_def digit_val_def)

lemma dec_digits_digits: "0 \<le> n \<Longrightarrow> list_all is_digit (dec_digits n)"
  using num_chars_dec [of n] by (simp add: is_digit_val list_all_iff)

lemma padded_digits: "list_all is_digit (padded k n)"
proof (induction k arbitrary: n)
  case (Suc k)
  have "is_digit (digit_char (n mod 10))" by (simp add: is_digit_val)
  with Suc show ?case by simp
qed simp

lemma dec_digits_leading: "0 < n \<Longrightarrow> hd (dec_digits n) \<noteq> CHR ''0''"
proof (induction n rule: dec_digits.induct)
  case (1 n)
  show ?case
  proof (cases "n < 10")
    case True
    then have "digit_char n \<noteq> CHR ''0''" using 1(2) digit_char_byte [of n] by (auto simp: byte_def)
    then show ?thesis using True by (subst dec_digits.simps) simp
  next
    case False
    then have "hd (dec_digits (n div 10)) \<noteq> CHR ''0''" using 1 by simp
    then show ?thesis using False by (subst dec_digits.simps) simp
  qed
qed

definition int_part :: "string \<Rightarrow> bool" where
  "int_part i \<longleftrightarrow> i = ''0'' \<or> i \<noteq> [] \<and> list_all is_digit i \<and> hd i \<noteq> CHR ''0''"

lemma int_part_dec: "0 \<le> n \<Longrightarrow> int_part (dec_digits n)"
proof (cases "n = 0")
  case True
  have "dec_digits 0 = ''0''" by code_simp
  with True show ?thesis by (simp add: int_part_def)
next
  case False
  assume "0 \<le> n"
  with False show ?thesis by (simp add: int_part_def dec_digits_leading dec_digits_digits)
qed

lemma scan_int_part: "int_part i \<Longrightarrow> t = [] \<or> \<not> is_digit (hd t) \<Longrightarrow> scan_int (i @ t) = Scanned i t"
proof (cases "i = ''0''")
  case False
  assume i: "int_part i" and t: "t = [] \<or> \<not> is_digit (hd t)"
  then obtain c cs where c: "i = c # cs" "c \<noteq> CHR ''0''" "list_all is_digit i" using False by (cases i) (auto simp: int_part_def)
  from scan_digits_append [OF _ c(3) t] show ?thesis using c by (simp add: scan_int_def)
qed (simp add: scan_int_def)

definition frac_part :: "string \<Rightarrow> bool" where
  "frac_part f \<longleftrightarrow> f = [] \<or> (\<exists>ds. f = CHR ''.'' # ds \<and> ds \<noteq> [] \<and> list_all is_digit ds)"

definition exp_part :: "string \<Rightarrow> bool" where
  "exp_part e \<longleftrightarrow> e = [] \<or> (\<exists>s ds. e = CHR ''e'' # s # ds \<and> (s = CHR ''+'' \<or> s = CHR ''-'') \<and> ds \<noteq> [] \<and> list_all is_digit ds)"

lemma is_number_parts:
  assumes "int_part i" "frac_part f" "exp_part e"
  shows "is_number ((if s then ''-'' else []) @ i @ f @ e)"
proof -
  have e: "scan_exp e = Scanned e []"
    using assms(3) scan_digits_append [of _ "[]"] by (auto simp: exp_part_def scan_exp_def)
  have e0: "e = [] \<or> hd e = CHR ''e''" using assms(3) by (auto simp: exp_part_def)
  have f: "scan_frac (f @ e) = Scanned f e"
  proof (cases "f = []")
    case True
    then show ?thesis using e0 by (cases e) (auto simp: scan_frac_def)
  next
    case False
    then obtain ds where ds: "f = CHR ''.'' # ds" "ds \<noteq> []" "list_all is_digit ds" using assms(2) by (auto simp: frac_part_def)
    have "scan_digits (ds @ e) = Scanned ds e" using e0 not_digits by (intro scan_digits_append ds) auto
    then show ?thesis by (simp add: ds(1) scan_frac_def)
  qed
  have f0: "f @ e = [] \<or> \<not> is_digit (hd (f @ e))"
    using assms(2) e0 not_digits by (auto simp: frac_part_def)
  have u: "scan_unsigned (i @ f @ e) = Scanned (i @ f @ e) []"
    using scan_int_part [OF assms(1) f0] by (simp add: scan_unsigned_def f e)
  have "i \<noteq> []" "hd i \<noteq> CHR ''-''" using assms(1) not_digits by (cases i; auto simp: int_part_def)+
  then have "scan_number (i @ f @ e) = scan_unsigned (i @ f @ e)" by (cases i) (simp_all add: scan_number_def)
  then show ?thesis using u by (cases s) (simp_all add: is_number_def scan_number_def)
qed

lemma is_number_itoa: "is_number (itoa n)"
  using is_number_parts [of "dec_digits \<bar>n\<bar>" "[]" "[]" "n < 0"]
  by (cases "n < 0") (simp_all add: itoa_def int_part_dec frac_part_def exp_part_def)

lemma is_number_float:
  assumes "f64_ok x" "f64_finite x"
  shows "is_number (float_text x)"
proof -
  obtain s m e where x: "x = FFin s m e" using assms(2) by (cases x) auto
  show ?thesis
  proof (cases "m = 0")
    case True
    then show ?thesis using is_number_parts [of "''0''" "[]" "[]" s] by (simp add: x float_text_def int_part_def frac_part_def exp_part_def)
  next
    case False
    then have m: "0 < m" using assms(1) by (auto simp: f64_ok_def x)
    obtain n j where nj: "shortest m e = (n, j)" by fastforce
    have n: "0 < n" using shortest_bounds [OF m _ nj] assms(1) by (simp add: x)
    have sci: "\<exists>i f ex. sci_text n j = i @ f @ ex \<and> int_part i \<and> frac_part f \<and> exp_part ex"
    proof -
      obtain d ds where ds: "dec_digits n = d # ds" by (cases "dec_digits n") auto
      have dd: "list_all is_digit (d # ds)" "d \<noteq> CHR ''0''"
        using dec_digits_digits [of n] dec_digits_leading [OF n] n by (simp_all add: ds)
      let ?x = "j + int (length (dec_digits n)) - 1"
      let ?ex = "(if ?x < 0 then ''e-'' else ''e+'') @ dec_digits \<bar>?x\<bar>"
      have "int_part [d]" "frac_part (if ds = [] then [] else CHR ''.'' # ds)" "exp_part ?ex"
        using dd by (auto simp: int_part_def frac_part_def exp_part_def dec_digits_digits)
      moreover have "sci_text n j = [d] @ (if ds = [] then [] else CHR ''.'' # ds) @ ?ex"
        by (simp add: sci_text_def Let_def ds)
      ultimately show ?thesis by blast
    qed
    have "\<exists>i f ex. fixed_text n j = i @ f @ ex \<and> int_part i \<and> frac_part f \<and> exp_part ex"
    proof (cases "0 \<le> j")
      case True
      have "int_part (dec_digits (n * 10 ^ nat j))" using n by (intro int_part_dec) simp
      moreover have "fixed_text n j = dec_digits (n * 10 ^ nat j) @ [] @ []" using True by (simp add: fixed_text_def)
      ultimately show ?thesis using frac_part_def exp_part_def by metis
    next
      case False
      let ?i = "dec_digits (n div 10 ^ nat (- j))" and ?f = "CHR ''.'' # padded (nat (- j)) (n mod 10 ^ nat (- j))"
      have "int_part ?i" using n by (intro int_part_dec) (simp add: pos_imp_zdiv_nonneg_iff)
      moreover have "padded (nat (- j)) k \<noteq> []" for k using False by (metis length_padded list.size(3) zero_less_nat_eq neg_0_less_iff_less not_le less_irrefl)
      then have "frac_part ?f" by (simp add: frac_part_def padded_digits)
      moreover have "fixed_text n j = ?i @ ?f @ []" using False by (simp add: fixed_text_def)
      ultimately show ?thesis using exp_part_def by metis
    qed
    with sci obtain i f ex where p: "(if scientific m e then sci_text n j else fixed_text n j) = i @ f @ ex" "int_part i" "frac_part f" "exp_part ex"
      by (cases "scientific m e") auto
    have "float_text x = (if s then ''-'' else []) @ i @ f @ ex" using False by (simp add: x float_text_def nj p(1))
    then show ?thesis using is_number_parts [OF p(2-4)] by simp
  qed
qed

section \<open>Strings\<close>

text \<open>A string as the encoder quotes it: HTML is escaped and bytes that are not UTF-8 are replaced.\<close>

definition hex_digit :: "int \<Rightarrow> char" where
  "hex_digit n = (if n < 10 then chr (48 + n) else chr (87 + n))"

definition escape_rune :: "int \<times> string \<Rightarrow> string" where
  "escape_rune = (\<lambda>(r, bytes).
     if r = 34 \<or> r = 92 then [chr 92, chr r]
     else if r = 8 then [chr 92, CHR ''b''] else if r = 12 then [chr 92, CHR ''f'']
     else if r = 10 then [chr 92, CHR ''n''] else if r = 13 then [chr 92, CHR ''r'']
     else if r = 9 then [chr 92, CHR ''t'']
     else if r < 32 \<or> r = 60 \<or> r = 62 \<or> r = 38
       then [chr 92] @ ''u00'' @ [hex_digit (r div 16), hex_digit (r mod 16)]
     else if r = rune_error \<and> length bytes = 1 then [chr 92] @ ''ufffd''
     else if r = 8232 then [chr 92] @ ''u2028'' else if r = 8233 then [chr 92] @ ''u2029''
     else bytes)"

definition json_quote :: "string \<Rightarrow> string" where
  "json_quote s = [CHR 0x22] @ concat (map escape_rune (segments s)) @ [CHR 0x22]"

text \<open>A segment is a rune and its bytes, or a byte that belongs to none.\<close>

lemma segment_cases:
  assumes "(r, bs) \<in> set (segments s)"
  shows "is_scalar r \<and> (bs = encode_rune r \<or> r = rune_error \<and> length bs = 1)"
  using assms
proof (induction s rule: segments.induct)
  case (2 c cs)
  obtain r' w where d: "decode_rune (c # cs) = (r', w)" by fastforce
  show ?case
  proof (cases "(r, bs) = (r', take w (c # cs))")
    case True
    have "is_scalar r'" using decode_rune_scalar [of "c # cs"] by (simp add: d)
    moreover have "take w (c # cs) = encode_rune r' \<or> r' = rune_error \<and> length (take w (c # cs)) = 1"
      using decode_rune_valid [OF d] by auto
    ultimately show ?thesis using True by simp
  next
    case False
    then have "(r, bs) \<in> set (segments (drop w (c # cs)))" using 2(2) False by (auto simp: d)
    then show ?thesis using 2(1) [OF d [symmetric]] by blast
  qed
qed simp

lemma hex_val_digit: "0 \<le> d \<Longrightarrow> d < 16 \<Longrightarrow> hex_val (hex_digit d) = Some d"
  by (auto simp: hex_digit_def hex_val_def digit_val_def)

lemma unquote_hex:
  assumes "0 \<le> n" "n < 256"
  shows "unquote (backslash # CHR ''u'' # CHR ''0'' # CHR ''0'' # hex_digit (n div 16) # hex_digit (n mod 16) # t) = encode_rune n @ unquote t"
proof -
  have "hex_val (hex_digit (n div 16)) = Some (n div 16)" "hex_val (hex_digit (n mod 16)) = Some (n mod 16)"
    using assms by (auto intro!: hex_val_digit)
  moreover have "hex_val CHR ''0'' = Some 0" by (simp add: hex_val_def digit_val_def byte_def)
  ultimately have "hex_digits [CHR ''0'', CHR ''0'', hex_digit (n div 16), hex_digit (n mod 16)] = n"
    by (simp add: hex_digits_def)
  then show ?thesis using assms by (simp add: eval_nat_numeral)
qed

lemma body_hex:
  assumes "0 \<le> n" "n < 256"
  shows "is_body InString (backslash # CHR ''u'' # CHR ''0'' # CHR ''0'' # hex_digit (n div 16) # hex_digit (n mod 16) # t) \<longleftrightarrow> is_body InString t"
proof -
  have "hex_val (hex_digit (n div 16)) = Some (n div 16)" "hex_val (hex_digit (n mod 16)) = Some (n mod 16)"
    using assms by (auto intro!: hex_val_digit)
  moreover have "hex_val CHR ''0'' = Some 0" by (simp add: hex_val_def digit_val_def byte_def)
  moreover have "simple_escape CHR ''u'' = None" by (simp add: simple_escape_def)
  ultimately show ?thesis by (simp add: is_body_simps numeral_3_eq_3)
qed

lemma encode_rune_bytes:
  assumes "is_scalar r" "128 \<le> r"
  shows "list_all (\<lambda>c. 128 \<le> byte c) (encode_rune r)"
proof -
  have high: "128 \<le> byte (chr (k + n))" if "128 \<le> k" "0 \<le> n" "k + n < 256" for k n using that by simp
  have m: "128 \<le> byte (chr (128 + x mod 64))" for x by (rule high) (use pos_mod_bound [of 64 x] in simp_all)
  have "r < 1114112" using assms(1) by (simp add: is_scalar_def)
  then have "r < 2048 \<Longrightarrow> 128 \<le> byte (chr (192 + r div 64))" "r < 65536 \<Longrightarrow> 128 \<le> byte (chr (224 + r div 4096))"
    "128 \<le> byte (chr (240 + r div 262144))"
    using assms(2) by (auto intro!: high)
  then show ?thesis using assms m by (simp add: encode_rune_def)
qed

lemma body_high: "list_all (\<lambda>c. 128 \<le> byte c) bs \<Longrightarrow> is_body InString (bs @ t) \<longleftrightarrow> is_body InString t"
proof (induction bs)
  case (Cons c bs)
  then have "c \<noteq> quote_char" "c \<noteq> backslash" by (auto simp: byte_def)
  with Cons show ?case by (simp add: is_body_simps)
qed simp

lemma unquote_rune:
  assumes "is_scalar r" "r \<noteq> 92"
  shows "unquote (encode_rune r @ t) = encode_rune r @ unquote t"
proof -
  obtain c cs where c: "encode_rune r = c # cs" by (cases "encode_rune r") auto
  have d: "decode_rune (c # cs @ t) = (r, Suc (length cs))" using encode_rune_decode [OF assms(1), of t] by (simp add: c)
  have "c \<noteq> backslash"
  proof
    assume "c = backslash"
    then have "decode_rune (c # cs @ t) = (92, 1)" by (simp add: decode_rune.simps byte_def)
    then show False using d assms(2) by simp
  qed
  then show ?thesis by (simp add: c d)
qed

lemma chr_chars: "chr 92 = backslash" "chr 34 = quote_char"
  by code_simp+

lemma unquote_escapes:
  "unquote (backslash # quote_char # t) = chr 34 # unquote t" "unquote (backslash # backslash # t) = chr 92 # unquote t"
  "unquote (backslash # CHR ''b'' # t) = chr 8 # unquote t" "unquote (backslash # CHR ''f'' # t) = chr 12 # unquote t"
  "unquote (backslash # CHR ''n'' # t) = chr 10 # unquote t" "unquote (backslash # CHR ''r'' # t) = chr 13 # unquote t"
  "unquote (backslash # CHR ''t'' # t) = chr 9 # unquote t"
  by (simp_all add: simple_escape_def chr_chars)

lemma unquote_hex_escapes:
  "unquote (backslash # ''ufffd'' @ t) = encode_rune 65533 @ unquote t"
  "unquote (backslash # ''u2028'' @ t) = encode_rune 8232 @ unquote t"
  "unquote (backslash # ''u2029'' @ t) = encode_rune 8233 @ unquote t"
  by (simp_all add: eval_nat_numeral hex_digits_def hex_val_def digit_val_def byte_def)

lemma body_escape_chars:
  "is_body InString (backslash # quote_char # t) \<longleftrightarrow> is_body InString t" "is_body InString (backslash # backslash # t) \<longleftrightarrow> is_body InString t"
  "is_body InString (backslash # CHR ''b'' # t) \<longleftrightarrow> is_body InString t" "is_body InString (backslash # CHR ''f'' # t) \<longleftrightarrow> is_body InString t"
  "is_body InString (backslash # CHR ''n'' # t) \<longleftrightarrow> is_body InString t" "is_body InString (backslash # CHR ''r'' # t) \<longleftrightarrow> is_body InString t"
  "is_body InString (backslash # CHR ''t'' # t) \<longleftrightarrow> is_body InString t"
  by (simp_all add: is_body_simps simple_escape_def)

lemma body_hex_escapes:
  "is_body InString (backslash # ''ufffd'' @ t) \<longleftrightarrow> is_body InString t"
  "is_body InString (backslash # ''u2028'' @ t) \<longleftrightarrow> is_body InString t"
  "is_body InString (backslash # ''u2029'' @ t) \<longleftrightarrow> is_body InString t"
  by (simp_all add: is_body_simps simple_escape_def hex_val_def digit_val_def byte_def numeral_3_eq_3)

lemma encode_rune_small: "0 \<le> r \<Longrightarrow> r < 128 \<Longrightarrow> encode_rune r = [chr r]"
  by (simp add: encode_rune_def is_scalar_def)

lemma escape_rune_text:
  assumes "is_scalar r" "bs = encode_rune r \<or> r = rune_error \<and> length bs = 1"
  shows "unquote (escape_rune (r, bs) @ t) = encode_rune r @ unquote t
    \<and> (is_body InString (escape_rune (r, bs) @ t) \<longleftrightarrow> is_body InString t)"
proof -
  have r: "0 \<le> r" using assms(1) by (simp add: is_scalar_def)
  consider (short) "r = 34 \<or> r = 92 \<or> r = 8 \<or> r = 12 \<or> r = 10 \<or> r = 13 \<or> r = 9"
    | (hex) "\<not> (r = 34 \<or> r = 92 \<or> r = 8 \<or> r = 12 \<or> r = 10 \<or> r = 13 \<or> r = 9)" "r < 32 \<or> r = 60 \<or> r = 62 \<or> r = 38"
    | (err) "r = rune_error" "length bs = 1"
    | (sep) "r = 8232 \<or> r = 8233"
    | (raw) "\<not> (r = 34 \<or> r = 92 \<or> r = 8 \<or> r = 12 \<or> r = 10 \<or> r = 13 \<or> r = 9)" "\<not> (r < 32 \<or> r = 60 \<or> r = 62 \<or> r = 38)"
        "\<not> (r = rune_error \<and> length bs = 1)" "\<not> (r = 8232 \<or> r = 8233)" "bs = encode_rune r"
    using assms(2) by blast
  then show ?thesis
  proof cases
    case short
    then show ?thesis
      by (elim disjE) (simp_all add: escape_rune_def chr_chars unquote_escapes body_escape_chars encode_rune_small del: unquote.simps(2))
  next
    case hex
    then have n: "r < 256" by auto
    have "escape_rune (r, bs) = backslash # CHR ''u'' # CHR ''0'' # CHR ''0'' # hex_digit (r div 16) # hex_digit (r mod 16) # []"
      using hex by (auto simp: escape_rune_def chr_chars)
    then show ?thesis using unquote_hex [OF r n] body_hex [OF r n] by (simp del: unquote.simps(2))
  next
    case err
    then have "escape_rune (r, bs) = backslash # ''ufffd''" by (simp add: escape_rune_def chr_chars rune_error_def)
    then show ?thesis using unquote_hex_escapes(1) body_hex_escapes(1) err by (simp add: rune_error_def del: unquote.simps(2))
  next
    case sep
    then have "escape_rune (r, bs) = backslash # (if r = 8232 then ''u2028'' else ''u2029'')"
      by (auto simp: escape_rune_def chr_chars rune_error_def)
    then show ?thesis using unquote_hex_escapes(2,3) body_hex_escapes(2,3) sep by (auto simp del: unquote.simps(2))
  next
    case raw
    have e: "escape_rune (r, bs) = bs" using raw(1-4) by (auto simp: escape_rune_def)
    have "is_body InString (bs @ t) \<longleftrightarrow> is_body InString t"
    proof (cases "r < 128")
      case True
      then have "bs = [chr r]" "byte (chr r) = r" using raw r by (simp_all add: encode_rune_small)
      moreover from this have "chr r \<noteq> quote_char" "chr r \<noteq> backslash" using raw by (auto simp: byte_def)
      ultimately show ?thesis using raw by (simp add: is_body_simps)
    next
      case False
      then show ?thesis using raw encode_rune_bytes [OF assms(1)] by (intro body_high) simp
    qed
    then show ?thesis using unquote_rune [OF assms(1)] raw(1,5) e by simp
  qed
qed

lemma segments_text:
  assumes "\<forall>(r, bs) \<in> set ss. is_scalar r \<and> (bs = encode_rune r \<or> r = rune_error \<and> length bs = 1)"
  shows "unquote (concat (map escape_rune ss) @ t) = encode_runes (map fst ss) @ unquote t
    \<and> (is_body InString (concat (map escape_rune ss) @ t) \<longleftrightarrow> is_body InString t)"
  using assms
proof (induction ss)
  case (Cons x ss)
  obtain r bs where x: "x = (r, bs)" by fastforce
  have "is_scalar r" "bs = encode_rune r \<or> r = rune_error \<and> length bs = 1" using Cons.prems by (auto simp: x)
  from escape_rune_text [OF this, of "concat (map escape_rune ss) @ t"] Cons.IH Cons.prems show ?case
    by (simp add: x encode_runes_def del: One_nat_def)
qed (simp add: encode_runes_def)

lemma json_quote_text:
  "\<exists>body. json_quote s = quote_char # body \<and> is_string body \<and> unquote (butlast body) = encode_runes (runes s)"
proof -
  let ?b = "concat (map escape_rune (segments s))"
  have "\<forall>(r, bs) \<in> set (segments s). is_scalar r \<and> (bs = encode_rune r \<or> r = rune_error \<and> length bs = 1)"
    using segment_cases by blast
  note T = segments_text [OF this]
  have "is_body InString (?b @ [quote_char])" using T [of "[quote_char]"] by (simp add: is_body_simps)
  moreover have "unquote (butlast (?b @ [quote_char])) = encode_runes (runes s)"
    using T [of "[]"] unfolding butlast_snoc by (simp add: runes_def)
  ultimately show ?thesis by (intro exI [of _ "?b @ [quote_char]"]) (simp add: json_quote_def is_string_def is_body_def)
qed

section \<open>Times\<close>

text \<open>Characters that are written as they are.\<close>

definition plain_char :: "char \<Rightarrow> bool" where
  "plain_char c \<longleftrightarrow> 32 \<le> byte c \<and> byte c < 128 \<and> byte c \<notin> {34, 92, 60, 62, 38}"

lemma json_quote_plain:
  assumes "list_all plain_char s"
  shows "json_quote s = [CHR 0x22] @ s @ [CHR 0x22]"
proof -
  have "escape_rune (byte c, [c]) = [c]" if "c \<in> set s" for c
    using assms that unfolding escape_rune_def list_all_iff plain_char_def rune_error_def by auto
  moreover have "ascii s" using assms by (auto simp: list_all_iff plain_char_def ascii_def)
  ultimately have "concat (map escape_rune (segments s)) = concat (map (\<lambda>c. [c]) s)"
    by (simp add: segments_ascii comp_def cong: map_cong)
  then show ?thesis by (simp add: json_quote_def)
qed

lemma plain_digit_char: "0 \<le> d \<Longrightarrow> d < 10 \<Longrightarrow> plain_char (digit_char d)"
  using digit_char_byte [of d] by (simp add: plain_char_def)

lemma plain_padded: "list_all plain_char (padded k n)"
  by (induction k arbitrary: n) (simp_all add: plain_digit_char)

lemma plain_frac: "list_all plain_char (frac_text f)"
proof -
  have "list_all plain_char (strip_zeros (padded 9 f))"
    using plain_padded [of 9 f] set_dropWhileD unfolding strip_zeros_def list_all_iff set_rev by fastforce
  moreover have "plain_char CHR ''.''" by code_simp
  ultimately show ?thesis by (simp add: frac_text_def)
qed

lemma plain_time: "list_all plain_char (time_text ns)"
proof -
  have "plain_char CHR ''-''" "plain_char CHR ''T''" "plain_char CHR '':''" "plain_char CHR ''Z''" by code_simp+
  then show ?thesis
    by (simp add: time_text_def clock_text_def plain_padded plain_frac split: prod.split del: padded.simps)
qed

lemma time_quote: "json_quote (time_text ns) = quote_char # time_text ns @ [quote_char]"
  using json_quote_plain [OF plain_time] by simp

end
