(* ===== verification/Sizes.thy ===== *)
theory Sizes
  imports TbTypes
begin

text \<open>
  \<open>internal/aggregate/sizes.go\<close>: the tally per garment size and the normalisation of the many
  spellings of a size. \<open>SizeCounts.Add\<close> mutates its receiver and returns whether it knew the
  size; here it returns both.
\<close>

record size_counts =
  sc_Small :: int
  sc_Medium :: int
  sc_Large :: int
  sc_XL :: int
  sc_XXL :: int
  sc_XXXL :: int

definition size_counts_zero :: size_counts where
  "size_counts_zero =
     \<lparr>sc_Small = 0, sc_Medium = 0, sc_Large = 0, sc_XL = 0, sc_XXL = 0, sc_XXXL = 0\<rparr>"

definition size_add :: "size_counts \<Rightarrow> string \<Rightarrow> size_counts \<times> bool" where
  "size_add s sz =
     (if sz = ''small'' then (s\<lparr>sc_Small := sc_Small s + 1\<rparr>, True)
      else if sz = ''medium'' then (s\<lparr>sc_Medium := sc_Medium s + 1\<rparr>, True)
      else if sz = ''large'' then (s\<lparr>sc_Large := sc_Large s + 1\<rparr>, True)
      else if sz = ''xl'' then (s\<lparr>sc_XL := sc_XL s + 1\<rparr>, True)
      else if sz = ''2xl'' then (s\<lparr>sc_XXL := sc_XXL s + 1\<rparr>, True)
      else if sz = ''3xl'' then (s\<lparr>sc_XXXL := sc_XXXL s + 1\<rparr>, True)
      else (s, False))"

definition size_total :: "size_counts \<Rightarrow> int" where
  "size_total s = sc_Small s + sc_Medium s + sc_Large s + sc_XL s + sc_XXL s + sc_XXXL s"

definition normalize_size :: "string \<Rightarrow> string" where
  "normalize_size sz =
     (let s = to_lower (trim_space sz)
      in if s = ''s'' \<or> s = ''small'' then ''small''
         else if s = ''m'' \<or> s = ''medium'' then ''medium''
         else if s = ''l'' \<or> s = ''large'' then ''large''
         else if s = ''xl'' \<or> s = ''extra large'' then ''xl''
         else if s = ''2xl'' \<or> s = ''xxl'' then ''2xl''
         else if s = ''3xl'' \<or> s = ''xxxl'' then ''3xl''
         else s)"

text \<open>The tally as a function of the canonical name, and the canonical names.\<close>

definition canonical_sizes :: "string list" where
  "canonical_sizes = [''small'', ''medium'', ''large'', ''xl'', ''2xl'', ''3xl'']"

definition size_count :: "size_counts \<Rightarrow> string \<Rightarrow> int" where
  "size_count s sz =
     (if sz = ''small'' then sc_Small s
      else if sz = ''medium'' then sc_Medium s
      else if sz = ''large'' then sc_Large s
      else if sz = ''xl'' then sc_XL s
      else if sz = ''2xl'' then sc_XXL s
      else if sz = ''3xl'' then sc_XXXL s
      else 0)"

lemma size_count_total: "size_total s = sum_list (map (size_count s) canonical_sizes)"
  by (simp add: size_total_def size_count_def canonical_sizes_def)

lemma size_counts_eqI:
  fixes s t :: size_counts
  assumes "\<And>sz. sz \<in> set canonical_sizes \<Longrightarrow> size_count s sz = size_count t sz"
  shows "s = t"
proof (rule size_counts.equality)
  show "sc_Small s = sc_Small t" using assms [of "''small''"] by (simp add: size_count_def canonical_sizes_def)
  show "sc_Medium s = sc_Medium t" using assms [of "''medium''"] by (simp add: size_count_def canonical_sizes_def)
  show "sc_Large s = sc_Large t" using assms [of "''large''"] by (simp add: size_count_def canonical_sizes_def)
  show "sc_XL s = sc_XL t" using assms [of "''xl''"] by (simp add: size_count_def canonical_sizes_def)
  show "sc_XXL s = sc_XXL t" using assms [of "''2xl''"] by (simp add: size_count_def canonical_sizes_def)
  show "sc_XXXL s = sc_XXXL t" using assms [of "''3xl''"] by (simp add: size_count_def canonical_sizes_def)
  show "size_counts.more s = size_counts.more t" by simp
qed

lemma size_add_known: "snd (size_add s sz) \<longleftrightarrow> sz \<in> set canonical_sizes"
  by (simp add: size_add_def canonical_sizes_def)

lemma size_cases:
  obtains "sz = ''small''" | "sz = ''medium''" | "sz = ''large''" | "sz = ''xl''" | "sz = ''2xl''"
  | "sz = ''3xl''" | "sz \<notin> set canonical_sizes"
  by (auto simp: canonical_sizes_def)

lemma size_add_unknown: "sz \<notin> set canonical_sizes \<Longrightarrow> size_add s sz = (s, False)"
  by (simp add: size_add_def canonical_sizes_def)

lemma size_count_add:
  "size_count (fst (size_add s sz)) sz' =
     size_count s sz' + (if sz' = sz \<and> sz \<in> set canonical_sizes then 1 else 0)"
proof (cases sz rule: size_cases)
  case 7
  then show ?thesis by (simp add: size_add_unknown)
qed (simp_all add: size_add_def size_count_def canonical_sizes_def)

lemma size_total_add:
  "size_total (fst (size_add s sz)) = size_total s + (if sz \<in> set canonical_sizes then 1 else 0)"
proof (cases sz rule: size_cases)
  case 7
  then show ?thesis by (simp add: size_add_unknown)
qed (simp_all add: size_add_def size_total_def canonical_sizes_def)

lemma size_count_zero [simp]: "size_count size_counts_zero sz = 0"
  by (simp add: size_count_def size_counts_zero_def)

lemma size_total_zero [simp]: "size_total size_counts_zero = 0"
  by (simp add: size_total_def size_counts_zero_def)

text \<open>A loop that tallies \<open>f x\<close> for every element counts the elements of each size.\<close>

lemma size_count_fold:
  "size_count (fold (\<lambda>x s. fst (size_add s (f x))) xs s) sz =
     size_count s sz
     + (if sz \<in> set canonical_sizes then int (length (filter (\<lambda>x. f x = sz) xs)) else 0)"
  by (induction xs arbitrary: s) (auto simp: size_count_add)

lemma size_total_fold:
  "size_total (fold (\<lambda>x s. fst (size_add s (f x))) xs s) =
     size_total s + int (length (filter (\<lambda>x. f x \<in> set canonical_sizes) xs))"
  by (induction xs arbitrary: s) (auto simp: size_total_add)

text \<open>Normalisation sees an answer only up to case and surrounding white space.\<close>

lemma normalize_size_cong:
  "to_lower (trim_space a) = to_lower (trim_space b) \<Longrightarrow> normalize_size a = normalize_size b"
  by (simp add: normalize_size_def)

lemma normalize_size_trim: "normalize_size (trim_space a) = normalize_size a"
  by (rule normalize_size_cong) simp

lemma normalize_size_canonical_iff:
  "normalize_size a \<in> set canonical_sizes \<longleftrightarrow>
     to_lower (trim_space a) \<in>
       {''s'', ''small'', ''m'', ''medium'', ''l'', ''large'', ''xl'', ''extra large'',
        ''2xl'', ''xxl'', ''3xl'', ''xxxl''}"
  by (auto simp: normalize_size_def canonical_sizes_def Let_def)

section \<open>Properties\<close>

text \<open>
  A tally built by adding the sizes of a list counts, under each canonical name, how often
  that name occurs; \<open>Add\<close> reports exactly the canonical names as known, and \<open>Total\<close> is the number
  of known sizes of the list.
\<close>

lemma size_tally:
  "(let s = fold (\<lambda>sz s. fst (size_add s sz)) xs size_counts_zero
    in size_count s sz = (if sz \<in> set canonical_sizes then int (count (mset xs) sz) else 0)
       \<and> size_total s = int (length (filter (\<lambda>sz. snd (size_add size_counts_zero sz)) xs)))"
proof -
  have "length (filter (\<lambda>x. x = sz) xs) = count (mset xs) sz"
    by (induction xs) auto
  then show ?thesis
    by (simp add: Let_def size_count_fold [where f = "\<lambda>x. x"] size_total_fold [where f = "\<lambda>x. x"] size_add_known)
qed

text \<open>
  Normalisation recognises exactly the twelve spellings, up to case and surrounding white
  space, leaves a canonical name as it is, and returns every other input trimmed and lowered.
\<close>

theorem normalize_size_spec:
  "(normalize_size a \<in> set canonical_sizes \<longleftrightarrow>
      to_lower (trim_space a) \<in>
        {''s'', ''small'', ''m'', ''medium'', ''l'', ''large'', ''xl'', ''extra large'',
         ''2xl'', ''xxl'', ''3xl'', ''xxxl''})
   \<and> map normalize_size canonical_sizes = canonical_sizes
   \<and> normalize_size (to_lower a) = normalize_size (to_lower (trim_space a))
   \<and> (if normalize_size a \<in> set canonical_sizes then True
      else normalize_size a = to_lower (trim_space a))"
proof -
  have "map normalize_size canonical_sizes = canonical_sizes" by code_simp
  moreover have "normalize_size (to_lower a) = normalize_size (to_lower (trim_space a))"
    by (rule normalize_size_cong) (simp add: trim_space_to_lower [symmetric])
  moreover have "if normalize_size a \<in> set canonical_sizes then True
      else normalize_size a = to_lower (trim_space a)"
    by (auto simp: normalize_size_def canonical_sizes_def Let_def)
  ultimately show ?thesis by (intro conjI normalize_size_canonical_iff)
qed

end
