(* ===== verification/Summary.thy ===== *)
theory Summary
  imports Sizes
begin

text \<open>
  \<open>internal/aggregate/summary.go\<close>: one pass over all tickets of all orders.

  \<open>summarise_ticket\<close> is the body of the inner loop, in the order of the source: count, strip
  the size off merchandise, tally the t-shirt answer, regroup free and discounted tickets,
  divide out VAT, add to the row of the group. Incomes are \<open>float64\<close>, added in payload order.
\<close>

section \<open>The model\<close>

definition SchemaVersion :: int where
  "SchemaVersion = 1"

definition GroupFree :: string where
  "GroupFree = ''Sponsors and other free tickets''"

definition GroupDiscounted :: string where
  "GroupDiscounted = ''Discounted''"

definition TShirtQuestion :: string where
  "TShirtQuestion = ''T-Shirt Size''"

record counts =
  counts_Orders :: int
  counts_Tickets :: int

record ticket_group =
  tg_Count :: int
  tg_IncomeExVAT :: float64

record summary =
  sum_SchemaVersion :: int
  sum_EventUUID :: string
  sum_Counts :: counts
  sum_OrdersByState :: "(string, int) gomap"
  sum_TicketGroups :: "(string, ticket_group) gomap"
  sum_TShirtSizes :: size_counts
  sum_Merch :: "(string, size_counts) gomap"

record options =
  opt_MerchNamePatterns :: "string list"
  opt_SponsorTicketTypePKs :: "int list"

definition ticket_group_zero :: ticket_group where
  "ticket_group_zero = \<lparr>tg_Count = 0, tg_IncomeExVAT = f64_zero\<rparr>"

fun matches_pattern :: "string \<Rightarrow> string list \<Rightarrow> bool" where
  "matches_pattern lower [] = False"
| "matches_pattern lower (pattern # patterns) =
     (if pattern \<noteq> [] \<and> contains lower pattern then True else matches_pattern lower patterns)"

text \<open>\<open>splitMerch\<close>: product, size, and whether the name is merchandise.\<close>

definition split_merch :: "string \<Rightarrow> string list \<Rightarrow> string \<times> string \<times> bool" where
  "split_merch name patterns =
     (if \<not> matches_pattern (to_lower name) patterns then (name, [], False)
      else
        let parts = split_on name '' - ''
        in if length parts < 2 then (name, [], True)
           else (trim_space (join (butlast parts) '' - ''), normalize_size (last parts), True))"

definition count_merch :: "string \<Rightarrow> string \<Rightarrow> summary \<Rightarrow> summary" where
  "count_merch name sz s =
     s\<lparr>sum_Merch := gm_put name (fst (size_add (gm_at size_counts_zero (sum_Merch s) name) sz))
         (sum_Merch s)\<rparr>"

definition count_tshirt :: "ticket \<Rightarrow> summary \<Rightarrow> summary" where
  "count_tshirt t s =
     (case answer_for t TShirtQuestion of
        None \<Rightarrow> s
      | Some answer \<Rightarrow>
          s\<lparr>sum_TShirtSizes :=
             fst (size_add (sum_TShirtSizes s) (normalize_size (first_choice answer)))\<rparr>)"

text \<open>The switch that moves free and discounted tickets to their synthetic groups.\<close>

definition regroup :: "float64 \<Rightarrow> float64 \<Rightarrow> string \<Rightarrow> string" where
  "regroup income price grp =
     (if f64_eq income f64_zero then GroupFree
      else if f64_lt income price then GroupDiscounted else grp)"

definition ex_vat :: "order \<Rightarrow> float64 \<Rightarrow> float64" where
  "ex_vat order income =
     (if \<not> order_VATExempt order
      then f64_div income (f64_add f64_one (order_VATRate order)) else income)"

definition count_row :: "string \<Rightarrow> float64 \<Rightarrow> summary \<Rightarrow> summary" where
  "count_row grp income s =
     (let row = gm_at ticket_group_zero (sum_TicketGroups s) grp
      in s\<lparr>sum_TicketGroups := gm_put grp
             (row\<lparr>tg_Count := tg_Count row + 1,
                  tg_IncomeExVAT := f64_add (tg_IncomeExVAT row) income\<rparr>)
             (sum_TicketGroups s)\<rparr>)"

definition summarise_ticket :: "options \<Rightarrow> order \<Rightarrow> ticket \<Rightarrow> summary \<Rightarrow> summary" where
  "summarise_ticket opts order t s =
     (let s = s\<lparr>sum_Counts := (sum_Counts s)\<lparr>counts_Tickets := counts_Tickets (sum_Counts s) + 1\<rparr>\<rparr>;
          grp = ticket_TicketTypeName t;
          (grp, s) =
            (case split_merch grp (opt_MerchNamePatterns opts) of
               (name, sz, isMerch) \<Rightarrow>
                 if isMerch then (name, if sz \<noteq> [] then count_merch name sz s else s)
                 else (grp, s));
          s = count_tshirt t s;
          income = amount_float (ticket_PriceTotal t);
          price = amount_float (ticket_Price t);
          grp = regroup income price grp;
          income = ex_vat order income
      in count_row grp income s)"

definition count_order :: "order \<Rightarrow> summary \<Rightarrow> summary" where
  "count_order order s =
     s\<lparr>sum_Counts := (sum_Counts s)\<lparr>counts_Orders := counts_Orders (sum_Counts s) + 1\<rparr>,
       sum_OrdersByState := gm_put (order_State order)
         (gm_at 0 (sum_OrdersByState s) (order_State order) + 1) (sum_OrdersByState s)\<rparr>"

definition summarise_order :: "options \<Rightarrow> order \<Rightarrow> summary \<Rightarrow> summary" where
  "summarise_order opts order s =
     fold (summarise_ticket opts order) (elems (order_Tickets order)) (count_order order s)"

definition summary_init :: "string \<Rightarrow> summary" where
  "summary_init uuid =
     \<lparr>sum_SchemaVersion = SchemaVersion, sum_EventUUID = uuid,
      sum_Counts = \<lparr>counts_Orders = 0, counts_Tickets = 0\<rparr>,
      sum_OrdersByState = Some [], sum_TicketGroups = Some [],
      sum_TShirtSizes = size_counts_zero, sum_Merch = Some []\<rparr>"

definition summarise :: "orders_response \<Rightarrow> options \<Rightarrow> summary" where
  "summarise resp opts =
     fold (summarise_order opts) (elems (resp_Orders resp)) (summary_init (resp_UUID resp))"

section \<open>Merchandise names\<close>

lemma matches_pattern_iff:
  "matches_pattern lower patterns \<longleftrightarrow> (\<exists>p \<in> set patterns. p \<noteq> [] \<and> contains lower p)"
  by (induction patterns) auto

text \<open>The group a ticket belongs to before regrouping, and the merchandise it tallies.\<close>

definition product_name :: "options \<Rightarrow> ticket \<Rightarrow> string" where
  "product_name opts t = fst (split_merch (ticket_TicketTypeName t) (opt_MerchNamePatterns opts))"

definition merch_size :: "options \<Rightarrow> ticket \<Rightarrow> string" where
  "merch_size opts t = fst (snd (split_merch (ticket_TicketTypeName t) (opt_MerchNamePatterns opts)))"

definition row_name :: "options \<Rightarrow> ticket \<Rightarrow> string" where
  "row_name opts t =
     regroup (amount_float (ticket_PriceTotal t)) (amount_float (ticket_Price t)) (product_name opts t)"

definition row_income :: "order \<Rightarrow> ticket \<Rightarrow> float64" where
  "row_income order t = ex_vat order (amount_float (ticket_PriceTotal t))"

lemma split_merch_not:
  "\<not> snd (snd (split_merch name ps)) \<Longrightarrow> split_merch name ps = (name, [], False)"
  by (auto simp: split_merch_def Let_def split: if_splits)

text \<open>The body of the inner loop, with the bookkeeping of groups and sizes named.\<close>

lemma summarise_ticket_alt:
  "summarise_ticket opts order t s =
     count_row (row_name opts t) (row_income order t)
       (count_tshirt t
         ((if merch_size opts t \<noteq> [] then count_merch (product_name opts t) (merch_size opts t) else id)
           (s\<lparr>sum_Counts := (sum_Counts s)\<lparr>counts_Tickets := counts_Tickets (sum_Counts s) + 1\<rparr>\<rparr>)))"
proof -
  obtain name sz m where sm: "split_merch (ticket_TicketTypeName t) (opt_MerchNamePatterns opts) = (name, sz, m)"
    by (cases "split_merch (ticket_TicketTypeName t) (opt_MerchNamePatterns opts)") auto
  have "\<not> m \<Longrightarrow> name = ticket_TicketTypeName t \<and> sz = []"
    using split_merch_not [of "ticket_TicketTypeName t" "opt_MerchNamePatterns opts"] sm by simp
  then show ?thesis
    by (cases m)
      (simp_all add: summarise_ticket_def Let_def sm row_name_def row_income_def product_name_def merch_size_def)
qed

section \<open>The passes over the payload\<close>

text \<open>The tickets of a payload, each with its order, in the order they are visited.\<close>

definition order_tickets :: "orders_response \<Rightarrow> (order \<times> ticket) list" where
  "order_tickets resp =
     concat (map (\<lambda>od. map (Pair od) (elems (order_Tickets od))) (elems (resp_Orders resp)))"

lemmas summary_steps = summarise_ticket_alt count_row_def count_tshirt_def count_merch_def Let_def

text \<open>
  Each component of the summary is computed by a loop of its own: over the orders for the
  counts of orders, over the tickets for the rest.
\<close>

lemma summary_component_tickets:
  assumes "\<And>od t s. p (summarise_ticket opts od t s) = g od t (p s)"
    and "\<And>od s. p (count_order od s) = p s"
  shows "p (summarise resp opts) =
    fold (\<lambda>(od, t). g od t) (order_tickets resp) (p (summary_init (resp_UUID resp)))"
proof -
  have "p (summarise_order opts od s) = fold (g od) (elems (order_Tickets od)) (p s)" for od s
    unfolding summarise_order_def
    using fold_project [where p = p and f = "summarise_ticket opts od" and g = "g od"] assms by metis
  then have "p (summarise resp opts) =
      fold (\<lambda>od. fold (g od) (elems (order_Tickets od))) (elems (resp_Orders resp))
        (p (summary_init (resp_UUID resp)))"
    unfolding summarise_def by (intro fold_project)
  then show ?thesis by (simp add: fold_nested order_tickets_def)
qed

lemma summary_component_orders:
  assumes "\<And>od t s. p (summarise_ticket opts od t s) = p s"
    and "\<And>od s. p (count_order od s) = g od (p s)"
  shows "p (summarise resp opts) =
    fold g (elems (resp_Orders resp)) (p (summary_init (resp_UUID resp)))"
proof -
  have "p (fold (summarise_ticket opts od) ts s) = p s" for od ts s
    by (induction ts arbitrary: s) (simp_all add: assms(1))
  then have "p (summarise_order opts od s) = g od (p s)" for od s
    by (simp add: summarise_order_def assms(2))
  then show ?thesis unfolding summarise_def by (rule fold_project)
qed

text \<open>The components.\<close>

lemma summarise_ticket_groups:
  "sum_TicketGroups (summarise resp opts) =
     fold (\<lambda>x m. gm_put (row_name opts (snd x))
         (let row = gm_at ticket_group_zero m (row_name opts (snd x))
          in row\<lparr>tg_Count := tg_Count row + 1,
                 tg_IncomeExVAT := f64_add (tg_IncomeExVAT row) (row_income (fst x) (snd x))\<rparr>) m)
       (order_tickets resp) (Some [])"
  by (subst summary_component_tickets [where p = sum_TicketGroups and g = "\<lambda>od t m.
        gm_put (row_name opts t)
         (let row = gm_at ticket_group_zero m (row_name opts t)
          in row\<lparr>tg_Count := tg_Count row + 1,
                 tg_IncomeExVAT := f64_add (tg_IncomeExVAT row) (row_income od t)\<rparr>) m"])
    (auto simp: summary_steps count_order_def summary_init_def case_prod_unfold split: option.splits)

lemma summarise_merch:
  "sum_Merch (summarise resp opts) =
     fold (\<lambda>x m. gm_put (product_name opts (snd x))
         (fst (size_add (gm_at size_counts_zero m (product_name opts (snd x))) (merch_size opts (snd x)))) m)
       (filter (\<lambda>x. merch_size opts (snd x) \<noteq> []) (order_tickets resp)) (Some [])"
proof -
  have "sum_Merch (summarise resp opts) =
     fold (\<lambda>(od, t) m. if merch_size opts t \<noteq> [] then gm_put (product_name opts t)
         (fst (size_add (gm_at size_counts_zero m (product_name opts t)) (merch_size opts t))) m else m)
       (order_tickets resp) (Some [])"
    by (subst summary_component_tickets [where p = sum_Merch and g = "\<lambda>od t m.
          if merch_size opts t \<noteq> [] then gm_put (product_name opts t)
         (fst (size_add (gm_at size_counts_zero m (product_name opts t)) (merch_size opts t))) m else m"])
      (auto simp: summary_steps count_order_def summary_init_def split: option.splits)
  then show ?thesis
    by (simp only: case_prod_unfold fold_if_filter)
qed

lemma summarise_states:
  "sum_OrdersByState (summarise resp opts) =
     fold (\<lambda>od m. gm_put (order_State od) (gm_at 0 m (order_State od) + 1) m) (elems (resp_Orders resp)) (Some [])"
  by (subst summary_component_orders [where p = sum_OrdersByState and g = "\<lambda>od m.
        gm_put (order_State od) (gm_at 0 m (order_State od) + 1) m"])
    (auto simp: summary_steps count_order_def summary_init_def split: option.splits)

definition tshirt_size :: "ticket \<Rightarrow> string" where
  "tshirt_size t =
     (case answer_for t TShirtQuestion of None \<Rightarrow> [] | Some a \<Rightarrow> normalize_size (first_choice a))"

lemma summarise_tshirts:
  "sum_TShirtSizes (summarise resp opts) =
     fold (\<lambda>x s. fst (size_add s (tshirt_size (snd x)))) (order_tickets resp) size_counts_zero"
  by (subst summary_component_tickets [where p = sum_TShirtSizes and g = "\<lambda>od t s.
        fst (size_add s (tshirt_size t))"])
    (auto simp: summary_steps count_order_def summary_init_def case_prod_unfold tshirt_size_def
      size_add_unknown canonical_sizes_def split: option.splits)

lemma summarise_counts:
  "counts_Orders (sum_Counts (summarise resp opts)) = int (length (elems (resp_Orders resp)))"
  "counts_Tickets (sum_Counts (summarise resp opts)) = int (length (order_tickets resp))"
proof -
  have len: "fold (\<lambda>x n. n + 1) xs (0::int) = int (length xs)" for xs :: "'a list"
    using fold_const_add [of "\<lambda>_. 1" xs 0] by (simp add: sum_list_triv)
  show "counts_Orders (sum_Counts (summarise resp opts)) = int (length (elems (resp_Orders resp)))"
    by (subst summary_component_orders [where p = "\<lambda>s. counts_Orders (sum_Counts s)" and g = "\<lambda>_ n. n + 1"])
      (auto simp: summary_steps count_order_def summary_init_def len split: option.splits)
  show "counts_Tickets (sum_Counts (summarise resp opts)) = int (length (order_tickets resp))"
    by (subst summary_component_tickets [where p = "\<lambda>s. counts_Tickets (sum_Counts s)" and g = "\<lambda>_ _ n. n + 1"])
      (auto simp: summary_steps count_order_def summary_init_def case_prod_unfold len split: option.splits)
qed

section \<open>What the components hold\<close>

lemma fold_row:
  "fold (\<lambda>x row. row\<lparr>tg_Count := tg_Count row + 1, tg_IncomeExVAT := f64_add (tg_IncomeExVAT row) (f x)\<rparr>)
     xs row =
   row\<lparr>tg_Count := tg_Count row + int (length xs),
       tg_IncomeExVAT := fold (\<lambda>x acc. f64_add acc (f x)) xs (tg_IncomeExVAT row)\<rparr>"
  by (induction xs arbitrary: row) simp_all

lemma groups_lookup:
  "gm_get (sum_TicketGroups (summarise resp opts)) g =
     (let xs = filter (\<lambda>x. row_name opts (snd x) = g) (order_tickets resp)
      in if xs = [] then None
         else Some \<lparr>tg_Count = int (length xs),
                    tg_IncomeExVAT = fold (\<lambda>x acc. f64_add acc (row_income (fst x) (snd x))) xs f64_zero\<rparr>)"
  unfolding summarise_ticket_groups
  by (subst gm.get_fold_upd_empty [where key = "\<lambda>x. row_name opts (snd x)" and z = ticket_group_zero
        and f = "\<lambda>x row. row\<lparr>tg_Count := tg_Count row + 1,
          tg_IncomeExVAT := f64_add (tg_IncomeExVAT row) (row_income (fst x) (snd x))\<rparr>"])
    (simp_all add: gm_at_def Let_def fold_row, simp add: ticket_group_zero_def)

lemma groups_sum:
  "gm_ok (sum_TicketGroups (summarise resp opts)) \<and>
   gm_sum tg_Count (sum_TicketGroups (summarise resp opts)) = int (length (order_tickets resp))"
proof -
  let ?step = "\<lambda>x m. gm_put (row_name opts (snd x))
         (let row = gm_at ticket_group_zero m (row_name opts (snd x))
          in row\<lparr>tg_Count := tg_Count row + 1,
                 tg_IncomeExVAT := f64_add (tg_IncomeExVAT row) (row_income (fst x) (snd x))\<rparr>) m"
  have "gm_ok m \<Longrightarrow> gm_ok (fold ?step xs m) \<and> gm_sum tg_Count (fold ?step xs m) = gm_sum tg_Count m + int (length xs)"
    for xs m
    by (induction xs arbitrary: m)
      (simp_all add: gm_simps gm_at_def Let_def ticket_group_zero_def split: option.splits)
  from this [of "Some []" "order_tickets resp"] show ?thesis
    unfolding summarise_ticket_groups by (simp add: gm_simps)
qed

lemma states_sum:
  "gm_ok (sum_OrdersByState (summarise resp opts)) \<and>
   gm_sum (\<lambda>n. n) (sum_OrdersByState (summarise resp opts)) = int (length (elems (resp_Orders resp)))"
proof -
  let ?step = "\<lambda>od m. gm_put (order_State od) (gm_at 0 m (order_State od) + 1) m"
  have "gm_ok m \<Longrightarrow> gm_ok (fold ?step xs m) \<and> gm_sum (\<lambda>n. n) (fold ?step xs m) = gm_sum (\<lambda>n. n) m + int (length xs)"
    for xs m
    by (induction xs arbitrary: m) (simp_all add: gm_simps gm_at_def split: option.splits)
  from this [of "Some []" "elems (resp_Orders resp)"] show ?thesis
    unfolding summarise_states by (simp add: gm_simps)
qed

lemma fold_incr: "fold (\<lambda>x n. n + 1) xs n = n + int (length xs)"
  by (induction xs arbitrary: n) auto

lemma states_lookup:
  "gm_get (sum_OrdersByState (summarise resp opts)) st =
     (let xs = filter (\<lambda>od. order_State od = st) (elems (resp_Orders resp))
      in if xs = [] then None else Some (int (length xs)))"
  unfolding summarise_states
  by (subst gm.get_fold_upd_empty [where key = order_State and z = 0 and f = "\<lambda>_ n. n + 1"])
    (simp_all add: gm_at_def Let_def fold_incr)

lemma merch_lookup:
  "gm_get (sum_Merch (summarise resp opts)) name =
     (let xs = filter (\<lambda>x. product_name opts (snd x) = name \<and> merch_size opts (snd x) \<noteq> []) (order_tickets resp)
      in if xs = [] then None
         else Some (fold (\<lambda>x s. fst (size_add s (merch_size opts (snd x)))) xs size_counts_zero))"
  unfolding summarise_merch
  by (subst gm.get_fold_upd_empty [where key = "\<lambda>x. product_name opts (snd x)" and z = size_counts_zero
        and f = "\<lambda>x s. fst (size_add s (merch_size opts (snd x)))"])
    (simp_all add: gm_at_def Let_def conj_commute)

lemma tshirts_count:
  "size_count (sum_TShirtSizes (summarise resp opts)) sz =
     (if sz \<in> set canonical_sizes
      then int (length (filter (\<lambda>x. tshirt_size (snd x) = sz) (order_tickets resp))) else 0)"
  by (simp add: summarise_tshirts size_count_fold)

lemma tshirts_total:
  "size_total (sum_TShirtSizes (summarise resp opts)) =
     int (length (filter (\<lambda>x. tshirt_size (snd x) \<in> set canonical_sizes) (order_tickets resp)))"
  by (simp add: summarise_tshirts size_total_fold)

lemma merch_ok: "gm_ok (sum_Merch (summarise resp opts))"
proof -
  have "gm_ok (fold (\<lambda>x m. gm_put (key x) (g x m) m) xs m)" if "gm_ok m"
    for key :: "order \<times> ticket \<Rightarrow> string" and g :: "order \<times> ticket \<Rightarrow> (string, size_counts) gomap \<Rightarrow> size_counts" and xs m
    using that by (induction xs arbitrary: m) simp_all
  then show ?thesis by (simp add: summarise_merch)
qed

lemma summarise_heading:
  "sum_SchemaVersion (summarise resp opts) = SchemaVersion"
  "sum_EventUUID (summarise resp opts) = resp_UUID resp"
proof -
  have idle: "fold (\<lambda>_ x. x) xs x = x" for xs :: "'a list" and x :: 'b
    by (induction xs) simp_all
  show "sum_SchemaVersion (summarise resp opts) = SchemaVersion"
    by (subst summary_component_orders [where p = sum_SchemaVersion and g = "\<lambda>_ x. x"])
      (auto simp: summary_steps count_order_def summary_init_def idle split: option.splits)
  show "sum_EventUUID (summarise resp opts) = resp_UUID resp"
    by (subst summary_component_orders [where p = sum_EventUUID and g = "\<lambda>_ x. x"])
      (auto simp: summary_steps count_order_def summary_init_def idle split: option.splits)
qed

section \<open>The order of the payload\<close>

text \<open>A summary with the incomes of its groups blanked: everything in it that is counted.\<close>

definition without_incomes :: "summary \<Rightarrow> summary" where
  "without_incomes s =
     s\<lparr>sum_TicketGroups := gm_map (\<lambda>row. row\<lparr>tg_IncomeExVAT := f64_zero\<rparr>) (sum_TicketGroups s)\<rparr>"

lemma without_incomes_simps [simp]:
  "sum_SchemaVersion (without_incomes s) = sum_SchemaVersion s"
  "sum_EventUUID (without_incomes s) = sum_EventUUID s"
  "sum_Counts (without_incomes s) = sum_Counts s"
  "sum_OrdersByState (without_incomes s) = sum_OrdersByState s"
  "sum_TicketGroups (without_incomes s) = gm_map (\<lambda>row. row\<lparr>tg_IncomeExVAT := f64_zero\<rparr>) (sum_TicketGroups s)"
  "sum_TShirtSizes (without_incomes s) = sum_TShirtSizes s"
  "sum_Merch (without_incomes s) = sum_Merch s"
  by (simp_all add: without_incomes_def)

lemma snd_order_tickets:
  "map snd (order_tickets resp) = concat (map (\<lambda>od. elems (order_Tickets od)) (elems (resp_Orders resp)))"
  by (simp add: order_tickets_def map_concat comp_def)

lemma length_filter_mset:
  assumes "mset (map f xs) = mset (map f ys)"
  shows "length (filter (\<lambda>x. P (f x)) xs) = length (filter (\<lambda>x. P (f x)) ys)"
proof -
  have "length (filter P (map f xs)) = length (filter P (map f ys))"
    using assms by (metis mset_filter size_mset)
  then show ?thesis by (simp add: filter_map comp_def)
qed

lemma filter_Nil_mset:
  "mset (map f xs) = mset (map f ys) \<Longrightarrow> filter (\<lambda>x. P (f x)) xs = [] \<longleftrightarrow> filter (\<lambda>x. P (f x)) ys = []"
  using length_filter_mset [of f xs ys P] by (simp only: flip: length_0_conv)

section \<open>Specification\<close>

text \<open>
  The specification of the REALIZED sheet: the row a ticket belongs to and the income it adds,
  read off the ticket and its order alone.
\<close>

definition group_spec :: "options \<Rightarrow> ticket \<Rightarrow> string" where
  "group_spec opts t =
     (if f64_eq (ticket_PriceTotal t) f64_zero then ''Sponsors and other free tickets''
      else if f64_lt (ticket_PriceTotal t) (ticket_Price t) then ''Discounted''
      else product_name opts t)"

definition income_spec :: "order \<Rightarrow> ticket \<Rightarrow> float64" where
  "income_spec od t =
     (if order_VATExempt od then ticket_PriceTotal t
      else f64_div (ticket_PriceTotal t) (f64_add f64_one (order_VATRate od)))"

lemma row_name_spec: "row_name opts t = group_spec opts t"
  by (simp add: row_name_def regroup_def group_spec_def amount_float_def GroupFree_def GroupDiscounted_def)

lemma row_income_spec: "row_income od t = income_spec od t"
  by (simp add: row_income_def ex_vat_def income_spec_def amount_float_def)

text \<open>A zero of either sign; sums and quotients of zeros are zeros.\<close>

definition f64_is_zero :: "float64 \<Rightarrow> bool" where
  "f64_is_zero x \<longleftrightarrow> (\<exists>s e. x = FFin s 0 e)"

lemma f64_eq_zero_iff: "f64_eq x f64_zero \<longleftrightarrow> f64_is_zero x"
  by (cases x) (auto simp: f64_zero_def f64_is_zero_def signed_mant_def Let_def)

lemma f64_is_zero_add: "f64_is_zero x \<Longrightarrow> f64_is_zero y \<Longrightarrow> f64_is_zero (f64_add x y)"
  by (auto simp: f64_is_zero_def signed_mant_def Let_def)

lemma f64_is_zero_div:
  assumes "f64_is_zero x" "y \<noteq> FNaN" "\<not> f64_is_zero y"
  shows "f64_is_zero (f64_div x y)"
  using assms by (cases y) (auto simp: f64_is_zero_def)

lemma f64_is_zero_fold:
  "(\<And>x. x \<in> set xs \<Longrightarrow> f64_is_zero (f x)) \<Longrightarrow> f64_is_zero z \<Longrightarrow>
     f64_is_zero (fold (\<lambda>x acc. f64_add acc (f x)) xs z)"
  by (induction xs arbitrary: z) (auto intro: f64_is_zero_add)

text \<open>A row of merchandise depends on the tickets only, in whatever order they come.\<close>

lemma merch_order_free:
  assumes "mset (map snd (order_tickets r1)) = mset (map snd (order_tickets r2))"
  shows "sum_Merch (summarise r1 opts) = sum_Merch (summarise r2 opts)"
proof (rule gm_get_eqI [OF merch_ok merch_ok])
  fix name
  let ?xs = "\<lambda>r. filter (\<lambda>x. product_name opts (snd x) = name \<and> merch_size opts (snd x) \<noteq> []) (order_tickets r)"
  let ?row = "\<lambda>r. fold (\<lambda>x s. fst (size_add s (merch_size opts (snd x)))) (?xs r) size_counts_zero"
  have nil: "?xs r1 = [] \<longleftrightarrow> ?xs r2 = []"
    by (rule filter_Nil_mset [OF assms, of "\<lambda>t. product_name opts t = name \<and> merch_size opts t \<noteq> []"])
  have "length (filter (\<lambda>x. merch_size opts (snd x) = sz) (?xs r1)) = length (filter (\<lambda>x. merch_size opts (snd x) = sz) (?xs r2))"
    for sz
    unfolding filter_filter
    by (rule length_filter_mset [OF assms, of "\<lambda>t. (product_name opts t = name \<and> merch_size opts t \<noteq> []) \<and> merch_size opts t = sz"])
  then have "?row r1 = ?row r2"
    by (intro size_counts_eqI) (simp only: size_count_fold)
  with nil show "gm_get (sum_Merch (summarise r1 opts)) name = gm_get (sum_Merch (summarise r2 opts)) name"
    by (simp only: merch_lookup Let_def)
qed

section \<open>Witness data\<close>

text \<open>Two orders: a full-price admission and a hoodie, and a free sponsor ticket.\<close>

definition sample_answer :: answer where
  "sample_answer = \<lparr>answer_QuestionHeading = '' T-Shirt Size'', answer_QuestionUUID = [],
     answer_Variation = [], answer_AnswerValue = [],
     answer_AnsweredChoices = Some [\<lparr>choice_ChoiceUUID = [], choice_ChoiceHeading = ''Extra Large ''\<rparr>]\<rparr>"

definition sample_ticket :: "string \<Rightarrow> string \<Rightarrow> amount \<Rightarrow> amount \<Rightarrow> ticket" where
  "sample_ticket name company list_price paid =
     \<lparr>ticket_ID = 1, ticket_UUID = [], ticket_PurchaseUUID = [], ticket_TicketTypePK = 183067,
      ticket_TicketTypeName = name, ticket_FirstName = ''Alfa'', ticket_LastName = ''Test'',
      ticket_FullName = ''Alfa Test'', ticket_Email = ''a@example.com'', ticket_CompanyName = company,
      ticket_Price = list_price, ticket_PriceTotal = paid, ticket_CheckedIn = False,
      ticket_TicketRefund = False,
      ticket_AnswerCollection = Some \<lparr>ac_UUID = [], ac_Answers = Some [sample_answer]\<rparr>\<rparr>"

definition sample_order :: "ticket list \<Rightarrow> order" where
  "sample_order ts =
     \<lparr>order_UUID = [], order_OrderID = [], order_Currency = ''DKK'', order_State = ''PAID'',
      order_Date = [], order_VATExempt = False, order_VATRate = FFin False (2 ^ 52) 1020,
      order_NewsLetter = False, order_PaymentMethod = [],
      order_Address = \<lparr>address_FirstName = [], address_LastName = [], address_Email = [],
        address_Phone = [], address_BusinessName = []\<rparr>,
      order_Discount = [], order_OrderLines = None, order_Tickets = Some ts\<rparr>"

definition sample_response :: orders_response where
  "sample_response =
     \<lparr>resp_UUID = ''event'',
      resp_Orders = Some
        [sample_order [sample_ticket ''Standard'' '' beta A/S'' (f64_of_int 1000) (f64_of_int 1000),
                       sample_ticket ''Hoodie Black - 2XL'' [] (f64_of_int 400) (f64_of_int 400)],
         sample_order [sample_ticket ''Sponsor'' ''Alpha A/S'' f64_zero f64_zero]]\<rparr>"

text \<open>The same tickets with the orders swapped, and the hoodie moved to the front of its order.\<close>

definition sample_permuted :: orders_response where
  "sample_permuted =
     \<lparr>resp_UUID = ''event'',
      resp_Orders = Some
        [sample_order [sample_ticket ''Sponsor'' ''Alpha A/S'' f64_zero f64_zero],
         sample_order [sample_ticket ''Hoodie Black - 2XL'' [] (f64_of_int 400) (f64_of_int 400),
                       sample_ticket ''Standard'' '' beta A/S'' (f64_of_int 1000) (f64_of_int 1000)]]\<rparr>"

definition sample_options :: options where
  "sample_options = \<lparr>opt_MerchNamePatterns = [''hoodie''], opt_SponsorTicketTypePKs = [183067]\<rparr>"

section \<open>Properties\<close>

text \<open>
  C1. The row of every group holds exactly the tickets the specification puts there: their
  number, and their incomes excluding VAT added as \<open>float64\<close> in payload order; a group no ticket
  belongs to has no row.
\<close>

theorem ticket_group_rows:
  "gm_get (sum_TicketGroups (summarise resp opts)) g =
     (let xs = filter (\<lambda>(od, t). group_spec opts t = g) (order_tickets resp)
      in if xs = [] then None
         else Some \<lparr>tg_Count = int (length xs),
                    tg_IncomeExVAT = fold (\<lambda>(od, t) acc. f64_add acc (income_spec od t)) xs f64_zero\<rparr>)"
  by (simp add: groups_lookup row_name_spec row_income_spec case_prod_unfold Let_def)

text \<open>
  C8. Nothing is lost or counted twice: the rows of the groups add up to the ticket total, the
  orders by state to the order total, and both totals are the sizes of the payload, whatever
  the state of an order.
\<close>

theorem summary_conserves_counts:
  "gm_sum tg_Count (sum_TicketGroups (summarise resp opts)) = counts_Tickets (sum_Counts (summarise resp opts))
   \<and> gm_sum (\<lambda>n. n) (sum_OrdersByState (summarise resp opts)) = counts_Orders (sum_Counts (summarise resp opts))
   \<and> counts_Tickets (sum_Counts (summarise resp opts))
       = (\<Sum>od\<leftarrow>elems (resp_Orders resp). int (length (elems (order_Tickets od))))
   \<and> counts_Orders (sum_Counts (summarise resp opts)) = int (length (elems (resp_Orders resp)))"
proof -
  have "int (length (concat (map f xs))) = (\<Sum>x\<leftarrow>xs. int (length (f x)))"
    for f :: "order \<Rightarrow> (order \<times> ticket) list" and xs
    by (induction xs) auto
  then have "int (length (order_tickets resp)) = (\<Sum>od\<leftarrow>elems (resp_Orders resp). int (length (elems (order_Tickets od))))"
    by (simp add: order_tickets_def)
  then show ?thesis
    using groups_sum [of resp opts] states_sum [of resp opts] by (simp add: summarise_counts)
qed

text \<open>\<open>orders_by_state\<close> maps each state that occurs to the number of orders in it.\<close>

theorem orders_by_state_counts:
  "gm_get (sum_OrdersByState (summarise resp opts)) st =
     (let n = length (filter (\<lambda>od. order_State od = st) (elems (resp_Orders resp)))
      in if n = 0 then None else Some (int n))"
  by (simp add: states_lookup Let_def)

text \<open>
  C6. A product has a merchandise row exactly when some ticket of it names a size, and the row
  counts, for every known size, the tickets of that product and size.
\<close>

theorem merch_tally:
  "(gm_get (sum_Merch (summarise resp opts)) name \<noteq> None \<longleftrightarrow>
      (\<exists>(od, t) \<in> set (order_tickets resp). product_name opts t = name \<and> merch_size opts t \<noteq> []))
   \<and> size_count (gm_at size_counts_zero (sum_Merch (summarise resp opts)) name) sz =
      (if sz \<in> set canonical_sizes
       then int (length (filter (\<lambda>(od, t). product_name opts t = name \<and> merch_size opts t = sz) (order_tickets resp)))
       else 0)"
proof -
  let ?xs = "filter (\<lambda>x. product_name opts (snd x) = name \<and> merch_size opts (snd x) \<noteq> []) (order_tickets resp)"
  have lookup: "gm_get (sum_Merch (summarise resp opts)) name =
     (if ?xs = [] then None
      else Some (fold (\<lambda>x s. fst (size_add s (merch_size opts (snd x)))) ?xs size_counts_zero))"
    by (simp add: merch_lookup Let_def)
  have "gm_at size_counts_zero (sum_Merch (summarise resp opts)) name
      = fold (\<lambda>x s. fst (size_add s (merch_size opts (snd x)))) ?xs size_counts_zero"
    by (auto simp: gm_at_def lookup)
  moreover have "sz \<in> set canonical_sizes \<Longrightarrow> sz \<noteq> []" by (auto simp: canonical_sizes_def)
  ultimately show ?thesis
    by (auto simp: lookup size_count_fold filter_empty_conv case_prod_unfold intro!: arg_cong [where f = length] filter_cong)
qed

text \<open>
  C7. The t-shirt tally counts, for every known size, the tickets whose first answer to the
  t-shirt question normalises to it; a ticket without the question or with any other answer is
  counted nowhere, so the tally never exceeds the number of tickets.
\<close>

theorem tshirt_tally:
  "size_count (sum_TShirtSizes (summarise resp opts)) sz =
     (if sz \<in> set canonical_sizes
      then int (length (filter (\<lambda>(od, t). \<exists>a. answer_for t ''T-Shirt Size'' = Some a
             \<and> normalize_size (first_choice a) = sz) (order_tickets resp)))
      else 0)
   \<and> size_total (sum_TShirtSizes (summarise resp opts)) \<le> counts_Tickets (sum_Counts (summarise resp opts))"
proof -
  have "tshirt_size t = sz \<longleftrightarrow> (\<exists>a. answer_for t ''T-Shirt Size'' = Some a \<and> normalize_size (first_choice a) = sz)"
    if "sz \<in> set canonical_sizes" for t
    using that by (auto simp: tshirt_size_def TShirtQuestion_def canonical_sizes_def split: option.splits)
  then show ?thesis
    by (auto simp: tshirts_count tshirts_total summarise_counts case_prod_unfold)
qed

text \<open>
  C36. The split of a merchandise name: nothing is split off a name no pattern matches; otherwise
  the size is what follows the last separator, normalised, and the product is what precedes it,
  trimmed; a name with no separator is the product, without a size.
\<close>

theorem split_merch_spec:
  "(if \<not> (\<exists>p \<in> set patterns. p \<noteq> [] \<and> contains (to_lower name) p)
    then split_merch name patterns = (name, [], False)
    else if \<not> contains name '' - '' then split_merch name patterns = (name, [], True)
    else \<exists>base suffix. name = base @ '' - '' @ suffix \<and> \<not> contains suffix '' - ''
           \<and> split_merch name patterns = (trim_space base, normalize_size suffix, True))"
proof -
  have m: "matches_pattern (to_lower name) patterns \<longleftrightarrow> (\<exists>p \<in> set patterns. p \<noteq> [] \<and> contains (to_lower name) p)"
    by (rule matches_pattern_iff)
  let ?parts = "split_on name '' - ''"
  have sep: "'' - '' \<noteq> []" by simp
  have "\<exists>base suffix. name = base @ '' - '' @ suffix \<and> \<not> contains suffix '' - ''
      \<and> split_merch name patterns = (trim_space base, normalize_size suffix, True)"
    if "matches_pattern (to_lower name) patterns" "contains name '' - ''"
  proof -
    have parts: "2 \<le> length ?parts" "\<not> contains (last ?parts) '' - ''"
      using split_on_last(2) [OF sep that(2)] by blast+
    have "?parts = butlast ?parts @ [last ?parts]" using parts(1) by simp
    moreover have "join (butlast ?parts @ [last ?parts]) '' - '' = join (butlast ?parts) '' - '' @ '' - '' @ last ?parts"
      using parts(1) by (intro join_snoc) (cases ?parts rule: rev_cases, auto)
    ultimately have "name = join (butlast ?parts) '' - '' @ '' - '' @ last ?parts"
      using join_split_on [OF sep, of name] by simp
    moreover have "split_merch name patterns =
        (trim_space (join (butlast ?parts) '' - ''), normalize_size (last ?parts), True)"
      using that(1) parts(1) by (simp add: split_merch_def Let_def)
    ultimately show ?thesis using parts(2) by blast
  qed
  then show ?thesis
    using m split_on_last(1) [OF sep, of name] by (auto simp: split_merch_def Let_def)
qed

text \<open>
  Complimentary tickets earn nothing: unless a ticket type carries the name of the synthetic
  group itself, the income of the free group is zero, provided dividing out VAT is defined
  (no order that pays VAT has a rate of -1 or NaN).
\<close>

theorem free_group_income_zero:
  assumes "\<forall>od \<in> set (elems (resp_Orders resp)). order_VATExempt od \<or>
      f64_add f64_one (order_VATRate od) \<noteq> FNaN \<and> \<not> f64_eq (f64_add f64_one (order_VATRate od)) f64_zero"
    and "\<forall>(od, t) \<in> set (order_tickets resp). product_name opts t \<noteq> GroupFree"
  shows "f64_eq (tg_IncomeExVAT (gm_at ticket_group_zero (sum_TicketGroups (summarise resp opts)) GroupFree)) f64_zero"
proof -
  have zero: "f64_is_zero (income_spec od t)"
    if "(od, t) \<in> set (order_tickets resp)" "group_spec opts t = GroupFree" for od t
  proof -
    have "product_name opts t \<noteq> GroupFree" using assms(2) that(1) by blast
    then have "f64_is_zero (ticket_PriceTotal t)"
      using that(2) by (auto simp: group_spec_def GroupFree_def f64_eq_zero_iff split: if_splits)
    moreover have "od \<in> set (elems (resp_Orders resp))"
      using that(1) by (auto simp: order_tickets_def)
    ultimately show ?thesis
      using assms(1) by (auto simp: income_spec_def f64_eq_zero_iff intro: f64_is_zero_div)
  qed
  have "f64_is_zero f64_zero" unfolding f64_is_zero_def f64_zero_def by blast
  then show ?thesis
    unfolding f64_eq_zero_iff gm_at_def groups_lookup Let_def row_name_spec row_income_spec
    using zero by (auto simp: ticket_group_zero_def intro!: f64_is_zero_fold)
qed

theorem free_group_income_zero_witness:
  "f64_eq (tg_IncomeExVAT (gm_at ticket_group_zero
     (sum_TicketGroups (summarise sample_response sample_options)) GroupFree)) f64_zero"
  by (rule free_group_income_zero) code_simp+

text \<open>
  C35. The order of the payload matters to nothing but the rounding of incomes: two payloads of the
  same event whose orders have the same states, in any order, and which hold the same tickets, in any
  order within their orders and between them, have the same summary, incomes excepted. In particular
  permuting the orders, and the tickets of each order, changes no group, state, product or size and
  none of their numbers.
\<close>

theorem summary_permutation:
  assumes "resp_UUID r1 = resp_UUID r2"
    and "mset (map order_State (elems (resp_Orders r1))) = mset (map order_State (elems (resp_Orders r2)))"
    and "mset (concat (map (\<lambda>od. elems (order_Tickets od)) (elems (resp_Orders r1))))
      = mset (concat (map (\<lambda>od. elems (order_Tickets od)) (elems (resp_Orders r2))))"
  shows "without_incomes (summarise r1 opts) = without_incomes (summarise r2 opts)"
proof (rule summary.equality)
  have mt: "mset (map snd (order_tickets r1)) = mset (map snd (order_tickets r2))"
    using assms(3) by (simp only: snd_order_tickets)
  note mp = length_filter_mset [OF mt] and ms = length_filter_mset [OF assms(2)]
  let ?s1 = "summarise r1 opts" and ?s2 = "summarise r2 opts"
  have "map_option (\<lambda>row. row\<lparr>tg_IncomeExVAT := f64_zero\<rparr>) (gm_get (sum_TicketGroups ?s1) g)
      = map_option (\<lambda>row. row\<lparr>tg_IncomeExVAT := f64_zero\<rparr>) (gm_get (sum_TicketGroups ?s2) g)" for g
    using filter_Nil_mset [OF mt, of "\<lambda>t. row_name opts t = g"] mp [of "\<lambda>t. row_name opts t = g"]
    by (simp only: groups_lookup Let_def) simp
  then show "sum_TicketGroups (without_incomes ?s1) = sum_TicketGroups (without_incomes ?s2)"
    using groups_sum by (intro gm_get_eqI) (simp_all add: gm_simps)
  have "gm_get (sum_OrdersByState ?s1) st = gm_get (sum_OrdersByState ?s2) st" for st
    using filter_Nil_mset [OF assms(2), of "\<lambda>x. x = st"] ms [of "\<lambda>x. x = st"]
    by (simp only: states_lookup Let_def)
  then show "sum_OrdersByState (without_incomes ?s1) = sum_OrdersByState (without_incomes ?s2)"
    using states_sum by (simp, intro gm_get_eqI) simp_all
  show "sum_TShirtSizes (without_incomes ?s1) = sum_TShirtSizes (without_incomes ?s2)"
    by (simp, rule size_counts_eqI) (simp add: tshirts_count mp [of "\<lambda>t. tshirt_size t = _"])
  show "sum_Merch (without_incomes ?s1) = sum_Merch (without_incomes ?s2)"
    by (simp add: merch_order_free [OF mt])
  show "sum_Counts (without_incomes ?s1) = sum_Counts (without_incomes ?s2)"
    using arg_cong [OF mt, of size] arg_cong [OF assms(2), of size]
    by (simp, intro counts.equality) (simp_all add: summarise_counts)
qed (simp_all add: assms(1) summarise_heading)

theorem summary_permutation_witness:
  "sum_Merch (summarise sample_response sample_options)
     = sum_Merch (summarise sample_permuted sample_options)
   \<and> resp_Orders sample_permuted \<noteq> map_option rev (resp_Orders sample_response)
   \<and> resp_Orders sample_permuted \<noteq> resp_Orders sample_response"
proof -
  have "without_incomes (summarise sample_response sample_options) = without_incomes (summarise sample_permuted sample_options)"
    by (rule summary_permutation) (simp_all add: sample_permuted_def sample_response_def sample_order_def)
  then have "sum_Merch (without_incomes (summarise sample_response sample_options))
      = sum_Merch (without_incomes (summarise sample_permuted sample_options))" by simp
  moreover have "resp_Orders sample_permuted \<noteq> map_option rev (resp_Orders sample_response)"
    "resp_Orders sample_permuted \<noteq> resp_Orders sample_response"
    by (simp_all add: sample_permuted_def sample_response_def sample_order_def sample_ticket_def)
  ultimately show ?thesis by simp
qed

end
