(* ===== verification/ValidText.thy ===== *)
theory ValidText
  imports JsonTokens Summary
begin

text \<open>
  UTF-8 is preserved: the encodings of runes are closed under concatenation and under the string
  operations of the service, and the strings the decoder unescapes are well-formed.
\<close>

section \<open>Strings of runes\<close>

lemma valid_utf8_iff: "valid_utf8 s \<longleftrightarrow> (\<exists>rs. (\<forall>r \<in> set rs. is_scalar r) \<and> s = encode_runes rs)"
proof
  assume "valid_utf8 s"
  then show "\<exists>rs. (\<forall>r \<in> set rs. is_scalar r) \<and> s = encode_runes rs"
    using runes_scalar [of _ s] by (intro exI [of _ "runes s"]) (auto simp: valid_utf8_def)
next
  assume "\<exists>rs. (\<forall>r \<in> set rs. is_scalar r) \<and> s = encode_runes rs"
  then show "valid_utf8 s" by (auto simp: valid_utf8_def runes_encode_runes)
qed

lemma valid_utf8_Nil [simp]: "valid_utf8 []"
  by (simp add: valid_utf8_ascii)

lemma valid_utf8_append: "valid_utf8 a \<Longrightarrow> valid_utf8 b \<Longrightarrow> valid_utf8 (a @ b)"
  unfolding valid_utf8_iff
proof (elim exE conjE)
  fix ra rb
  assume "\<forall>r \<in> set ra. is_scalar r" "a = encode_runes ra" "\<forall>r \<in> set rb. is_scalar r" "b = encode_runes rb"
  then show "\<exists>rs. (\<forall>r \<in> set rs. is_scalar r) \<and> a @ b = encode_runes rs"
    by (intro exI [of _ "ra @ rb"]) (auto simp: encode_runes_def)
qed

lemma valid_utf8_rune: "is_scalar r \<Longrightarrow> valid_utf8 (encode_rune r)"
  unfolding valid_utf8_iff by (intro exI [of _ "[r]"]) (simp add: encode_runes_def)

lemma valid_utf8_char: "byte c < 128 \<Longrightarrow> valid_utf8 s \<Longrightarrow> valid_utf8 (c # s)"
  using valid_utf8_append [of "[c]" s] valid_utf8_ascii [of "[c]"] by simp

text \<open>A byte of ASCII ends a rune and starts one.\<close>

lemma encode_rune_ascii:
  assumes "is_scalar r" "c \<in> set (encode_rune r)" "byte c < 128"
  shows "encode_rune r = [c]"
proof (cases "r < 128")
  case True
  then show ?thesis using assms encode_rune_small [of r] by (simp add: is_scalar_def)
next
  case False
  then show ?thesis using encode_rune_bytes [OF assms(1)] assms(2,3) by (auto simp: list_all_iff)
qed

lemma runes_cut:
  assumes "\<forall>r \<in> set rs. is_scalar r" "encode_runes rs = a @ c # b" "byte c < 128"
  shows "valid_utf8 a \<and> valid_utf8 b"
  using assms
proof (induction rs arbitrary: a)
  case (Cons r rs)
  have s: "encode_rune r @ encode_runes rs = a @ c # b" using Cons.prems(2) by (simp add: encode_runes_def)
  show ?case
  proof (cases "length (encode_rune r) \<le> length a")
    case True
    then obtain a' where a: "a = encode_rune r @ a'" "encode_runes rs = a' @ c # b"
      using s by (auto simp: append_eq_append_conv2)
    then have "valid_utf8 a' \<and> valid_utf8 b" using Cons.IH [OF _ a(2)] Cons.prems by simp
    then show ?thesis using a(1) valid_utf8_append valid_utf8_rune Cons.prems(1) by simp
  next
    case False
    then obtain b' where b: "encode_rune r = a @ c # b'" "b = b' @ encode_runes rs"
      using s by (auto simp: append_eq_append_conv2 append_eq_Cons_conv Cons_eq_append_conv)
    then have "encode_rune r = [c]" using encode_rune_ascii [of r c] Cons.prems by simp
    then have "a = []" "b' = []" using b(1) by (cases a; simp)+
    moreover have "valid_utf8 (encode_runes rs)" using Cons.prems(1) unfolding valid_utf8_iff by auto
    ultimately show ?thesis using b by simp
  qed
qed (simp add: encode_runes_def)

lemma valid_utf8_cut: "valid_utf8 (a @ c # b) \<Longrightarrow> byte c < 128 \<Longrightarrow> valid_utf8 a \<and> valid_utf8 b"
  using runes_cut [of "runes (a @ c # b)" a c b] runes_scalar unfolding valid_utf8_def by blast

lemma valid_utf8_segments: "valid_utf8 s \<longleftrightarrow> (\<forall>(r, bs) \<in> set (segments s). bs = encode_rune r)"
proof
  assume "valid_utf8 s"
  then have "segments s = map (\<lambda>r. (r, encode_rune r)) (runes s)"
    using segments_encode_runes [of "runes s"] runes_scalar unfolding valid_utf8_def by metis
  then show "\<forall>(r, bs) \<in> set (segments s). bs = encode_rune r" by auto
next
  assume h: "\<forall>(r, bs) \<in> set (segments s). bs = encode_rune r"
  have "s = concat (map snd (segments s))" by simp
  also have "map snd (segments s) = map encode_rune (runes s)" using h by (auto simp: runes_def)
  finally show "valid_utf8 s" by (simp add: valid_utf8_def encode_runes_def)
qed

lemma valid_utf8_trim: "valid_utf8 s \<Longrightarrow> valid_utf8 (trim_space s)"
proof -
  assume v: "valid_utf8 s"
  obtain a b where "segments s = a @ trim_ends (\<lambda>(r, bs). unicode_space r) (segments s) @ b"
    using trim_ends_infix by blast
  then have "set (segments (trim_space s)) \<subseteq> set (segments s)"
    unfolding segments_trim_space by (metis Un_upper1 Un_upper2 set_append subset_trans)
  with v show ?thesis unfolding valid_utf8_segments by blast
qed

lemma valid_utf8_literals: "valid_utf8 GroupFree" "valid_utf8 GroupDiscounted"
  by (simp_all add: GroupFree_def GroupDiscounted_def valid_utf8_ascii byte_def)

text \<open>The product of a merchandise name is what stands in front of its last separator.\<close>

lemma valid_utf8_product:
  assumes "valid_utf8 name"
  shows "valid_utf8 (fst (split_merch name ps))"
proof -
  let ?parts = "split_on name '' - ''"
  have "valid_utf8 (join (butlast ?parts) '' - '')" if "2 \<le> length ?parts"
  proof -
    have "butlast ?parts \<noteq> []" "?parts = butlast ?parts @ [last ?parts]" using that by (cases ?parts; auto)+
    then have "name = join (butlast ?parts) '' - '' @ '' - '' @ last ?parts"
      using join_split_on [of "'' - ''" name] join_snoc [of "butlast ?parts" "last ?parts" "'' - ''"] by simp
    with assms have "valid_utf8 (join (butlast ?parts) '' - '' @ CHR '' '' # ''- '' @ last ?parts)" by simp
    from valid_utf8_cut [OF this] show ?thesis by (simp add: byte_def)
  qed
  then have "2 \<le> length ?parts \<Longrightarrow> valid_utf8 (trim_space (join (butlast ?parts) '' - ''))" by (rule valid_utf8_trim)
  then show ?thesis
    unfolding split_merch_def Let_def using assms by (cases "matches_pattern (to_lower name) ps"; cases "length ?parts < 2") simp_all
qed

lemma valid_utf8_row: "valid_utf8 (ticket_TicketTypeName t) \<Longrightarrow> valid_utf8 (row_name opts t)"
  by (simp add: row_name_def regroup_def product_name_def valid_utf8_product valid_utf8_literals)

section \<open>Unescaped strings\<close>

lemma hex_val_bounds: "hex_val c = Some d \<Longrightarrow> 0 \<le> d \<and> d < 16"
  by (auto simp: hex_val_def digit_val_def split: option.splits if_splits)

lemma hex_digits_four:
  assumes "list_all (\<lambda>c. hex_val c \<noteq> None) [a, b, c, d]"
  shows "0 \<le> hex_digits [a, b, c, d] \<and> hex_digits [a, b, c, d] < 65536"
proof -
  obtain x y z u where "hex_val a = Some x" "hex_val b = Some y" "hex_val c = Some z" "hex_val d = Some u"
    using assms by auto
  then show ?thesis using hex_val_bounds [of a x] hex_val_bounds [of b y] hex_val_bounds [of c z] hex_val_bounds [of d u]
    by (simp add: hex_digits_def)
qed

lemma body_unicode:
  assumes "is_body InString (backslash # CHR ''u'' # es)"
  shows "\<exists>a b c d rest. es = a # b # c # d # rest \<and> list_all (\<lambda>c. hex_val c \<noteq> None) [a, b, c, d] \<and> is_body InString rest"
proof -
  have h: "is_body (InHex 3) es" using assms by (simp add: is_body_simps simple_escape_def)
  obtain a es1 where 1: "es = a # es1" "hex_val a \<noteq> None" "is_body (InHex 2) es1"
    using h by (cases es) (auto simp: is_body_simps numeral_3_eq_3 numeral_2_eq_2)
  obtain b es2 where 2: "es1 = b # es2" "hex_val b \<noteq> None" "is_body (InHex 1) es2"
    using 1(3) by (cases es1) (auto simp: is_body_simps numeral_2_eq_2)
  obtain c es3 where 3: "es2 = c # es3" "hex_val c \<noteq> None" "is_body (InHex 0) es3"
    using 2(3) by (cases es2) (auto simp: is_body_simps)
  obtain d es4 where 4: "es3 = d # es4" "hex_val d \<noteq> None" "is_body InString es4"
    using 3(3) by (cases es3) (auto simp: is_body_simps)
  show ?thesis using 1 2 3 4 by simp
qed

lemma simple_escape_ascii: "simple_escape e = Some x \<Longrightarrow> byte x < 128"
  by (auto simp: simple_escape_def split: if_splits) (simp_all add: byte_def)

lemma surrogate_pair_scalar: "surrogate_pair hi lo = Some p \<Longrightarrow> is_scalar p"
  by (auto simp: surrogate_pair_def is_scalar_def split: if_splits)

lemma body_rune:
  assumes "is_body InString (c # cs @ [quote_char])" "c \<noteq> quote_char" "c \<noteq> backslash" "decode_rune (c # cs) = (r, w)"
  shows "is_body InString (drop w (c # cs) @ [quote_char])"
proof -
  have one: "is_body InString (cs @ [quote_char])" using assms(1-3) by (simp add: is_body_simps)
  show ?thesis
  proof (cases "r = rune_error \<and> w = 1")
    case True
    then show ?thesis using one by simp
  next
    case False
    then have t: "take w (c # cs) = encode_rune r" using decode_rune_valid [OF assms(4)] by blast
    have r: "is_scalar r" using decode_rune_scalar [of "c # cs"] assms(4) by simp
    show ?thesis
    proof (cases "r < 128")
      case True
      then have "encode_rune r = [chr r]" using r by (intro encode_rune_small) (simp_all add: is_scalar_def)
      then have "w = 1" using t decode_rune_width [of c cs] assms(4) by (cases w; cases "w - 1"; auto)
      then show ?thesis using one by simp
    next
      case False
      then have "list_all (\<lambda>c. 128 \<le> byte c) (take w (c # cs))" unfolding t by (intro encode_rune_bytes r) simp
      from body_high [OF this, of "drop w (c # cs) @ [quote_char]"] assms(1) show ?thesis by (simp flip: append_assoc)
    qed
  qed
qed

text \<open>The escapes of a code unit: alone, half of a surrogate pair, or half without its partner.\<close>

lemma unquote_unit_valid:
  assumes IH: "\<And>b'. is_body InString (b' @ [quote_char]) \<Longrightarrow> length b' < length es \<Longrightarrow> valid_utf8 (unquote b')"
    and body: "is_body InString (backslash # CHR ''u'' # es @ [quote_char])"
  shows "valid_utf8 (unquote (backslash # CHR ''u'' # es))"
proof -
  obtain h1 h2 h3 h4 rest where es: "es @ [quote_char] = h1 # h2 # h3 # h4 # rest"
    "list_all (\<lambda>c. hex_val c \<noteq> None) [h1, h2, h3, h4]" "is_body InString rest"
    using body_unicode [OF body] by blast
  then obtain rest' where rest: "rest = rest' @ [quote_char]" "es = h1 # h2 # h3 # h4 # rest'"
    by (cases rest rule: rev_cases) (auto simp: is_body_simps)
  let ?r = "hex_digits [h1, h2, h3, h4]" and ?b = "backslash # CHR ''u'' # es"
  have r: "0 \<le> ?r" "?r < 65536" using hex_digits_four [OF es(2)] by auto
  have v: "valid_utf8 (unquote rest')" using es(3) by (intro IH) (simp_all add: rest)
  have parts: "take 4 es = [h1, h2, h3, h4]" "drop 4 es = rest'" by (simp_all add: rest(2))
  note eq = unquote.simps(2) [of backslash "CHR ''u'' # es", unfolded list.case if_P [OF refl] parts Let_def]
  have scalar: "is_scalar rune_error" by (simp add: is_scalar_def rune_error_def)
  consider "\<not> (55296 \<le> ?r \<and> ?r < 57344)"
    | "55296 \<le> ?r \<and> ?r < 57344" "(case next_escape rest' of None \<Rightarrow> None | Some lo \<Rightarrow> surrogate_pair ?r lo) = None"
    | p where "55296 \<le> ?r \<and> ?r < 57344" "(case next_escape rest' of None \<Rightarrow> None | Some lo \<Rightarrow> surrogate_pair ?r lo) = Some p"
    by (metis option.exhaust)
  then show ?thesis
  proof cases
    case 1
    then have "is_scalar ?r" using r by (auto simp: is_scalar_def)
    then show ?thesis using eq 1 v valid_utf8_append valid_utf8_rune by (simp del: unquote.simps)
  next
    case 2
    then have "unquote ?b = encode_rune rune_error @ unquote rest'" using eq by simp
    then show ?thesis using v valid_utf8_append valid_utf8_rune scalar by simp
  next
    case 3
    then obtain lo where lo: "next_escape rest' = Some lo" "surrogate_pair ?r lo = Some p" by (auto split: option.splits)
    then obtain r1 where r1: "rest' = backslash # CHR ''u'' # r1" unfolding next_escape_def
      by (cases rest'; cases "tl rest'") (auto split: if_splits)
    obtain k1 k2 k3 k4 r2 where k: "r1 @ [quote_char] = k1 # k2 # k3 # k4 # r2" "is_body InString r2"
      using body_unicode [of "r1 @ [quote_char]"] es(3) unfolding rest(1) r1 append_Cons by blast
    then obtain r2' where r2: "r2 = r2' @ [quote_char]" "r1 = k1 # k2 # k3 # k4 # r2'"
      by (cases r2 rule: rev_cases) (auto simp: is_body_simps)
    have "drop 6 rest' = r2'" by (simp add: r1 r2(2))
    moreover have "valid_utf8 (unquote r2')" using k(2) by (intro IH) (simp_all add: r2 rest r1)
    moreover have "unquote ?b = encode_rune p @ unquote (drop 6 rest')" using eq 3 by simp
    ultimately show ?thesis using valid_utf8_append valid_utf8_rune surrogate_pair_scalar [OF lo(2)] by simp
  qed
qed

lemma unquote_valid: "is_body InString (b @ [quote_char]) \<Longrightarrow> valid_utf8 (unquote b)"
proof (induction "length b" arbitrary: b rule: less_induct)
  case less
  have IH: "is_body InString (b' @ [quote_char]) \<Longrightarrow> length b' < length b \<Longrightarrow> valid_utf8 (unquote b')" for b' using less.hyps by blast
  show ?case
  proof (cases b)
    case (Cons c cs)
    have body: "is_body InString (c # cs @ [quote_char])" using less.prems by (simp add: Cons)
    show ?thesis
    proof (cases "c = backslash")
      case False
      obtain r w where d: "decode_rune (c # cs) = (r, w)" by fastforce
      have "c \<noteq> quote_char" using body by (auto simp: is_body_simps)
      then have "is_body InString (drop w (c # cs) @ [quote_char])" using body False d by (intro body_rune)
      moreover have "length (drop w (c # cs)) < length b" using decode_rune_width [of c cs] d by (simp add: Cons)
      ultimately have "valid_utf8 (unquote (drop w (c # cs)))" by (rule IH)
      then show ?thesis using valid_utf8_append valid_utf8_rune decode_rune_scalar [of "c # cs"] d False by (simp add: Cons)
    next
      case True
      obtain e es where cs: "cs = e # es" using body True by (cases cs) (auto simp: is_body_simps simple_escape_def)
      show ?thesis
      proof (cases "e = CHR ''u''")
        case False
        then have e: "simple_escape e \<noteq> None" "is_body InString (es @ [quote_char])"
          using body by (auto simp: True cs is_body_simps split: if_splits)
        then have "valid_utf8 (unquote es)" by (intro IH) (simp_all add: Cons cs)
        then show ?thesis using e(1) False simple_escape_ascii valid_utf8_char by (auto simp: Cons True cs)
      next
        case u: True
        have "is_body InString (backslash # CHR ''u'' # es @ [quote_char])" using body by (simp add: True cs u)
        then show ?thesis unfolding Cons True cs u by (intro unquote_unit_valid IH) (simp_all add: Cons cs)
      qed
    qed
  qed simp
qed

lemma unquote_string_valid: "is_string body \<Longrightarrow> valid_utf8 (unquote (butlast body))"
proof -
  assume b: "is_string body"
  have "is_body st b \<Longrightarrow> b \<noteq> [] \<and> last b = quote_char" for st b
  proof (induction b arbitrary: st)
    case (Cons c cs)
    then show ?case by (cases st) (auto simp: is_body_simps split: if_splits)
  qed (simp add: is_body_simps)
  then have "body \<noteq> [] \<and> last body = quote_char" using b by (simp add: is_string_def is_body_def)
  then have "body = butlast body @ [quote_char]" by (metis append_butlast_last_id)
  then show ?thesis using b unquote_valid [of "butlast body"] by (simp add: is_string_def is_body_def)
qed

end
