(* ===== verification/Sponsors.thy ===== *)
theory Sponsors
  imports Summary
begin

text \<open>
  \<open>internal/aggregate/sponsors.go\<close>: the community sponsors of a payload, one per company.

  The loop keeps the slice of sponsors and the set of company keys already seen.
  \<open>sort.Slice\<close> is not stable, and which order it leaves equal elements in is not documented, so
  \<open>sponsors_by\<close> takes the sorter as an argument; the locale \<open>slice_sorter\<close> is what the package
  promises. \<open>sponsors\<close> is the function at one sorter, and the main lemma of the locale says that
  every other sorter gives the same list.
\<close>

section \<open>Sorting a slice\<close>

fun insert_by :: "('a \<Rightarrow> 'a \<Rightarrow> bool) \<Rightarrow> 'a \<Rightarrow> 'a list \<Rightarrow> 'a list" where
  "insert_by lt x [] = [x]"
| "insert_by lt x (y # ys) = (if lt y x then y # insert_by lt x ys else x # y # ys)"

fun insertion_sort :: "('a \<Rightarrow> 'a \<Rightarrow> bool) \<Rightarrow> 'a list \<Rightarrow> 'a list" where
  "insertion_sort lt [] = []"
| "insertion_sort lt (x # xs) = insert_by lt x (insertion_sort lt xs)"

text \<open>A comparison by a key in a linear order, the only kind the service sorts by.\<close>

definition less_by :: "('a \<Rightarrow> 'k::linorder) \<Rightarrow> 'a \<Rightarrow> 'a \<Rightarrow> bool" where
  "less_by key x y \<longleftrightarrow> key x < key y"

lemma mset_insert_by: "mset (insert_by lt x xs) = add_mset x (mset xs)"
  by (induction xs) auto

lemma mset_insertion_sort: "mset (insertion_sort lt xs) = mset xs"
  by (induction xs) (simp_all add: mset_insert_by)

lemma sorted_insert_by:
  "sorted (map key xs) \<Longrightarrow> sorted (map key (insert_by (less_by key) x xs))"
proof (induction xs)
  case Nil
  then show ?case by simp
next
  case (Cons y ys)
  have "set (insert_by (less_by key) x ys) = insert x (set ys)"
    using mset_insert_by [of "less_by key" x ys] by (metis set_mset_add_mset_insert set_mset_mset)
  with Cons show ?case by (auto simp: less_by_def [of key y x])
qed

lemma sorted_insertion_sort: "sorted (map key (insertion_sort (less_by key) xs))"
  by (induction xs) (simp_all add: sorted_insert_by)

locale slice_sorter =
  fixes srt :: "('a \<Rightarrow> 'a \<Rightarrow> bool) \<Rightarrow> 'a list \<Rightarrow> 'a list"
    and key :: "'a \<Rightarrow> 'k::linorder"
  assumes sort_mset: "mset (srt (less_by key) xs) = mset xs"
    and sort_sorted: "sorted (map key (srt (less_by key) xs))"
begin

lemma sort_set: "set (srt (less_by key) xs) = set xs"
  by (metis set_mset_mset sort_mset)

lemma sort_eq_Nil: "srt (less_by key) xs = [] \<longleftrightarrow> xs = []"
  using sort_mset [of xs] by (metis mset_zero_iff)

lemma sort_distinct: "distinct (map key xs) \<Longrightarrow> sorted_wrt (<) (map key (srt (less_by key) xs))"
proof -
  assume "distinct (map key xs)"
  then have "distinct (map key (srt (less_by key) xs))"
    using sort_mset [of xs] by (metis mset_eq_imp_distinct_iff mset_map)
  then show ?thesis using sort_sorted [of xs] by (simp add: strict_sorted_iff)
qed

text \<open>With distinct keys the promise determines the result: there is one sorted arrangement.\<close>

lemma sort_unique:
  assumes "distinct (map key xs)" "mset ys = mset xs" "sorted (map key ys)"
  shows "ys = srt (less_by key) xs"
proof -
  let ?zs = "srt (less_by key) xs"
  have "set ys = set xs" using assms(2) by (metis set_mset_mset)
  then have set: "set ys = set ?zs" by (simp add: sort_set)
  have d: "distinct (map key ys)" "distinct (map key ?zs)"
    using assms sort_mset [of xs] by (metis mset_eq_imp_distinct_iff mset_map)+
  have inj: "inj_on key (set ys \<union> set ?zs)" using d(1) set by (simp add: distinct_map)
  show ?thesis
    by (rule map_sorted_distinct_set_unique [OF inj assms(3) d(1) sort_sorted d(2) set])
qed

end

section \<open>The model\<close>

record sponsor =
  sp_CompanyName :: string
  sp_Email :: string
  sp_FullName :: string
  sp_TicketTypePK :: int
  sp_TicketTypeName :: string

definition sponsor_of :: "ticket \<Rightarrow> sponsor" where
  "sponsor_of t =
     \<lparr>sp_CompanyName = ticket_CompanyName t, sp_Email = ticket_Email t,
      sp_FullName = ticket_FullName t, sp_TicketTypePK = ticket_TicketTypePK t,
      sp_TicketTypeName = ticket_TicketTypeName t\<rparr>"

definition company_key :: "ticket \<Rightarrow> string" where
  "company_key t = to_lower (trim_space (ticket_CompanyName t))"

text \<open>The body of the inner loop, on the sponsors so far and the keys seen.\<close>

definition sponsor_step :: "int set \<Rightarrow> ticket \<Rightarrow> sponsor slice \<times> string set \<Rightarrow> sponsor slice \<times> string set" where
  "sponsor_step wanted t st =
     (case st of (sponsors, seen) \<Rightarrow>
        if ticket_TicketTypePK t \<notin> wanted then (sponsors, seen)
        else
          let key = company_key t
          in if key = [] \<or> key \<in> seen then (sponsors, seen)
             else (slice_append sponsors (sponsor_of t), insert key seen))"

definition sponsor_key :: "sponsor \<Rightarrow> string" where
  "sponsor_key s = to_lower (sp_CompanyName s)"

interpretation ins: slice_sorter insertion_sort sponsor_key
  by unfold_locales (simp_all add: mset_insertion_sort sorted_insertion_sort)

definition sponsors_by ::
  "((sponsor \<Rightarrow> sponsor \<Rightarrow> bool) \<Rightarrow> sponsor list \<Rightarrow> sponsor list) \<Rightarrow> orders_response \<Rightarrow> options \<Rightarrow> sponsor slice" where
  "sponsors_by srt resp opts =
     (if opt_SponsorTicketTypePKs opts = [] then None
      else
        let wanted = set (opt_SponsorTicketTypePKs opts);
            (sponsors, seen) =
              fold (\<lambda>od. fold (sponsor_step wanted) (elems (order_Tickets od)))
                (elems (resp_Orders resp)) (None, {})
        in map_option (srt (less_by sponsor_key)) sponsors)"

definition sponsors :: "orders_response \<Rightarrow> options \<Rightarrow> sponsor slice" where
  "sponsors = sponsors_by insertion_sort"

section \<open>The loop\<close>

text \<open>The first ticket of every key, over the tickets that are candidates.\<close>

definition sponsor_candidate :: "int set \<Rightarrow> ticket \<Rightarrow> bool" where
  "sponsor_candidate wanted t \<longleftrightarrow> ticket_TicketTypePK t \<in> wanted \<and> company_key t \<noteq> []"

fun first_per_key :: "string set \<Rightarrow> ticket list \<Rightarrow> ticket list" where
  "first_per_key seen [] = []"
| "first_per_key seen (t # ts) =
     (if company_key t \<in> seen then first_per_key seen ts
      else t # first_per_key (insert (company_key t) seen) ts)"

definition candidates :: "orders_response \<Rightarrow> options \<Rightarrow> ticket list" where
  "candidates resp opts =
     filter (sponsor_candidate (set (opt_SponsorTicketTypePKs opts))) (map snd (order_tickets resp))"

lemma sponsor_loop:
  "fold (sponsor_step wanted) ts (sps, seen) =
     (let new = first_per_key seen (filter (sponsor_candidate wanted) ts)
      in (if new = [] then sps else Some (elems sps @ map sponsor_of new),
          seen \<union> company_key ` set new))"
proof (induction ts arbitrary: sps seen)
  case Nil
  then show ?case by simp
next
  case (Cons t ts)
  have step: "sponsor_step wanted t (sps, seen) =
      (if sponsor_candidate wanted t \<and> company_key t \<notin> seen
       then (Some (elems sps @ [sponsor_of t]), insert (company_key t) seen) else (sps, seen))"
    by (simp add: sponsor_step_def sponsor_candidate_def Let_def slice_append_def)
  show ?case
    by (simp add: step Cons.IH Let_def)
qed

lemma first_per_key_keys:
  "distinct (map company_key (first_per_key seen ts))"
  "company_key ` set (first_per_key seen ts) = company_key ` set ts - seen"
  by (induction seen ts rule: first_per_key.induct) auto

lemma first_per_key_subset: "set (first_per_key seen ts) \<subseteq> set ts"
  by (induction seen ts rule: first_per_key.induct) auto

lemma first_per_key_iff:
  "t \<in> set (first_per_key seen ts) \<longleftrightarrow>
     company_key t \<notin> seen \<and>
     (\<exists>pre post. ts = pre @ t # post \<and> company_key t \<notin> company_key ` set pre)"
proof (induction seen ts rule: first_per_key.induct)
  case (1 seen)
  then show ?case by simp
next
  case (2 seen u ts)
  have split: "(\<exists>pre post. u # ts = pre @ t # post \<and> company_key t \<notin> company_key ` set pre) \<longleftrightarrow>
      t = u \<or> (company_key u \<noteq> company_key t
        \<and> (\<exists>pre post. ts = pre @ t # post \<and> company_key t \<notin> company_key ` set pre))"
    by (auto simp: Cons_eq_append_conv) (metis image_insert insert_iff list.set(2))+
  show ?case
    unfolding split using 2 by auto
qed

lemma sponsors_by_alt:
  "sponsors_by srt resp opts =
     (let new = first_per_key {} (candidates resp opts)
      in if new = [] then None else Some (srt (less_by sponsor_key) (map sponsor_of new)))"
proof -
  have flat: "fold (\<lambda>od. fold (sponsor_step wanted) (elems (order_Tickets od))) (elems (resp_Orders resp)) st
      = fold (sponsor_step wanted) (map snd (order_tickets resp)) st" for wanted st
    by (simp add: fold_nested order_tickets_def fold_map comp_def case_prod_unfold)
  show ?thesis
  proof (cases "opt_SponsorTicketTypePKs opts = []")
    case True
    then show ?thesis
      by (simp add: sponsors_by_def candidates_def sponsor_candidate_def)
  next
    case False
    then show ?thesis
      unfolding sponsors_by_def flat sponsor_loop by (simp add: candidates_def Let_def)
  qed
qed

text \<open>Sponsors with different company keys have different sort keys.\<close>

lemma sponsor_key_of: "sponsor_key (sponsor_of t) = to_lower (ticket_CompanyName t)"
  by (simp add: sponsor_key_def sponsor_of_def)

lemma sponsor_keys_distinct:
  "distinct (map sponsor_key (map sponsor_of (first_per_key seen ts)))"
proof -
  have "inj_on (\<lambda>t. sponsor_key (sponsor_of t)) (set (first_per_key seen ts))"
  proof (rule inj_onI)
    fix t u
    assume t: "t \<in> set (first_per_key seen ts)" and u: "u \<in> set (first_per_key seen ts)"
      and eq: "sponsor_key (sponsor_of t) = sponsor_key (sponsor_of u)"
    have "company_key t = company_key u"
      unfolding company_key_def by (rule to_lower_trim_eq) (use eq in \<open>simp only: sponsor_key_of\<close>)
    then show "t = u"
      using first_per_key_keys(1) [of seen ts] t u by (meson distinct_map inj_onD)
  qed
  moreover have "distinct (first_per_key seen ts)"
    using first_per_key_keys(1) [of seen ts] by (simp add: distinct_map)
  ultimately show ?thesis by (simp only: map_map distinct_map comp_def)
qed

lemma sponsors_alt:
  "sponsors resp opts =
     (let new = first_per_key {} (candidates resp opts)
      in if new = [] then None
         else Some (insertion_sort (less_by sponsor_key) (map sponsor_of new)))"
  by (simp add: sponsors_def sponsors_by_alt)

lemma first_per_key_empty: "first_per_key {} ts = [] \<longleftrightarrow> ts = []"
  by (cases ts) auto

section \<open>Properties\<close>

text \<open>
  C5. The sponsors are exactly the first candidate tickets of their companies: a ticket counts
  when its type is configured and its company name is not blank, and a later ticket of the same
  company (up to case and surrounding space) is skipped. Without a candidate, hence also without
  configured types, the slice is nil.
\<close>

theorem sponsors_first_of_company:
  "(s \<in> set (elems (sponsors resp opts)) \<longleftrightarrow>
     (\<exists>pre t post. candidates resp opts = pre @ t # post
        \<and> company_key t \<notin> company_key ` set pre \<and> s = sponsor_of t))
   \<and> (sponsors resp opts = None \<longleftrightarrow> candidates resp opts = [])"
proof -
  have "set (elems (sponsors resp opts)) = sponsor_of ` set (first_per_key {} (candidates resp opts))"
    by (simp add: sponsors_alt Let_def ins.sort_set)
  then have "s \<in> set (elems (sponsors resp opts)) \<longleftrightarrow>
      (\<exists>t. t \<in> set (first_per_key {} (candidates resp opts)) \<and> s = sponsor_of t)" by blast
  moreover have "sponsors resp opts = None \<longleftrightarrow> candidates resp opts = []"
    by (simp add: sponsors_alt Let_def first_per_key_empty)
  ultimately show ?thesis unfolding first_per_key_iff by blast
qed

text \<open>
  C33. One row per company in a stable order: the lower-case company names are strictly
  increasing, no two rows have the same name up to case and surrounding space, and every
  candidate's company has its row.
\<close>

theorem sponsors_sorted_unique:
  "sorted_wrt (<) (map (\<lambda>s. to_lower (sp_CompanyName s)) (elems (sponsors resp opts)))
   \<and> distinct (map (\<lambda>s. to_lower (trim_space (sp_CompanyName s))) (elems (sponsors resp opts)))
   \<and> (\<lambda>s. to_lower (trim_space (sp_CompanyName s))) ` set (elems (sponsors resp opts))
       = company_key ` set (candidates resp opts)"
proof -
  let ?new = "first_per_key {} (candidates resp opts)"
  let ?sp = "map sponsor_of ?new"
  let ?key = "\<lambda>s. to_lower (trim_space (sp_CompanyName s))"
  have el: "elems (sponsors resp opts) = insertion_sort (less_by sponsor_key) ?sp"
    by (simp add: sponsors_alt Let_def)
  have key: "?key (sponsor_of t) = company_key t" for t
    by (simp add: sponsor_of_def company_key_def)
  have "sponsor_key = (\<lambda>s. to_lower (sp_CompanyName s))"
    by (simp add: fun_eq_iff sponsor_key_def)
  with ins.sort_distinct [OF sponsor_keys_distinct, of "{}" "candidates resp opts"]
  have 1: "sorted_wrt (<) (map (\<lambda>s. to_lower (sp_CompanyName s)) (elems (sponsors resp opts)))"
    unfolding el by metis
  have "distinct (map ?key ?sp)"
    using first_per_key_keys(1) [of "{}"] by (simp add: comp_def key)
  then have 2: "distinct (map ?key (elems (sponsors resp opts)))"
    unfolding el by (metis ins.sort_mset mset_eq_imp_distinct_iff mset_map)
  have "?key ` set (elems (sponsors resp opts)) = company_key ` set ?new"
    unfolding el ins.sort_set by (simp add: image_image key)
  with first_per_key_keys(2) [of "{}"] 1 2 show ?thesis by simp
qed

text \<open>
  C34. The instability of \<open>sort.Slice\<close> cannot be seen: any function that permutes its slice
  into order gives the same sponsors.
\<close>

theorem sponsors_any_sorter:
  assumes "\<forall>xs. mset (srt (less_by sponsor_key) xs) = mset xs
      \<and> sorted (map sponsor_key (srt (less_by sponsor_key) xs))"
  shows "sponsors_by srt resp opts = sponsors resp opts"
proof -
  have "srt (less_by sponsor_key) (map sponsor_of (first_per_key {} ts))
      = insertion_sort (less_by sponsor_key) (map sponsor_of (first_per_key {} ts))" for ts
    using assms by (intro ins.sort_unique sponsor_keys_distinct) simp_all
  then show ?thesis by (simp add: sponsors_def sponsors_by_alt Let_def)
qed

text \<open>The premise holds of a sorter that reverses its slice first, and so leaves equal keys in the other order.\<close>

theorem sponsors_any_sorter_witness:
  "sponsors_by (\<lambda>lt xs. insertion_sort lt (rev xs)) sample_response sample_options
     = sponsors sample_response sample_options"
  by (rule sponsors_any_sorter) (simp add: mset_insertion_sort sorted_insertion_sort)

end
