(* ===== verification/JsonParse.thy ===== *)
theory JsonParse
  imports JsonCompact GoErrors
begin

text \<open>
  The two ways a JSON text is parsed as a whole: \<open>Decoder.Decode\<close>, which reads one value from the
  start of a stream and whose input may end early or in an error, and the check of a raw message,
  all of which must be one value. The text of a syntax error names its kind only.
\<close>

definition max_depth :: int where
  "max_depth = 10000"

text \<open>A number, string or literal at the very end is complete only when the stream ends there.\<close>

fun composite :: "parsed \<Rightarrow> bool" where
  "composite (PArr r vs) = True"
| "composite (PObj r kvs) = True"
| "composite v = False"

text \<open>\<open>err\<close> is the error after the bytes of the stream, if it does not end.\<close>

definition json_parse :: "string \<Rightarrow> goerr option \<Rightarrow> goerr + parsed" where
  "json_parse bytes err =
     (case scan_value max_depth (skip_space bytes) of
        Scanned v rest \<Rightarrow>
          (case err of
             Some e \<Rightarrow> if rest = [] \<and> \<not> composite v then Inl e else Inr v
           | None \<Rightarrow> Inr v)
      | Short \<Rightarrow>
          (case err of
             Some e \<Rightarrow> Inl e
           | None \<Rightarrow> Inl (ErrText (if skip_space bytes = [] then ''EOF'' else ''unexpected EOF'')))
      | Bad \<Rightarrow> Inl (ErrText ''invalid character in JSON''))"

definition raw_error :: "string \<Rightarrow> string option" where
  "raw_error s =
     (case scan_value max_depth (skip_space s) of
        Scanned v rest \<Rightarrow> if skip_space rest = [] then None else Some ''invalid character after top-level value''
      | Short \<Rightarrow> Some ''unexpected end of JSON input''
      | Bad \<Rightarrow> Some ''invalid character in JSON'')"

lemma skip_spaces: "spaces w \<Longrightarrow> skip_space w = []"
  by (induction w) (auto simp: skip_space_def)

lemma skip_space_Nil: "skip_space s = [] \<Longrightarrow> spaces s"
  by (simp add: skip_space_def list_all_iff)

text \<open>What can be parsed is one value of the grammar, with spaces in front of it.\<close>

lemma json_parse_text:
  assumes "json_parse bytes err = Inr v"
  shows "value_text max_depth (raw v) v"
  using assms scan_value_text unfolding json_parse_def by (auto split: scanned.splits option.splits if_splits)

lemma json_parse_value:
  assumes "value_text max_depth p v" "spaces w" "delim t" "composite v \<or> err = None"
  shows "json_parse (w @ p @ t) err = Inr v"
proof -
  have "scan_value max_depth (p @ t) = Scanned v t" by (rule scan_complete(1) [OF assms(1,3)])
  moreover obtain c q where "p = c # q" "\<not> is_space c" using value_text_starts [OF assms(1)] by blast
  then have "skip_space (w @ p @ t) = p @ t" using assms(2) by (simp add: skip_space_append)
  ultimately show ?thesis using assms(4) by (auto simp: json_parse_def split: option.split)
qed

lemma raw_error_None:
  "raw_error s = None \<longleftrightarrow> (\<exists>w p w' v. s = w @ p @ w' \<and> spaces w \<and> spaces w' \<and> value_text max_depth p v)"
proof
  assume "raw_error s = None"
  then obtain v rest where v: "scan_value max_depth (skip_space s) = Scanned v rest" "skip_space rest = []"
    by (auto simp: raw_error_def split: scanned.splits if_splits)
  have "skip_space s = raw v @ rest" "value_text max_depth (raw v) v" using scan_value_text [OF v(1)] by blast+
  moreover have "s = takeWhile is_space s @ skip_space s" by (simp add: skip_space_def)
  moreover have "spaces (takeWhile is_space s)" by (auto simp: list_all_iff dest: set_takeWhileD)
  ultimately show "\<exists>w p w' v. s = w @ p @ w' \<and> spaces w \<and> spaces w' \<and> value_text max_depth p v"
    using skip_space_Nil [OF v(2)] by metis
next
  assume "\<exists>w p w' v. s = w @ p @ w' \<and> spaces w \<and> spaces w' \<and> value_text max_depth p v"
  then obtain w p w' v where h: "s = w @ p @ w'" "spaces w" "spaces w'" "value_text max_depth p v" by blast
  obtain c q where "p = c # q" "\<not> is_space c" using value_text_starts [OF h(4)] by blast
  then have "skip_space s = p @ w'" using h(1,2) by (simp add: skip_space_append)
  moreover have "delim w'" using h(3) by (cases w') (simp_all add: delim_space)
  then have "scan_value max_depth (p @ w') = Scanned v w'" by (rule scan_complete(1) [OF h(4)])
  ultimately show "raw_error s = None" by (simp add: raw_error_def skip_spaces [OF h(3)])
qed

text \<open>A valid raw message is compacted to a text of the grammar that is compact.\<close>

lemma raw_compact:
  assumes "raw_error s = None"
  shows "\<exists>v. value_text max_depth (compact_json Outside s) v"
    and "compact_json Outside (compact_json Outside s) = compact_json Outside s"
proof -
  obtain w p w' v where h: "s = w @ p @ w'" "spaces w" "spaces w'" "value_text max_depth p v"
    using assms by (auto simp: raw_error_None)
  have c: "compact_json Outside s = compact_json Outside p"
    using spaces_text [OF h(2)] spaces_text [OF h(3)] compact_text(1) [OF h(4)] by (simp add: h(1) chunk_compact)
  show "\<exists>v. value_text max_depth (compact_json Outside s) v" unfolding c using compact_text(1) [OF h(4)] by blast
  show "compact_json Outside (compact_json Outside s) = compact_json Outside s"
    unfolding c using compact_text(1) [OF h(4)] by (simp add: chunk_def)
qed

lemma raw_error_compact:
  assumes "raw_error s = None"
  shows "raw_error (compact_json Outside s) = None" "compact_json Outside s \<noteq> []"
proof -
  obtain v where v: "value_text max_depth (compact_json Outside s) v" using raw_compact(1) [OF assms] by blast
  then show "compact_json Outside s \<noteq> []" using value_text_starts by force
  show "raw_error (compact_json Outside s) = None"
    unfolding raw_error_None by (rule exI [of _ "[]"], rule exI [of _ "compact_json Outside s"]) (use v in auto)
qed

end
