(* ===== verification/Json.thy ===== *)
theory Json
  imports Sponsors GoTime JsonTokens JsonParse
begin

text \<open>
  The JSON values of the service's types, by the tags of their fields, as \<open>encoding/json\<close> builds
  them: a struct is an object with its fields in order, a map an object with its keys sorted, a nil
  slice or pointer is null. A time is kept as its wall clock reading, a raw message as its text.
  The encoder checks a value and prints it, or reports the first part it refuses.
\<close>

datatype json =
  JNull
| JBool bool
| JInt int
| JNum float64
| JStr string
| JTime int
| JRaw string
| JArr "json list"
| JObj "(string \<times> json) list"

text \<open>
  The text of a value. Times are printed as RFC 3339 text, raw messages are compacted, and HTML is
  escaped in every string.
\<close>

fun json_print :: "json \<Rightarrow> string" where
  "json_print JNull = ''null''"
| "json_print (JBool b) = (if b then ''true'' else ''false'')"
| "json_print (JInt n) = itoa n"
| "json_print (JNum x) = float_text x"
| "json_print (JStr s) = json_quote s"
| "json_print (JTime t) = quote_char # time_text t @ [quote_char]"
| "json_print (JRaw s) = compact_json Outside s"
| "json_print (JArr vs) = CHR ''['' # join (map json_print vs) '','' @ '']''"
| "json_print (JObj kvs) = CHR ''{'' # join (map (\<lambda>(k, v). json_quote k @ CHR '':'' # json_print v) kvs) '','' @ ''}''"

text \<open>
  The encoder refuses numbers that are not finite, times before the year 0 or after 9999 and raw
  messages that are not JSON, wherever they are.
\<close>

fun json_ok :: "json \<Rightarrow> bool" where
  "json_ok (JNum x) = f64_finite x"
| "json_ok (JTime t) = time_writable t"
| "json_ok (JRaw s) = (raw_error s = None)"
| "json_ok (JArr vs) = list_all json_ok vs"
| "json_ok (JObj kvs) = list_all (\<lambda>(k, v). json_ok v) kvs"
| "json_ok _ = True"

text \<open>The error about the first such part, in the order of the output.\<close>

fun json_bad :: "json \<Rightarrow> string option"
  and json_bads :: "json list \<Rightarrow> string option"
  and json_bad_fields :: "(string \<times> json) list \<Rightarrow> string option" where
  "json_bad (JNum x) = (if f64_finite x then None else Some (''json: unsupported value: '' @ format_fixed2 x))"
| "json_bad (JTime t) =
     (if time_writable t then None
      else Some ''json: error calling MarshalJSON for type time.Time: Time.MarshalJSON: year outside of range [0,9999]'')"
| "json_bad (JRaw s) =
     map_option (\<lambda>e. ''json: error calling MarshalJSON for type json.RawMessage: '' @ e) (raw_error s)"
| "json_bad (JArr vs) = json_bads vs"
| "json_bad (JObj kvs) = json_bad_fields kvs"
| "json_bad JNull = None"
| "json_bad (JBool b) = None"
| "json_bad (JInt n) = None"
| "json_bad (JStr s) = None"
| "json_bads [] = None"
| "json_bads (v # vs) = (case json_bad v of Some e \<Rightarrow> Some e | None \<Rightarrow> json_bads vs)"
| "json_bad_fields [] = None"
| "json_bad_fields (kv # kvs) =
     (case kv of (k, v) \<Rightarrow> (case json_bad v of Some e \<Rightarrow> Some e | None \<Rightarrow> json_bad_fields kvs))"

lemma json_bad_None:
  "json_bad v = None \<longleftrightarrow> json_ok v"
  "json_bads vs = None \<longleftrightarrow> list_all json_ok vs"
  "json_bad_fields kvs = None \<longleftrightarrow> list_all (\<lambda>(k, v). json_ok v) kvs"
  by (induction v and vs and kvs rule: json_bad_json_bads_json_bad_fields.induct)
    (auto split: option.splits)

text \<open>What \<open>json.Marshal\<close> and \<open>Encoder.Encode\<close> go through: the value to print, or the error.\<close>

definition json_marshal :: "json \<Rightarrow> goerr + json" where
  "json_marshal v = (case json_bad v of Some e \<Rightarrow> Inl (ErrText e) | None \<Rightarrow> Inr v)"

lemma isl_json_marshal: "isl (json_marshal v) \<longleftrightarrow> \<not> json_ok v"
  using json_bad_None(1) [of v] by (auto simp: json_marshal_def split: option.splits)

definition json_slice :: "('a \<Rightarrow> json) \<Rightarrow> 'a slice \<Rightarrow> json" where
  "json_slice f xs = (case xs of None \<Rightarrow> JNull | Some ys \<Rightarrow> JArr (map f ys))"

definition json_option :: "('a \<Rightarrow> json) \<Rightarrow> 'a option \<Rightarrow> json" where
  "json_option f x = (case x of None \<Rightarrow> JNull | Some y \<Rightarrow> f y)"

definition json_map :: "('a \<Rightarrow> json) \<Rightarrow> (string, 'a) gomap \<Rightarrow> json" where
  "json_map f m =
     (case m of None \<Rightarrow> JNull | Some ps \<Rightarrow> JObj (map (\<lambda>(k, v). (k, f v)) ps))"

definition json_time :: "gotime \<Rightarrow> json" where
  "json_time t = JTime (t_wall t)"

section \<open>Aggregates\<close>

definition json_size_counts :: "size_counts \<Rightarrow> json" where
  "json_size_counts s =
     JObj [(''small'', JInt (sc_Small s)), (''medium'', JInt (sc_Medium s)), (''large'', JInt (sc_Large s)),
           (''xl'', JInt (sc_XL s)), (''2xl'', JInt (sc_XXL s)), (''3xl'', JInt (sc_XXXL s))]"

definition json_counts :: "counts \<Rightarrow> json" where
  "json_counts c = JObj [(''orders'', JInt (counts_Orders c)), (''tickets'', JInt (counts_Tickets c))]"

definition json_ticket_group :: "ticket_group \<Rightarrow> json" where
  "json_ticket_group g = JObj [(''count'', JInt (tg_Count g)), (''income_ex_vat'', JNum (tg_IncomeExVAT g))]"

definition json_summary_fields :: "summary \<Rightarrow> (string \<times> json) list" where
  "json_summary_fields s =
     [(''schema_version'', JInt (sum_SchemaVersion s)), (''event_uuid'', JStr (sum_EventUUID s)),
      (''counts'', json_counts (sum_Counts s)), (''orders_by_state'', json_map JInt (sum_OrdersByState s)),
      (''ticket_groups'', json_map json_ticket_group (sum_TicketGroups s)),
      (''tshirt_sizes'', json_size_counts (sum_TShirtSizes s)),
      (''merch'', json_map json_size_counts (sum_Merch s))]"

definition json_sponsor :: "sponsor \<Rightarrow> json" where
  "json_sponsor s =
     JObj [(''company_name'', JStr (sp_CompanyName s)), (''email'', JStr (sp_Email s)),
           (''full_name'', JStr (sp_FullName s)), (''ticket_type_pk'', JInt (sp_TicketTypePK s)),
           (''ticket_type_name'', JStr (sp_TicketTypeName s))]"

section \<open>The payload\<close>

text \<open>The value of \<open>MarshalJSON\<close>: a string of the amount with two decimals.\<close>

definition json_amount :: "amount \<Rightarrow> json" where
  "json_amount a = JStr (format_fixed2 (amount_float a))"

definition json_choice :: "choice \<Rightarrow> json" where
  "json_choice c =
     JObj [(''choice_uuid'', JStr (choice_ChoiceUUID c)), (''choice_heading'', JStr (choice_ChoiceHeading c))]"

definition json_answer :: "answer \<Rightarrow> json" where
  "json_answer a =
     JObj [(''question_heading'', JStr (answer_QuestionHeading a)), (''question_uuid'', JStr (answer_QuestionUUID a)),
           (''variation'', JStr (answer_Variation a)), (''answer_value'', JStr (answer_AnswerValue a)),
           (''answered_choices'', json_slice json_choice (answer_AnsweredChoices a))]"

definition json_answer_collection :: "answer_collection \<Rightarrow> json" where
  "json_answer_collection ac =
     JObj [(''uuid'', JStr (ac_UUID ac)), (''answers'', json_slice json_answer (ac_Answers ac))]"

definition json_ticket :: "ticket \<Rightarrow> json" where
  "json_ticket t =
     JObj [(''id'', JInt (ticket_ID t)), (''uuid'', JStr (ticket_UUID t)),
           (''purchase_uuid'', JStr (ticket_PurchaseUUID t)),
           (''ticket_type_pk'', JInt (ticket_TicketTypePK t)), (''ticket_type_name'', JStr (ticket_TicketTypeName t)),
           (''first_name'', JStr (ticket_FirstName t)), (''last_name'', JStr (ticket_LastName t)),
           (''full_name'', JStr (ticket_FullName t)), (''email'', JStr (ticket_Email t)),
           (''company_name'', JStr (ticket_CompanyName t)),
           (''price'', json_amount (ticket_Price t)), (''price_total'', json_amount (ticket_PriceTotal t)),
           (''checked_in'', JBool (ticket_CheckedIn t)), (''ticket_refund'', JBool (ticket_TicketRefund t)),
           (''ticket_answer_collection'', json_option json_answer_collection (ticket_AnswerCollection t))]"

definition json_order_line :: "order_line \<Rightarrow> json" where
  "json_order_line l =
     JObj [(''uuid'', JStr (ol_UUID l)), (''title'', JStr (ol_Title l)), (''type'', JStr (ol_Type l)),
           (''quantity'', JInt (ol_Quantity l)), (''price'', json_amount (ol_Price l)),
           (''total'', json_amount (ol_Total l)), (''discount_total'', json_option json_amount (ol_DiscountTotal l)),
           (''amount_of_refunded_tickets'', JInt (ol_AmountOfRefundedTickets l)),
           (''ticket_description'', json_option JStr (ol_TicketDescription l)),
           (''ticket_type_date'', JStr (ol_TicketTypeDate l)),
           (''has_ticket_type_date'', JBool (ol_HasTicketTypeDate l))]"

definition json_address :: "address \<Rightarrow> json" where
  "json_address a =
     JObj [(''first_name'', JStr (address_FirstName a)), (''last_name'', JStr (address_LastName a)),
           (''email'', JStr (address_Email a)), (''phone'', JStr (address_Phone a)),
           (''business_name'', JStr (address_BusinessName a))]"

text \<open>\<open>discount\<close> is left out when it is empty.\<close>

definition json_order :: "order \<Rightarrow> json" where
  "json_order od =
     JObj ([(''uuid'', JStr (order_UUID od)), (''order_id'', JStr (order_OrderID od)),
            (''currency'', JStr (order_Currency od)), (''state'', JStr (order_State od)),
            (''date'', JStr (order_Date od)), (''vat_exempt'', JBool (order_VATExempt od)),
            (''vat_rate'', JNum (order_VATRate od)), (''news_letter'', JBool (order_NewsLetter od)),
            (''payment_method'', JStr (order_PaymentMethod od)), (''address'', json_address (order_Address od))]
       @ (if order_Discount od = [] then [] else [(''discount'', JRaw (order_Discount od))])
       @ [(''order_lines'', json_slice json_order_line (order_OrderLines od)),
          (''tickets'', json_slice json_ticket (order_Tickets od))])"

definition json_orders_response :: "orders_response \<Rightarrow> json" where
  "json_orders_response r =
     JObj [(''uuid'', JStr (resp_UUID r)), (''orders'', json_slice json_order (resp_Orders r))]"

section \<open>Which values the encoder accepts\<close>

text \<open>
  Of all fields only the VAT rate of an order and the income of a group are numbers that may not be
  finite, only the discount of an order is a raw message, and only the fetch has a time.
\<close>

lemma json_ok_slice: "json_ok (json_slice f xs) \<longleftrightarrow> list_all (\<lambda>x. json_ok (f x)) (elems xs)"
  by (cases xs) (simp_all add: json_slice_def list.pred_map comp_def)

lemma json_ok_option: "json_ok (json_option f x) \<longleftrightarrow> (case x of None \<Rightarrow> True | Some y \<Rightarrow> json_ok (f y))"
  by (cases x) (simp_all add: json_option_def)

lemma json_ok_map: "json_ok (json_map f m) \<longleftrightarrow> list_all (\<lambda>(k, v). json_ok (f v)) (elems m)"
  by (cases m) (simp_all add: json_map_def list.pred_map comp_def case_prod_unfold)

lemma json_ok_sizes: "json_ok (json_size_counts s)"
  by (simp add: json_size_counts_def)

lemma list_all_True: "(\<And>x. P x) \<Longrightarrow> list_all P xs"
  by (simp add: list_all_iff)

lemma json_ok_plain:
  "json_ok (json_choice c)" "json_ok (json_amount a)" "json_ok (json_address ad)" "json_ok (json_sponsor sp)"
  by (simp_all add: json_choice_def json_amount_def json_address_def json_sponsor_def)

lemma json_ok_answer: "json_ok (json_answer a)"
  by (simp add: json_answer_def json_ok_slice list_all_True json_ok_plain)

lemma json_ok_ticket: "json_ok (json_ticket t)"
  by (simp add: json_ticket_def json_ok_plain json_ok_option json_answer_collection_def json_ok_slice
      list_all_True json_ok_answer split: option.split)

lemma json_ok_order_line: "json_ok (json_order_line l)"
  by (simp add: json_order_line_def json_ok_plain json_ok_option split: option.split)

definition order_writable :: "order \<Rightarrow> bool" where
  "order_writable od \<longleftrightarrow> f64_finite (order_VATRate od) \<and> (order_Discount od = [] \<or> raw_error (order_Discount od) = None)"

lemma json_ok_order: "json_ok (json_order od) \<longleftrightarrow> order_writable od"
  by (auto simp: json_order_def order_writable_def json_ok_plain json_ok_slice list_all_True json_ok_ticket json_ok_order_line)

lemma json_ok_orders_response:
  "json_ok (json_orders_response r) \<longleftrightarrow> list_all order_writable (elems (resp_Orders r))"
  by (simp add: json_orders_response_def json_ok_slice json_ok_order)

lemma json_ok_summary:
  "json_ok (JObj (json_summary_fields s)) \<longleftrightarrow>
     list_all (\<lambda>(k, g). f64_finite (tg_IncomeExVAT g)) (elems (sum_TicketGroups s))"
  by (simp add: json_summary_fields_def json_counts_def json_ok_map json_ok_sizes json_ticket_group_def
      case_prod_unfold list_all_True)

end
