(* ===== verification/JsonText.thy ===== *)
theory JsonText
  imports Json
begin

text \<open>
  The text the encoder prints against the scanner of the decoder: the printed text of a value is a
  text of the grammar, and what the scanner delivers for it is the tree of the value. Strings lose
  bytes that are not UTF-8, and a raw message is read in its compacted form.
\<close>

section \<open>The tree of a value\<close>

definition raw_tree :: "string \<Rightarrow> parsed" where
  "raw_tree s = (case scan_value max_depth (compact_json Outside s) of Scanned v rest \<Rightarrow> v | _ \<Rightarrow> PNull)"

fun parsed_of :: "json \<Rightarrow> parsed" where
  "parsed_of JNull = PNull"
| "parsed_of (JBool b) = PBool b"
| "parsed_of (JInt n) = PNum (itoa n)"
| "parsed_of (JNum x) = PNum (float_text x)"
| "parsed_of (JStr s) = PStr (json_quote s) (encode_runes (runes s))"
| "parsed_of (JTime t) = PStr (json_print (JTime t)) (time_text t)"
| "parsed_of (JRaw s) = raw_tree s"
| "parsed_of (JArr vs) = PArr (json_print (JArr vs)) (map parsed_of vs)"
| "parsed_of (JObj kvs) = PObj (json_print (JObj kvs)) (map (\<lambda>(k, v). (encode_runes (runes k), parsed_of v)) kvs)"

text \<open>
  What is printed can be scanned again when it nests no deeper than the scanner allows, the raw
  messages included.
\<close>

definition raw_fits :: "int \<Rightarrow> string \<Rightarrow> bool" where
  "raw_fits d s \<longleftrightarrow> (case scan_value d (compact_json Outside s) of Scanned v rest \<Rightarrow> rest = [] | _ \<Rightarrow> False)"

fun printable :: "int \<Rightarrow> json \<Rightarrow> bool" where
  "printable d JNull = True"
| "printable d (JBool b) = True"
| "printable d (JInt n) = True"
| "printable d (JNum x) = (f64_ok x \<and> f64_finite x)"
| "printable d (JStr s) = True"
| "printable d (JTime t) = True"
| "printable d (JRaw s) = raw_fits d s"
| "printable d (JArr vs) = (0 < d \<and> list_all (printable (d - 1)) vs)"
| "printable d (JObj kvs) = (0 < d \<and> list_all (\<lambda>(k, v). printable (d - 1) v) kvs)"

section \<open>Printed texts are of the grammar\<close>

lemma join_comma_Cons: "join (x # y # ys) '','' = x @ CHR '','' # join (y # ys) '',''"
  by simp

lemma elems_text_join:
  assumes "list_all (\<lambda>v. value_text d (json_print v) (parsed_of v)) (v # vs)"
  shows "elems_text d (join (map json_print (v # vs)) '','' @ '']'') (map parsed_of (v # vs))"
  using assms
proof (induction vs arbitrary: v)
  case Nil
  have "elems_text d ([] @ json_print v @ [] @ '']'') [parsed_of v]" using Nil by (intro last_elem) simp_all
  then show ?case by simp
next
  case (Cons v' vs)
  have "elems_text d ([] @ json_print v @ [] @ CHR '','' # (join (map json_print (v' # vs)) '','' @ '']''))
      (parsed_of v # map parsed_of (v' # vs))"
    using Cons.prems by (intro more_elems Cons.IH) simp_all
  then show ?case by simp
qed

definition member_print :: "string \<times> json \<Rightarrow> string" where
  "member_print = (\<lambda>(k, v). json_quote k @ CHR '':'' # json_print v)"

definition member_tree :: "string \<times> json \<Rightarrow> string \<times> parsed" where
  "member_tree = (\<lambda>(k, v). (encode_runes (runes k), parsed_of v))"

lemma members_text_join:
  assumes "list_all (\<lambda>kv. value_text d (json_print (snd kv)) (parsed_of (snd kv))) (kv # kvs)"
  shows "members_text d (join (map member_print (kv # kvs)) '','' @ ''}'') (map member_tree (kv # kvs))"
  using assms
proof (induction kvs arbitrary: kv)
  case Nil
  obtain k v where kv: "kv = (k, v)" by fastforce
  obtain body where b: "json_quote k = quote_char # body" "is_string body" "unquote (butlast body) = encode_runes (runes k)"
    using json_quote_text by blast
  have "members_text d ([] @ quote_char # body @ [] @ CHR '':'' # [] @ json_print v @ [] @ ''}'') [(unquote (butlast body), parsed_of v)]"
    using Nil kv b by (intro last_member) simp_all
  then show ?case by (simp add: kv b member_print_def member_tree_def)
next
  case (Cons kv' kvs)
  obtain k v where kv: "kv = (k, v)" by fastforce
  obtain body where b: "json_quote k = quote_char # body" "is_string body" "unquote (butlast body) = encode_runes (runes k)"
    using json_quote_text by blast
  have IH: "members_text d (join (map member_print (kv' # kvs)) '','' @ ''}'') (map member_tree (kv' # kvs))"
    using Cons.prems by (intro Cons.IH) simp
  have "members_text d ([] @ quote_char # body @ [] @ CHR '':'' # [] @ json_print v @ [] @ CHR '','' # (join (map member_print (kv' # kvs)) '','' @ ''}''))
      ((unquote (butlast body), parsed_of v) # map member_tree (kv' # kvs))"
    using Cons.prems kv b by (intro more_members IH) simp_all
  moreover have "member_print kv = quote_char # body @ CHR '':'' # json_print v" "member_tree kv = (unquote (butlast body), parsed_of v)"
    by (simp_all add: kv b member_print_def member_tree_def)
  ultimately show ?case by simp
qed

lemma raw_tree_text:
  assumes "raw_fits d s" "d \<le> max_depth"
  shows "value_text d (compact_json Outside s) (raw_tree s)"
proof -
  obtain v where v: "scan_value d (compact_json Outside s) = Scanned v []"
    using assms(1) by (auto simp: raw_fits_def split: scanned.splits)
  then have t: "value_text d (compact_json Outside s) v" using scan_value_text [OF v] by simp
  from scan_complete(1) [OF text_deeper(1) [OF t assms(2)], of "[]"] have "raw_tree s = v" by (simp add: raw_tree_def)
  with t show ?thesis by simp
qed

lemma raw_raw_tree:
  assumes "raw_error s = None"
  shows "raw (raw_tree s) = compact_json Outside s"
proof -
  obtain v where t: "value_text max_depth (compact_json Outside s) v" using raw_compact(1) [OF assms] by blast
  from scan_complete(1) [OF t, of "[]"] have "raw_tree s = v" by (simp add: raw_tree_def)
  with value_text_raw [OF t] show ?thesis by simp
qed

lemma json_print_text:
  "printable d v \<Longrightarrow> d \<le> max_depth \<Longrightarrow> value_text d (json_print v) (parsed_of v)"
proof (induction d v rule: printable.induct)
  case (4 d x)
  then show ?case using is_number_float [of x] by (simp add: number_text)
next
  case (7 d s)
  then show ?case using raw_tree_text [of d s] by simp
next
  case (8 d vs)
  show ?case
  proof (cases vs)
    case Nil
    then show ?thesis using 8(2) empty_array_text [of d "[]"] by simp
  next
    case (Cons w ws)
    have "list_all (\<lambda>v. value_text (d - 1) (json_print v) (parsed_of v)) vs"
      using 8 by (auto simp: list_all_iff)
    then have "elems_text (d - 1) (join (map json_print vs) '','' @ '']'') (map parsed_of vs)"
      unfolding Cons by (rule elems_text_join)
    then show ?thesis using array_text [of d] 8(2) by simp
  qed
next
  case (9 d kvs)
  show ?case
  proof (cases kvs)
    case Nil
    then show ?thesis using 9(2) empty_object_text [of d "[]"] by simp
  next
    case (Cons w ws)
    have "list_all (\<lambda>kv. value_text (d - 1) (json_print (snd kv)) (parsed_of (snd kv))) kvs"
      using 9 by (force simp: list_all_iff)
    then have "members_text (d - 1) (join (map member_print kvs) '','' @ ''}'') (map member_tree kvs)"
      unfolding Cons by (rule members_text_join)
    then show ?thesis using object_text [of d] 9(2) by (simp add: member_print_def member_tree_def)
  qed
next
  case (1 d)
  then show ?case by (simp add: null_text)
next
  case (2 d b)
  then show ?case by (simp add: true_text false_text)
next
  case (3 d n)
  then show ?case by (simp add: number_text is_number_itoa)
next
  case (5 d s)
  obtain body where "json_quote s = quote_char # body" "is_string body" "unquote (butlast body) = encode_runes (runes s)"
    using json_quote_text by blast
  then show ?case using string_text [of body d] by simp
next
  case (6 d t)
  obtain body where b: "json_quote (time_text t) = quote_char # body" "is_string body" "unquote (butlast body) = encode_runes (runes (time_text t))"
    using json_quote_text by blast
  have "encode_runes (runes (time_text t)) = time_text t"
    using valid_utf8_ascii [of "time_text t"] plain_time [of t] by (auto simp: valid_utf8_def list_all_iff plain_char_def)
  then show ?case using string_text [of body d] b time_quote [of t] by simp
qed

text \<open>The decoder gets the tree of the value from the text the encoder wrote, the line break after it included.\<close>

theorem json_parse_print:
  assumes "printable max_depth v" "composite (parsed_of v)"
  shows "json_parse (json_print v @ [chr 10]) err = Inr (parsed_of v)"
proof -
  have "delim [chr 10]" by code_simp
  from json_parse_value [OF json_print_text [OF assms(1) order_refl], of "[]" "[chr 10]" err] this assms(2)
  show ?thesis by simp
qed

end
