(* ===== verification/JsonRead.thy ===== *)
theory JsonRead
  imports JsonText
begin

text \<open>
  Reading back what was written: what decoding the tree of a JSON value yields for each type of the
  service. Amounts come back with two decimals and raw messages compacted; everything else comes
  back as it was.
\<close>

section \<open>Values that are read back as they are\<close>

text \<open>Integers of 64 bits, strings of UTF-8, finite floats and everything else the encoder accepts.\<close>

fun readable :: "json \<Rightarrow> bool" where
  "readable (JInt n) = is_int64 n"
| "readable (JNum x) = (f64_ok x \<and> f64_finite x)"
| "readable (JStr s) = valid_utf8 s"
| "readable (JTime t) = time_writable t"
| "readable (JRaw s) = (raw_error s = None)"
| "readable (JArr vs) = list_all readable vs"
| "readable (JObj kvs) = list_all (\<lambda>(k, v). valid_utf8 k \<and> readable v) kvs"
| "readable _ = True"

lemma readable_ok: "readable v \<Longrightarrow> json_ok v"
  by (induction v rule: readable.induct) (auto simp: list_all_iff)

lemma parsed_object:
  "readable (JObj kvs) \<Longrightarrow>
     parsed_of (JObj kvs) = PObj (json_print (JObj kvs)) (map (\<lambda>(k, v). (k, parsed_of v)) kvs)"
  by (auto simp: list_all_iff valid_utf8_def)

lemma unmarshal_json_struct:
  "readable (JObj kvs) \<Longrightarrow>
     unmarshal_struct dec (parsed_of (JObj kvs)) = dec (map (\<lambda>(k, v). (k, parsed_of v)) kvs)"
  by (simp only: parsed_object) (simp add: unmarshal_struct_def)

lemma unmarshal_json_kinds [simp]:
  "valid_utf8 s \<Longrightarrow> unmarshal_string (parsed_of (JStr s)) = Inr s"
  "unmarshal_bool (parsed_of (JBool b)) = Inr b"
  "is_int64 n \<Longrightarrow> unmarshal_int (parsed_of (JInt n)) = Inr n"
  "f64_ok x \<Longrightarrow> f64_finite x \<Longrightarrow> unmarshal_float (parsed_of (JNum x)) = Inr x"
  by (simp_all add: unmarshal_string_def unmarshal_bool_def unmarshal_int_def unmarshal_float_def valid_utf8_def
      atoi_itoa is_int64_def int64_min_def int64_max_def parse_float_text)

lemma unmarshal_json_slice:
  assumes "\<And>x. x \<in> set (elems xs) \<Longrightarrow> dec (parsed_of (f x)) = Inr (g x)"
  shows "unmarshal_slice dec (parsed_of (json_slice f xs)) = Inr (map_option (map g) xs)"
proof (cases xs)
  case None
  then show ?thesis by (simp add: json_slice_def unmarshal_slice_def)
next
  case (Some ys)
  have "res_each dec (map (parsed_of) (map f ys)) = Inr (map g ys)"
    using assms Some by (induction ys arbitrary: xs) simp_all
  with Some show ?thesis by (simp add: json_slice_def unmarshal_slice_def)
qed

lemma parsed_not_null:
  "parsed_of (JStr s) \<noteq> PNull" "parsed_of (JObj kvs) \<noteq> PNull" "parsed_of (JInt n) \<noteq> PNull"
  by simp_all

lemma field_simps: "field kvs name dec = dec (case lookup kvs name of Some v \<Rightarrow> v | None \<Rightarrow> PNull)"
  by (rule field_def)

lemma lookup_first: "lookup ((name, v) # kvs) name = Some v"
  by (simp add: lookup_def)

lemma lookup_exact: "map_of kvs name = Some v \<Longrightarrow> lookup kvs name = Some v"
  by (simp add: lookup_def)

lemma field_exact: "map_of kvs name = Some v \<Longrightarrow> field kvs name dec = dec v"
  by (simp add: field_def lookup_def)

section \<open>Payload types\<close>

lemma readable_slice: "readable (json_slice f xs) \<longleftrightarrow> list_all (\<lambda>x. readable (f x)) (elems xs)"
  by (cases xs) (simp_all add: json_slice_def list.pred_map comp_def)

lemma read_choice: "readable (json_choice c) \<Longrightarrow> unmarshal_choice (parsed_of (json_choice c)) = Inr c"
  unfolding json_choice_def unmarshal_choice_def
  by (subst unmarshal_json_struct) (simp_all add: field_exact del: parsed_of.simps)

lemma unmarshal_json_slice_same:
  assumes "\<And>x. readable (f x) \<Longrightarrow> dec (parsed_of (f x)) = Inr x" "readable (json_slice f xs)"
  shows "unmarshal_slice dec (parsed_of (json_slice f xs)) = Inr xs"
  using unmarshal_json_slice [of xs dec f "\<lambda>x. x"] assms by (simp add: readable_slice list_all_iff option.map_ident)

lemma read_answer: "readable (json_answer a) \<Longrightarrow> unmarshal_answer (parsed_of (json_answer a)) = Inr a"
  unfolding json_answer_def unmarshal_answer_def
  by (subst unmarshal_json_struct)
    (simp_all add: field_exact unmarshal_json_slice_same read_choice del: parsed_of.simps)

lemma read_answer_collection:
  "readable (json_answer_collection ac) \<Longrightarrow>
     unmarshal_answer_collection (parsed_of (json_answer_collection ac)) = Inr ac"
  unfolding json_answer_collection_def unmarshal_answer_collection_def
  by (subst unmarshal_json_struct)
    (simp_all add: field_exact unmarshal_json_slice_same read_answer del: parsed_of.simps)

lemma read_address: "readable (json_address a) \<Longrightarrow> unmarshal_address (parsed_of (json_address a)) = Inr a"
  unfolding json_address_def unmarshal_address_def
  by (subst unmarshal_json_struct) (simp_all add: field_exact del: parsed_of.simps)

lemma unmarshal_json_option:
  assumes "\<And>y. x = Some y \<Longrightarrow> dec (parsed_of (f y)) = Inr (g y)" "\<And>y. parsed_of (f y) \<noteq> PNull"
  shows "unmarshal_option dec (parsed_of (json_option f x)) = Inr (map_option g x)"
  using assms by (cases x) (simp_all add: json_option_def unmarshal_option_def)

section \<open>Amounts\<close>

text \<open>What is left of an amount that was written with two decimals.\<close>

definition amount_reread :: "amount \<Rightarrow> amount" where
  "amount_reread a = (case a of FFin s m e \<Rightarrow> cents_float s (f64_cents m e) | _ \<Rightarrow> a)"

definition amount_storable :: "amount \<Rightarrow> bool" where
  "amount_storable a = (case a of FFin s m e \<Rightarrow> 0 \<le> f64_cents m e \<and> f64_cents m e < 2 ^ 52 | _ \<Rightarrow> True)"

lemma plain_digits: "0 \<le> n \<Longrightarrow> list_all plain_char (dec_digits n)"
  using dec_digits_digit [of n] by (force simp: list_all_iff plain_char_def digit_char_byte)

lemma plain_cents: "0 \<le> c \<Longrightarrow> list_all plain_char (cents_text s c)"
proof -
  assume c: "0 \<le> c"
  have "list_all plain_char (two_digits (c mod 100))"
    using two_digits_digit [of "c mod 100"] by (force simp: list_all_iff plain_char_def digit_char_byte)
  moreover have "plain_char (CHR ''-'')" "plain_char (CHR ''.'')" by code_simp+
  ultimately show ?thesis using plain_digits [of "c div 100"] c by (simp add: cents_text_def)
qed

lemma read_amount:
  assumes "amount_storable a"
  shows "unmarshal_amount (parsed_of (json_amount a)) = Inr (amount_reread a)"
proof -
  have special: "unmarshal_amount (parsed_of (json_amount x)) = Inr x" if "\<not> f64_finite x" for x
  proof -
    have "amount_unmarshal (json_quote ''NaN'') = Inr FNaN" "amount_unmarshal (json_quote ''+Inf'') = Inr (FInf False)"
      "amount_unmarshal (json_quote ''-Inf'') = Inr (FInf True)" by code_simp+
    with that show ?thesis by (cases x) (simp_all add: unmarshal_amount_def json_amount_def amount_float_def)
  qed
  show ?thesis
  proof (cases a)
    case (FFin s m e)
    then have "0 \<le> f64_cents m e" "f64_cents m e < 2 ^ 52" using assms by (simp_all add: amount_storable_def)
    then show ?thesis
      using amount_unmarshal_cents [of "f64_cents m e" s]
      by (simp add: FFin json_amount_def amount_float_def unmarshal_amount_def amount_reread_def
          json_quote_plain plain_cents)
  qed (use special [of a] in \<open>simp_all add: amount_reread_def\<close>)
qed

text \<open>Writing and reading once more changes nothing, and amounts of whole cents not at all.\<close>

lemma amount_reread_cents:
  assumes "0 \<le> c" "c < 2 ^ 52"
  shows "amount_storable (cents_float s c)" "amount_reread (cents_float s c) = cents_float s c"
  using cents_float_shape [OF assms, of s] assms
  by (auto simp: amount_storable_def amount_reread_def)

lemma amount_reread_idem:
  "amount_storable a \<Longrightarrow> amount_storable (amount_reread a) \<and> amount_reread (amount_reread a) = amount_reread a"
  using amount_reread_cents by (cases a) (auto simp: amount_storable_def amount_reread_def)

lemma json_amount_reread: "amount_storable a \<Longrightarrow> json_amount (amount_reread a) = json_amount a"
  by (cases a) (simp_all add: amount_storable_def amount_reread_def json_amount_def amount_float_def format_cents_float)

section \<open>Orders\<close>

definition ticket_storable :: "ticket \<Rightarrow> bool" where
  "ticket_storable t \<longleftrightarrow> amount_storable (ticket_Price t) \<and> amount_storable (ticket_PriceTotal t)"

definition ticket_reread :: "ticket \<Rightarrow> ticket" where
  "ticket_reread t = t\<lparr>ticket_Price := amount_reread (ticket_Price t),
     ticket_PriceTotal := amount_reread (ticket_PriceTotal t)\<rparr>"

lemma read_ticket:
  assumes "readable (json_ticket t)" "ticket_storable t"
  shows "unmarshal_ticket (parsed_of (json_ticket t)) = Inr (ticket_reread t)"
proof -
  have "unmarshal_option unmarshal_answer_collection
      (parsed_of (json_option json_answer_collection (ticket_AnswerCollection t)))
    = Inr (map_option (\<lambda>x. x) (ticket_AnswerCollection t))"
  proof (rule unmarshal_json_option)
    show "unmarshal_answer_collection (parsed_of (json_answer_collection y)) = Inr y"
      if "ticket_AnswerCollection t = Some y" for y
      using assms(1) that by (intro read_answer_collection) (simp add: json_ticket_def json_option_def)
  qed (simp add: json_answer_collection_def)
  then show ?thesis
    using assms unfolding json_ticket_def unmarshal_ticket_def
    by (subst unmarshal_json_struct)
      (simp_all add: field_exact read_amount ticket_storable_def ticket_reread_def option.map_ident del: parsed_of.simps)
qed

definition order_line_storable :: "order_line \<Rightarrow> bool" where
  "order_line_storable l \<longleftrightarrow> amount_storable (ol_Price l) \<and> amount_storable (ol_Total l)
     \<and> pred_option amount_storable (ol_DiscountTotal l)"

definition order_line_reread :: "order_line \<Rightarrow> order_line" where
  "order_line_reread l = l\<lparr>ol_Price := amount_reread (ol_Price l), ol_Total := amount_reread (ol_Total l),
     ol_DiscountTotal := map_option amount_reread (ol_DiscountTotal l)\<rparr>"

lemma read_order_line:
  assumes "readable (json_order_line l)" "order_line_storable l"
  shows "unmarshal_order_line (parsed_of (json_order_line l)) = Inr (order_line_reread l)"
proof -
  have "unmarshal_option unmarshal_string (parsed_of (json_option JStr (ol_TicketDescription l)))
    = Inr (map_option (\<lambda>x. x) (ol_TicketDescription l))"
    using assms(1) by (intro unmarshal_json_option) (simp_all add: json_order_line_def json_option_def del: parsed_of.simps, simp)
  moreover have "unmarshal_option unmarshal_amount (parsed_of (json_option json_amount (ol_DiscountTotal l)))
    = Inr (map_option amount_reread (ol_DiscountTotal l))"
    using assms(2) by (intro unmarshal_json_option read_amount) (simp_all add: order_line_storable_def json_amount_def)
  ultimately show ?thesis
    using assms unfolding json_order_line_def unmarshal_order_line_def
    by (subst unmarshal_json_struct)
      (simp_all add: field_exact read_amount order_line_storable_def order_line_reread_def option.map_ident del: parsed_of.simps)
qed

definition order_storable :: "order \<Rightarrow> bool" where
  "order_storable od \<longleftrightarrow> list_all order_line_storable (elems (order_OrderLines od))
     \<and> list_all ticket_storable (elems (order_Tickets od))"

definition order_reread :: "order \<Rightarrow> order" where
  "order_reread od =
     od\<lparr>order_Discount := compact_json Outside (order_Discount od),
        order_OrderLines := map_option (map order_line_reread) (order_OrderLines od),
        order_Tickets := map_option (map ticket_reread) (order_Tickets od)\<rparr>"

lemma unlike_discount:
  "list_all (\<lambda>k. \<not> equal_fold k ''discount'')
     [''uuid'', ''order_id'', ''currency'', ''state'', ''date'', ''vat_exempt'', ''vat_rate'', ''news_letter'',
      ''payment_method'', ''address'', ''order_lines'', ''tickets'']"
  by code_simp

lemma read_discount:
  assumes "readable (json_order od)"
  shows "(if order_Discount od = [] then [] else raw (raw_tree (order_Discount od))) = compact_json Outside (order_Discount od)"
proof (cases "order_Discount od = []")
  case False
  then have "raw_error (order_Discount od) = None" using assms by (simp add: json_order_def)
  with False show ?thesis by (simp add: raw_raw_tree)
qed simp

lemma read_order:
  assumes "readable (json_order od)" "order_storable od"
  shows "unmarshal_order (parsed_of (json_order od)) = Inr (order_reread od)"
proof -
  have "unmarshal_slice unmarshal_order_line (parsed_of (json_slice json_order_line (order_OrderLines od)))
    = Inr (map_option (map order_line_reread) (order_OrderLines od))"
    using assms
    by (intro unmarshal_json_slice read_order_line) (auto simp: json_order_def readable_slice order_storable_def list_all_iff)
  moreover have "unmarshal_slice unmarshal_ticket (parsed_of (json_slice json_ticket (order_Tickets od)))
    = Inr (map_option (map ticket_reread) (order_Tickets od))"
    using assms
    by (intro unmarshal_json_slice read_ticket) (auto simp: json_order_def readable_slice order_storable_def list_all_iff)
  moreover have "order_Discount od \<noteq> [] \<Longrightarrow> raw (raw_tree (order_Discount od)) = compact_json Outside (order_Discount od)"
    using read_discount [OF assms(1)] by simp
  ultimately show ?thesis
    using assms(1) unlike_discount unfolding json_order_def unmarshal_order_def
    by (cases "order_Discount od = []"; subst unmarshal_json_struct)
      (simp_all add: field_exact read_address unmarshal_raw_def lookup_def order_reread_def del: parsed_of.simps(1-6,8,9))
qed

definition orders_storable :: "orders_response \<Rightarrow> bool" where
  "orders_storable r \<longleftrightarrow> list_all order_storable (elems (resp_Orders r))"

definition orders_reread :: "orders_response \<Rightarrow> orders_response" where
  "orders_reread r = r\<lparr>resp_Orders := map_option (map (order_reread)) (resp_Orders r)\<rparr>"

lemma read_orders_response:
  assumes "readable (json_orders_response r)" "orders_storable r"
  shows "unmarshal_orders_response (parsed_of (json_orders_response r)) = Inr (orders_reread r)"
proof -
  have "unmarshal_slice unmarshal_order (parsed_of (json_slice json_order (resp_Orders r)))
    = Inr (map_option (map (order_reread)) (resp_Orders r))"
    using assms
    by (intro unmarshal_json_slice read_order)
      (auto simp: json_orders_response_def readable_slice orders_storable_def list_all_iff)
  then show ?thesis
    using assms(1) unfolding json_orders_response_def unmarshal_orders_response_def
    by (subst unmarshal_json_struct) (simp_all add: field_exact orders_reread_def del: parsed_of.simps)
qed

text \<open>What was read is written as before: the amounts have the same two decimals and compacting twice changes nothing.\<close>

definition prints_same :: "json \<Rightarrow> json \<Rightarrow> bool" where
  "prints_same v w \<longleftrightarrow> json_print v = json_print w \<and> json_ok v = json_ok w"

lemma prints_same_slice:
  assumes "\<And>x. x \<in> set (elems xs) \<Longrightarrow> prints_same (f (g x)) (f x)"
  shows "prints_same (json_slice f (map_option (map g) xs)) (json_slice f xs)"
proof (cases xs)
  case (Some ys)
  then have "map (\<lambda>x. json_print (f (g x))) ys = map (\<lambda>x. json_print (f x)) ys" "list_all (json_ok \<circ> (f \<circ> g)) ys = list_all (json_ok \<circ> f) ys"
    using assms by (auto simp: prints_same_def list_all_iff)
  then show ?thesis by (simp add: Some json_slice_def prints_same_def list.pred_map comp_def del: map_eq_conv)
qed (simp add: json_slice_def prints_same_def)

lemma prints_same_object:
  "list_all2 (\<lambda>(k, v) (k', v'). k = k' \<and> prints_same v v') kvs kvs' \<Longrightarrow> prints_same (JObj kvs) (JObj kvs')"
proof -
  assume h: "list_all2 (\<lambda>(k, v) (k', v'). k = k' \<and> prints_same v v') kvs kvs'"
  from h have "map (\<lambda>(k, v). json_quote k @ CHR '':'' # json_print v) kvs = map (\<lambda>(k, v). json_quote k @ CHR '':'' # json_print v) kvs'"
    by (induction rule: list_all2_induct) (auto simp: prints_same_def)
  moreover from h have "list_all (\<lambda>(k, v). json_ok v) kvs = list_all (\<lambda>(k, v). json_ok v) kvs'"
    by (induction rule: list_all2_induct) (auto simp: prints_same_def)
  ultimately show ?thesis by (simp add: prints_same_def)
qed

lemma prints_same_refl: "prints_same v v"
  by (simp add: prints_same_def)

lemma json_ticket_reread: "ticket_storable t \<Longrightarrow> json_ticket (ticket_reread t) = json_ticket t"
  by (simp add: json_ticket_def ticket_reread_def ticket_storable_def json_amount_reread)

lemma json_order_line_reread: "order_line_storable l \<Longrightarrow> json_order_line (order_line_reread l) = json_order_line l"
  by (cases "ol_DiscountTotal l")
    (simp_all add: json_order_line_def order_line_reread_def order_line_storable_def json_amount_reread json_option_def)

lemma prints_same_order:
  assumes "readable (json_order od)" "order_storable od"
  shows "prints_same (json_order (order_reread od)) (json_order od)"
proof -
  have s: "prints_same (json_slice json_order_line (map_option (map order_line_reread) (order_OrderLines od))) (json_slice json_order_line (order_OrderLines od))"
    "prints_same (json_slice json_ticket (map_option (map ticket_reread) (order_Tickets od))) (json_slice json_ticket (order_Tickets od))"
    using assms(2)
    by (auto simp: order_storable_def list_all_iff json_order_line_reread json_ticket_reread prints_same_refl intro!: prints_same_slice)
  show ?thesis
  proof (cases "order_Discount od = []")
    case True
    then show ?thesis
      unfolding json_order_def by (intro prints_same_object) (simp add: order_reread_def s prints_same_refl)
  next
    case False
    then have r: "raw_error (order_Discount od) = None" using assms(1) by (simp add: json_order_def)
    have "prints_same (JRaw (compact_json Outside (order_Discount od))) (JRaw (order_Discount od))"
      using r raw_error_compact [OF r] raw_compact(2) [OF r] by (simp add: prints_same_def)
    then show ?thesis
      using False raw_error_compact(2) [OF r] unfolding json_order_def
      by (intro prints_same_object) (simp add: order_reread_def s prints_same_refl)
  qed
qed

lemma prints_same_orders:
  assumes "readable (json_orders_response r)" "orders_storable r"
  shows "prints_same (json_orders_response (orders_reread r)) (json_orders_response r)"
proof -
  have "prints_same (json_slice json_order (map_option (map order_reread) (resp_Orders r))) (json_slice json_order (resp_Orders r))"
    using assms
    by (intro prints_same_slice prints_same_order)
      (auto simp: json_orders_response_def readable_slice orders_storable_def list_all_iff)
  then show ?thesis
    unfolding json_orders_response_def by (intro prints_same_object) (simp add: orders_reread_def prints_same_refl)
qed

section \<open>Aggregates\<close>

definition unmarshal_size_counts :: "size_counts decoder" where
  "unmarshal_size_counts = unmarshal_struct (\<lambda>kvs.
     res_bind (field kvs ''small'' unmarshal_int) (\<lambda>small.
     res_bind (field kvs ''medium'' unmarshal_int) (\<lambda>medium.
     res_bind (field kvs ''large'' unmarshal_int) (\<lambda>large.
     res_bind (field kvs ''xl'' unmarshal_int) (\<lambda>xl.
     res_bind (field kvs ''2xl'' unmarshal_int) (\<lambda>xxl.
     res_bind (field kvs ''3xl'' unmarshal_int) (\<lambda>xxxl.
       Inr \<lparr>sc_Small = small, sc_Medium = medium, sc_Large = large, sc_XL = xl, sc_XXL = xxl, sc_XXXL = xxxl\<rparr>)))))))"

definition unmarshal_counts :: "counts decoder" where
  "unmarshal_counts = unmarshal_struct (\<lambda>kvs.
     res_bind (field kvs ''orders'' unmarshal_int) (\<lambda>orders.
     res_bind (field kvs ''tickets'' unmarshal_int) (\<lambda>tickets.
       Inr \<lparr>counts_Orders = orders, counts_Tickets = tickets\<rparr>)))"

definition unmarshal_ticket_group :: "ticket_group decoder" where
  "unmarshal_ticket_group = unmarshal_struct (\<lambda>kvs.
     res_bind (field kvs ''count'' unmarshal_int) (\<lambda>count.
     res_bind (field kvs ''income_ex_vat'' unmarshal_float) (\<lambda>income.
       Inr \<lparr>tg_Count = count, tg_IncomeExVAT = income\<rparr>)))"

definition unmarshal_summary :: "summary decoder" where
  "unmarshal_summary = unmarshal_struct (\<lambda>kvs.
     res_bind (field kvs ''schema_version'' unmarshal_int) (\<lambda>version.
     res_bind (field kvs ''event_uuid'' unmarshal_string) (\<lambda>uuid.
     res_bind (field kvs ''counts'' unmarshal_counts) (\<lambda>counts.
     res_bind (field kvs ''orders_by_state'' (unmarshal_map unmarshal_int)) (\<lambda>states.
     res_bind (field kvs ''ticket_groups'' (unmarshal_map unmarshal_ticket_group)) (\<lambda>groups.
     res_bind (field kvs ''tshirt_sizes'' unmarshal_size_counts) (\<lambda>tshirts.
     res_bind (field kvs ''merch'' (unmarshal_map unmarshal_size_counts)) (\<lambda>merch.
       Inr \<lparr>sum_SchemaVersion = version, sum_EventUUID = uuid, sum_Counts = counts, sum_OrdersByState = states,
            sum_TicketGroups = groups, sum_TShirtSizes = tshirts, sum_Merch = merch\<rparr>))))))))"

definition unmarshal_sponsor :: "sponsor decoder" where
  "unmarshal_sponsor = unmarshal_struct (\<lambda>kvs.
     res_bind (field kvs ''company_name'' unmarshal_string) (\<lambda>company.
     res_bind (field kvs ''email'' unmarshal_string) (\<lambda>email.
     res_bind (field kvs ''full_name'' unmarshal_string) (\<lambda>full_name.
     res_bind (field kvs ''ticket_type_pk'' unmarshal_int) (\<lambda>pk.
     res_bind (field kvs ''ticket_type_name'' unmarshal_string) (\<lambda>type_name.
       Inr \<lparr>sp_CompanyName = company, sp_Email = email, sp_FullName = full_name, sp_TicketTypePK = pk,
            sp_TicketTypeName = type_name\<rparr>))))))"

lemma read_size_counts:
  "readable (json_size_counts sc) \<Longrightarrow> unmarshal_size_counts (parsed_of (json_size_counts sc)) = Inr sc"
  unfolding json_size_counts_def unmarshal_size_counts_def
  by (subst unmarshal_json_struct) (simp_all add: field_exact del: parsed_of.simps)

lemma read_counts: "readable (json_counts c) \<Longrightarrow> unmarshal_counts (parsed_of (json_counts c)) = Inr c"
  unfolding json_counts_def unmarshal_counts_def
  by (subst unmarshal_json_struct) (simp_all add: field_exact del: parsed_of.simps)

lemma read_ticket_group:
  "readable (json_ticket_group g) \<Longrightarrow> unmarshal_ticket_group (parsed_of (json_ticket_group g)) = Inr g"
  unfolding json_ticket_group_def unmarshal_ticket_group_def
  by (subst unmarshal_json_struct) (simp_all add: field_exact del: parsed_of.simps)

lemma read_sponsor: "readable (json_sponsor p) \<Longrightarrow> unmarshal_sponsor (parsed_of (json_sponsor p)) = Inr p"
  unfolding json_sponsor_def unmarshal_sponsor_def
  by (subst unmarshal_json_struct) (simp_all add: field_exact del: parsed_of.simps)

text \<open>Writing the entries of a sorted map in their order rebuilds it.\<close>

lemma al_put_last: "\<forall>p \<in> set m. fst p < k \<Longrightarrow> al_put k v m = m @ [(k, v)]"
  by (induction m) auto

lemma gm_rebuild: "sorted_wrt (<) (map fst ps) \<Longrightarrow> fold (\<lambda>(k, y) m. gm_put k y m) ps (Some []) = Some ps"
proof (induction ps rule: rev_induct)
  case (snoc p ps)
  then have "sorted_wrt (<) (map fst ps)" "\<forall>q \<in> set ps. fst q < fst p"
    by (auto simp: sorted_wrt_append)
  then show ?case using snoc.IH by (cases p) (simp add: gm_put_def al_put_last)
qed simp

lemma unmarshal_json_map:
  assumes "gm_ok m" "readable (json_map f m)"
    and "\<And>y. readable (f y) \<Longrightarrow> dec (parsed_of (f y)) = Inr y"
  shows "unmarshal_map dec (parsed_of (json_map f m)) = Inr m"
proof -
  obtain ps where m: "m = Some ps" using assms(1) by (auto simp: gm_ok_def)
  let ?entry = "\<lambda>(k, v). (k, parsed_of (f v))"
  have tree: "parsed_of (json_map f m) = PObj (json_print (json_map f m)) (map ?entry ps)"
    using parsed_object [OF assms(2) [unfolded json_map_def m option.case]] by (simp add: m json_map_def comp_def split_def)
  have "res_each (\<lambda>(k, x). res_bind (dec x) (\<lambda>y. Inr (k, y))) (map ?entry ps) = Inr ps"
    using assms(2,3) unfolding m by (induction ps) (auto simp: json_map_def)
  then show ?thesis
    using gm_rebuild [of ps] assms(1) unfolding tree by (simp add: unmarshal_map_def m gm_ok_def)
qed

definition maps_sorted :: "summary \<Rightarrow> bool" where
  "maps_sorted s \<longleftrightarrow> gm_ok (sum_OrdersByState s) \<and> gm_ok (sum_TicketGroups s) \<and> gm_ok (sum_Merch s)"

lemma summarise_maps_sorted: "maps_sorted (summarise resp opts)"
  using groups_sum states_sum merch_ok by (simp add: maps_sorted_def)

lemma read_summary:
  assumes "readable (JObj (json_summary_fields s))" "maps_sorted s"
  shows "unmarshal_summary (parsed_of (JObj (json_summary_fields s))) = Inr s"
proof -
  have "unmarshal_map unmarshal_int (parsed_of (json_map JInt (sum_OrdersByState s))) = Inr (sum_OrdersByState s)"
    using assms by (intro unmarshal_json_map unmarshal_json_kinds) (simp_all add: maps_sorted_def json_summary_fields_def)
  then show ?thesis
    using assms unfolding json_summary_fields_def unmarshal_summary_def
    by (subst unmarshal_json_struct)
      (simp_all add: field_exact unmarshal_json_map read_counts read_ticket_group read_size_counts maps_sorted_def
      del: parsed_of.simps)
qed

end
