(* ===== verification/Payload.thy ===== *)
theory Payload
  imports ValidText JsonRead
begin

text \<open>
  What a payload can be: the structs that decoding yields for a text the scanner accepted. Their
  strings are UTF-8, their integers have 64 bits, their rates are finite and their discounts are
  JSON, so that the encoder accepts them and they are read back.
\<close>

section \<open>Parts of a scanned text\<close>

text \<open>A value of the tree of a text; a null may also stand for an absent field.\<close>

definition from_text :: "parsed \<Rightarrow> bool" where
  "from_text v \<longleftrightarrow> (\<exists>d p. d \<le> max_depth \<and> value_text d p v)"

lemma from_text_null: "from_text PNull"
  using null_text [of max_depth] by (auto simp: from_text_def)

lemma elems_parts:
  "value_text d p v \<Longrightarrow> True"
  "elems_text d p vs \<Longrightarrow> \<forall>x \<in> set vs. \<exists>q. value_text d q x"
  "members_text d p kvs \<Longrightarrow> \<forall>(k, x) \<in> set kvs. valid_utf8 k \<and> (\<exists>q. value_text d q x)"
  by (induction rule: value_text_elems_text_members_text.inducts) (auto simp: unquote_string_valid)

lemma from_textI: "d \<le> max_depth \<Longrightarrow> value_text d p v \<Longrightarrow> from_text v"
  unfolding from_text_def by blast

lemma from_text_array: "from_text (PArr r vs) \<Longrightarrow> x \<in> set vs \<Longrightarrow> from_text x"
proof -
  assume "from_text (PArr r vs)" and x: "x \<in> set vs"
  then obtain d p where d: "d \<le> max_depth" "value_text d p (PArr r vs)" by (auto simp: from_text_def)
  from d(2) obtain q where "value_text (d - 1) q x"
    using x elems_parts(2) unfolding value_text_kinds by fastforce
  with d(1) show ?thesis by (intro from_textI [of "d - 1"]) simp_all
qed

lemma from_text_object: "from_text (PObj r kvs) \<Longrightarrow> (k, x) \<in> set kvs \<Longrightarrow> valid_utf8 k \<and> from_text x"
proof -
  assume "from_text (PObj r kvs)" and x: "(k, x) \<in> set kvs"
  then obtain d p where d: "d \<le> max_depth" "value_text d p (PObj r kvs)" by (auto simp: from_text_def)
  from d(2) obtain q where "value_text (d - 1) q x" "valid_utf8 k"
    using x elems_parts(3) unfolding value_text_kinds by fastforce
  with d(1) show ?thesis by (auto intro: from_textI [of "d - 1"])
qed

lemma from_text_string: "from_text (PStr r s) \<Longrightarrow> valid_utf8 s"
  unfolding from_text_def by (auto simp: value_text_kinds unquote_string_valid)

lemma from_text_number: "from_text (PNum p) \<Longrightarrow> is_number p"
  unfolding from_text_def by (auto simp: value_text_kinds)

lemma from_text_raw: "from_text v \<Longrightarrow> raw v \<noteq> [] \<and> raw_error (raw v) = None"
proof -
  assume "from_text v"
  then obtain d where d: "d \<le> max_depth" "value_text d (raw v) v" using value_text_raw unfolding from_text_def by blast
  have "value_text max_depth (raw v) v" by (rule text_deeper(1) [OF d(2,1)])
  then show ?thesis
    using value_text_starts [of max_depth "raw v" v] unfolding raw_error_None
    by (intro conjI exI [of _ "[]"] exI [of _ "raw v"]) auto
qed

lemma json_parse_from_text: "json_parse bytes err = Inr v \<Longrightarrow> from_text v"
  using json_parse_text from_textI by blast

section \<open>Decoding\<close>

definition decodes :: "'a decoder \<Rightarrow> ('a \<Rightarrow> bool) \<Rightarrow> bool" where
  "decodes dec P \<longleftrightarrow> (\<forall>v x. from_text v \<longrightarrow> dec v = Inr x \<longrightarrow> P x)"

lemma decodesI: "(\<And>v x. from_text v \<Longrightarrow> dec v = Inr x \<Longrightarrow> P x) \<Longrightarrow> decodes dec P"
  unfolding decodes_def by blast

lemma decodesD: "decodes dec P \<Longrightarrow> from_text v \<Longrightarrow> dec v = Inr x \<Longrightarrow> P x"
  unfolding decodes_def by blast

text \<open>The members of an object of a text.\<close>

definition members_ok :: "(string \<times> parsed) list \<Rightarrow> bool" where
  "members_ok kvs \<longleftrightarrow> (\<forall>(k, x) \<in> set kvs. valid_utf8 k \<and> from_text x)"

lemma lookup_from_text: "members_ok kvs \<Longrightarrow> lookup kvs name = Some v \<Longrightarrow> from_text v"
  unfolding lookup_def members_ok_def
  by (auto dest!: map_of_SomeD simp: find_Some_iff split: option.splits) (metis nth_mem case_prodD)

lemma field_decodes: "decodes dec P \<Longrightarrow> members_ok kvs \<Longrightarrow> field kvs name dec = Inr x \<Longrightarrow> P x"
  unfolding field_def using lookup_from_text from_text_null by (auto split: option.splits dest: decodesD)

lemma struct_decodes:
  assumes "\<And>kvs x. members_ok kvs \<Longrightarrow> dec kvs = Inr x \<Longrightarrow> P x"
  shows "decodes (unmarshal_struct dec) P"
proof (rule decodesI)
  fix v x
  assume v: "from_text v" "unmarshal_struct dec v = Inr x"
  then consider "dec [] = Inr x" | r kvs where "v = PObj r kvs" "dec kvs = Inr x"
    by (cases v) (auto simp: unmarshal_struct_def mismatch_def)
  then show "P x"
  proof cases
    case 1
    then show ?thesis by (intro assms) (simp_all add: members_ok_def)
  next
    case 2
    then show ?thesis using v(1) from_text_object by (intro assms) (auto simp: members_ok_def)
  qed
qed

lemma string_decodes: "decodes unmarshal_string valid_utf8"
  by (rule decodesI) (auto simp: unmarshal_string_def mismatch_def from_text_string split: parsed.splits)

lemma int_decodes: "decodes unmarshal_int is_int64"
  by (rule decodesI)
    (auto simp: unmarshal_int_def mismatch_def is_int64_def int64_min_def int64_max_def dest: atoi_range split: parsed.splits sum.splits)

lemma slice_decodes:
  assumes "decodes dec P"
  shows "decodes (unmarshal_slice dec) (\<lambda>xs. list_all P (elems xs))"
proof (rule decodesI)
  fix v xs
  assume v: "from_text v" "unmarshal_slice dec v = Inr xs"
  show "list_all P (elems xs)"
  proof (cases v)
    case (PArr r vs)
    then obtain ys where ys: "res_each dec vs = Inr ys" "xs = Some ys"
      using v(2) by (auto simp: unmarshal_slice_def res_bind_Inr_iff)
    have "list_all P ys" if "\<forall>x \<in> set vs. from_text x" "res_each dec vs = Inr ys"
      using that assms by (induction vs arbitrary: ys) (auto simp: res_bind_Inr_iff dest: decodesD)
    then show ?thesis using ys v(1) from_text_array by (simp add: PArr)
  qed (use v(2) in \<open>auto simp: unmarshal_slice_def mismatch_def\<close>)
qed

lemma option_decodes: "decodes dec P \<Longrightarrow> decodes (unmarshal_option dec) (pred_option P)"
  by (rule decodesI) (auto simp: unmarshal_option_def res_bind_Inr_iff dest: decodesD split: if_splits)

section \<open>Numbers\<close>

lemma read_mant_nonneg: "0 \<le> ms_mant st \<Longrightarrow> 0 \<le> ms_mant (fst (read_mant hex st s))"
proof (induction hex st s rule: read_mant.induct)
  case (2 hex st c cs)
  have "0 \<le> d" if "(if hex then hex_val c else digit_val c) = Some d" for d
    using that hex_val_bounds [of c d] by (auto simp: digit_val_def split: if_splits)
  with 2 show ?case by (auto split: option.splits)
qed simp

lemma read_float_mant: "read_float s = Some l \<Longrightarrow> 0 \<le> fl_mant l"
proof -
  let ?st = "\<lparr>ms_sawdot = False, ms_sawdigits = False, ms_mant = 0, ms_frac = 0\<rparr>"
  have "0 \<le> ms_mant st" if "read_mant hex ?st b = (st, r)" for hex b st r
    using read_mant_nonneg [of ?st hex b] that by simp
  then show "read_float s = Some l \<Longrightarrow> 0 \<le> fl_mant l"
    by (auto simp: read_float_def Let_def split: prod.splits if_splits list.splits)
qed

lemma parse_float_ok: "parse_float s = Inr x \<Longrightarrow> f64_ok x"
proof -
  have "f64_ok y" if "special_float s = Some y" for y
    using that by (auto simp: special_float_def Let_def f64_ok_def split: prod.splits if_splits)
  moreover have "f64_ok (lit_value l)" if "read_float s = Some l" for l
    using read_float_mant [OF that] by (simp add: lit_value_def f64_ok_round)
  ultimately show "parse_float s = Inr x \<Longrightarrow> f64_ok x"
    by (auto simp: parse_float_def Let_def split: option.splits if_splits)
qed

text \<open>A number of JSON has a digit, so it is none of the names that \<open>ParseFloat\<close> also takes, and what it decodes to is finite.\<close>

lemma scan_unsigned_digit: "scan_unsigned s = Scanned p rest \<Longrightarrow> \<exists>c \<in> set p. is_digit c"
proof -
  have "\<exists>c \<in> set i. is_digit c" if "scan_int s = Scanned i r" for i r
    using that by (cases s) (auto simp: scan_int_def scan_digits_def is_digit_def byte_def split: if_splits)
  then show "scan_unsigned s = Scanned p rest \<Longrightarrow> \<exists>c \<in> set p. is_digit c"
    by (fastforce simp: scan_unsigned_def scan_map_Scanned split: scanned.splits)
qed

lemma number_digit: "is_number p \<Longrightarrow> \<exists>c \<in> set p. is_digit c"
proof -
  assume "is_number p"
  then obtain s q where q: "scan_unsigned s = Scanned q []" "set q \<subseteq> set p"
    by (cases p) (auto simp: is_number_def scan_number_def scan_map_Scanned split: if_splits)
  then show ?thesis using scan_unsigned_digit [OF q(1)] by blast
qed

lemma special_float_letters: "special_float s = Some x \<Longrightarrow> c \<in> set s \<Longrightarrow> \<not> is_digit c"
proof -
  have letters: "\<forall>c \<in> set b. \<not> is_digit c" if "map fold_ascii (map byte b) = map byte w" "\<forall>c \<in> set w. 97 \<le> byte c" for b w
  proof
    fix c
    assume "c \<in> set b"
    then have "fold_ascii (byte c) \<in> byte ` set w" using that(1) by (metis image_eqI list.set_map)
    with that(2) show "\<not> is_digit c" by (auto simp: is_digit_def fold_ascii_def split: if_splits)
  qed
  have words: "\<forall>c \<in> set ''inf''. 97 \<le> byte c" "\<forall>c \<in> set ''infinity''. 97 \<le> byte c" "\<forall>c \<in> set ''nan''. 97 \<le> byte c"
    by (simp_all add: byte_def)
  assume s: "special_float s = Some x" and c: "c \<in> set s"
  obtain neg b where b: "strip_sign s = (neg, b)" by fastforce
  then have "c \<in> set b \<or> c = CHR ''-'' \<or> c = CHR ''+''"
    using c by (cases s) (auto simp: strip_sign_def split: if_splits)
  moreover have "(\<forall>c \<in> set b. \<not> is_digit c) \<or> (\<forall>c \<in> set s. \<not> is_digit c)"
  proof -
    have "map fold_ascii (map byte b) = map byte ''inf'' \<or> map fold_ascii (map byte b) = map byte ''infinity''
        \<or> map fold_ascii (map byte s) = map byte ''nan''"
      using s unfolding special_float_def b Let_def prod.case by (metis option.distinct(1))
    then show ?thesis using letters [OF _ words(1)] letters [OF _ words(2)] letters [OF _ words(3)] by blast
  qed
  ultimately show "\<not> is_digit c" using c by (auto simp: is_digit_def byte_def)
qed

lemma parse_number_finite: "is_number p \<Longrightarrow> parse_float p = Inr x \<Longrightarrow> f64_finite x"
  using number_digit [of p] special_float_letters [of p]
  by (cases "special_float p") (auto simp: parse_float_def Let_def split: option.splits if_splits)

lemma float_decodes: "decodes unmarshal_float (\<lambda>x. f64_ok x \<and> f64_finite x)"
  by (rule decodesI)
    (auto simp: unmarshal_float_def mismatch_def f64_ok_consts f64_zero_def f64_ok_def [of "FFin _ 0 0"]
      dest: parse_float_ok parse_number_finite [OF from_text_number] split: parsed.splits sum.splits)

lemma amount_decodes: "decodes unmarshal_amount f64_ok"
proof -
  have "f64_ok x" if "amount_unmarshal s = Inr x" for s x
    using that by (auto simp: amount_unmarshal_def Let_def res_bind_Inr_iff f64_ok_consts dest: parse_float_ok split: if_splits)
  then show ?thesis
    by (intro decodesI) (auto simp: unmarshal_amount_def split: sum.splits)
qed

lemma valid_utf8_fixed2: "f64_ok x \<Longrightarrow> valid_utf8 (format_fixed2 x)"
proof (cases x)
  case (FFin s m e)
  assume "f64_ok x"
  then have "0 \<le> f64_cents m e"
    by (auto simp: FFin f64_ok_def f64_cents_def round_half_even_def Let_def pos_imp_zdiv_nonneg_iff)
  then show ?thesis
    using plain_cents [of "f64_cents m e" s] by (simp add: FFin valid_utf8_ascii list_all_iff plain_char_def)
qed (simp_all add: valid_utf8_ascii byte_def)

section \<open>The types of the payload\<close>

text \<open>Values of the types of their fields, finite or not.\<close>

fun typed :: "json \<Rightarrow> bool" where
  "typed (JInt n) = is_int64 n"
| "typed (JNum x) = f64_ok x"
| "typed (JStr s) = valid_utf8 s"
| "typed (JArr vs) = list_all typed vs"
| "typed (JObj kvs) = list_all (\<lambda>(k, v). valid_utf8 k \<and> typed v) kvs"
| "typed _ = True"

lemma readable_typed: "readable v \<longleftrightarrow> typed v \<and> json_ok v"
  by (induction v rule: typed.induct) (auto simp: list_all_iff split: prod.splits)

lemma typed_amount: "f64_ok a \<Longrightarrow> typed (json_amount a)"
  by (simp add: json_amount_def amount_float_def valid_utf8_fixed2)

lemma typed_slice: "typed (json_slice f xs) \<longleftrightarrow> list_all (\<lambda>x. typed (f x)) (elems xs)"
  by (cases xs) (simp_all add: json_slice_def list.pred_map comp_def)

lemma typed_option: "typed (json_option f x) \<longleftrightarrow> pred_option (\<lambda>y. typed (f y)) x"
  by (cases x) (simp_all add: json_option_def)

lemmas decode_field = field_decodes [OF string_decodes] field_decodes [OF int_decodes] field_decodes [OF float_decodes]
  field_decodes [OF amount_decodes]

lemma choice_decodes: "decodes unmarshal_choice (\<lambda>c. typed (json_choice c))"
  unfolding unmarshal_choice_def
  by (rule struct_decodes)
    (auto simp: res_bind_Inr_iff json_choice_def valid_utf8_ascii byte_def dest: decode_field)

lemma answer_decodes: "decodes unmarshal_answer (\<lambda>a. typed (json_answer a))"
  unfolding unmarshal_answer_def
  by (rule struct_decodes)
    (auto simp: res_bind_Inr_iff json_answer_def valid_utf8_ascii byte_def typed_slice
      dest: decode_field field_decodes [OF slice_decodes [OF choice_decodes]])

lemma answer_collection_decodes: "decodes unmarshal_answer_collection (\<lambda>ac. typed (json_answer_collection ac))"
  unfolding unmarshal_answer_collection_def
  by (rule struct_decodes)
    (auto simp: res_bind_Inr_iff json_answer_collection_def valid_utf8_ascii byte_def typed_slice
      dest: decode_field field_decodes [OF slice_decodes [OF answer_decodes]])

lemma address_decodes: "decodes unmarshal_address (\<lambda>a. typed (json_address a))"
  unfolding unmarshal_address_def
  by (rule struct_decodes)
    (auto simp: res_bind_Inr_iff json_address_def valid_utf8_ascii byte_def dest: decode_field)

lemma ticket_decodes: "decodes unmarshal_ticket (\<lambda>t. typed (json_ticket t))"
  unfolding unmarshal_ticket_def
  by (rule struct_decodes)
    (auto simp: res_bind_Inr_iff json_ticket_def valid_utf8_ascii byte_def typed_option typed_amount
      dest: decode_field field_decodes [OF option_decodes [OF answer_collection_decodes]])

lemma order_line_decodes: "decodes unmarshal_order_line (\<lambda>l. typed (json_order_line l))"
proof -
  have d: "decodes (unmarshal_option unmarshal_string) (pred_option (\<lambda>s. typed (JStr s)))"
    using option_decodes [OF string_decodes] by simp
  have a: "decodes (unmarshal_option unmarshal_amount) (pred_option (\<lambda>a. typed (json_amount a)))"
    using amount_decodes typed_amount by (intro option_decodes) (auto simp: decodes_def)
  show ?thesis
    unfolding unmarshal_order_line_def
    by (intro struct_decodes)
      (auto simp: res_bind_Inr_iff json_order_line_def valid_utf8_ascii byte_def typed_option typed_amount
        dest: decode_field field_decodes [OF d] field_decodes [OF a])
qed

lemma order_decodes: "decodes unmarshal_order (\<lambda>od. typed (json_order od))"
  unfolding unmarshal_order_def
  by (rule struct_decodes)
    (auto simp: res_bind_Inr_iff json_order_def valid_utf8_ascii byte_def typed_slice
      dest: decode_field field_decodes [OF address_decodes] field_decodes [OF slice_decodes [OF order_line_decodes]]
        field_decodes [OF slice_decodes [OF ticket_decodes]])

lemma orders_response_decodes: "decodes unmarshal_orders_response (\<lambda>r. typed (json_orders_response r))"
  unfolding unmarshal_orders_response_def
  by (rule struct_decodes)
    (auto simp: res_bind_Inr_iff json_orders_response_def valid_utf8_ascii byte_def typed_slice
      dest: decode_field field_decodes [OF slice_decodes [OF order_decodes]])

text \<open>A discount is left out or the text of a JSON value, so the encoder takes it back.\<close>

lemma raw_member: "members_ok kvs \<Longrightarrow> raw_error (unmarshal_raw kvs name) = Some e \<Longrightarrow> unmarshal_raw kvs name = []"
  using lookup_from_text [of kvs name] from_text_raw by (auto simp: unmarshal_raw_def split: option.splits)

lemma writable_decodes: "decodes unmarshal_order order_writable"
  unfolding unmarshal_order_def
  by (rule struct_decodes) (auto simp: res_bind_Inr_iff order_writable_def dest: raw_member decode_field)

text \<open>The price paid for a ticket is a \<open>float64\<close>; the text it is printed as does not show that.\<close>

definition prices_ok :: "order \<Rightarrow> bool" where
  "prices_ok od \<longleftrightarrow> list_all (\<lambda>t. f64_ok (ticket_PriceTotal t)) (elems (order_Tickets od))"

lemma price_decodes: "decodes unmarshal_ticket (\<lambda>t. f64_ok (ticket_PriceTotal t))"
  unfolding unmarshal_ticket_def
  by (rule struct_decodes) (auto simp: res_bind_Inr_iff dest: decode_field)

lemma prices_decode: "decodes unmarshal_order prices_ok"
  unfolding unmarshal_order_def
  by (rule struct_decodes)
    (auto simp: res_bind_Inr_iff prices_ok_def dest: field_decodes [OF slice_decodes [OF price_decodes]])

text \<open>Everything that decoding promises of a payload.\<close>

definition payload_ok :: "orders_response \<Rightarrow> bool" where
  "payload_ok r \<longleftrightarrow> typed (json_orders_response r)
     \<and> list_all order_writable (elems (resp_Orders r)) \<and> list_all prices_ok (elems (resp_Orders r))"

lemma orders_decode:
  "decodes unmarshal_order P \<Longrightarrow> decodes unmarshal_orders_response (\<lambda>r. list_all P (elems (resp_Orders r)))"
  unfolding unmarshal_orders_response_def
  by (rule struct_decodes) (auto simp: res_bind_Inr_iff dest: field_decodes [OF slice_decodes])

theorem payload_decodes: "decodes unmarshal_orders_response payload_ok"
  using orders_response_decodes orders_decode [OF writable_decodes] orders_decode [OF prices_decode]
  by (simp add: decodes_def payload_ok_def)

end
