(* ===== verification/TbClient.thy ===== *)
theory TbClient
  imports JsonParse GoTime
begin

text \<open>
  \<open>internal/ticketbutler/client.go\<close>: one fetch, and the retry loop around it.

  What the client observes of its surroundings is the record \<open>net\<close>: building and sending a
  request, opening a file, the state of the context after an attempt, which of
  the context and the timer ends a sleep, and the clock. Each is indexed by the number of the attempt it belongs to, so that it
  may answer differently every time. The loop returns its result and the sequence of its attempts
  and sleeps.
\<close>

section \<open>The surroundings\<close>

record request =
  req_Method :: string
  req_URL :: string
  req_Header :: "(string \<times> string) list"
  req_Timeout :: int

text \<open>A body is the bytes that can be read and the error after them, if reading fails.\<close>

record response =
  rsp_StatusCode :: int
  rsp_Body :: string
  rsp_BodyErr :: "goerr option"

text \<open>Which case of the \<open>select\<close> between the context and the timer of a sleep is taken.\<close>

datatype select_case = CtxDone goerr | TimerFired

record net =
  net_NewRequest :: "string \<Rightarrow> goerr option"
  net_Do :: "int \<Rightarrow> request \<Rightarrow> goerr + response"
  net_Open :: "string \<Rightarrow> goerr + (string \<times> goerr option)"
  net_CtxErr :: "int \<Rightarrow> goerr option"
  net_Select :: "int \<Rightarrow> int \<Rightarrow> select_case"
  net_Now :: "int \<Rightarrow> gotime"

section \<open>The client\<close>

record client =
  cl_URL :: string
  cl_Token :: string
  cl_File :: string
  cl_Timeout :: int
  cl_Attempts :: int
  cl_Now :: "(int \<Rightarrow> gotime) option"
  cl_Sleep :: "(int \<Rightarrow> int \<Rightarrow> goerr option) option"

record fetch_result =
  res_Orders :: orders_response
  res_Duration :: int

datatype event = Attempt int | Sleep int

text \<open>\<open>timeNow\<close> and \<open>sleepFor\<close>: the hooks of a test when they are set, the clock and a timer otherwise.\<close>

definition time_now :: "client \<Rightarrow> net \<Rightarrow> int \<Rightarrow> gotime" where
  "time_now c w k = (case cl_Now c of Some f \<Rightarrow> f k | None \<Rightarrow> net_Now w k)"

definition sleep_for :: "client \<Rightarrow> net \<Rightarrow> int \<Rightarrow> int \<Rightarrow> goerr option" where
  "sleep_for c w k d =
     (case cl_Sleep c of
        Some f \<Rightarrow> f k d
      | None \<Rightarrow> (case net_Select w k d of CtxDone err \<Rightarrow> Some err | TimerFired \<Rightarrow> None))"

definition origin_exhausted :: "int \<Rightarrow> bool" where
  "origin_exhausted status \<longleftrightarrow> status = 520 \<or> status = 522 \<or> status = 523 \<or> status = 524"

definition fetch_once :: "client \<Rightarrow> net \<Rightarrow> int \<Rightarrow> goerr + orders_response" where
  "fetch_once c w attempt =
     (let timeout = (if cl_Timeout c \<le> 0 then 10 * Minute else cl_Timeout c)
      in case net_NewRequest w (cl_URL c) of
           Some err \<Rightarrow> Inl err
         | None \<Rightarrow>
             let req = \<lparr>req_Method = ''GET'', req_URL = cl_URL c,
                        req_Header = [(''Authorization'', ''Token '' @ cl_Token c),
                                      (''Accept'', ''application/json'')],
                        req_Timeout = timeout\<rparr>
             in case net_Do w attempt req of
                  Inl err \<Rightarrow> Inl err
                | Inr resp \<Rightarrow>
                    if rsp_StatusCode resp \<noteq> 200
                    then Inl (ErrUpstream (rsp_StatusCode resp) (take 512 (rsp_Body resp)))
                    else res_map_err (ErrWrap ''decoding orders response'')
                           (res_bind (json_parse (rsp_Body resp) (rsp_BodyErr resp)) unmarshal_orders_response))"

definition read_file :: "client \<Rightarrow> net \<Rightarrow> goerr + orders_response" where
  "read_file c w =
     res_bind (net_Open w (cl_File c)) (\<lambda>(body, err).
       res_map_err (ErrWrap (''decoding '' @ cl_File c)) (res_bind (json_parse body err) unmarshal_orders_response))"

text \<open>\<open>30 * time.Second << (attempt - 1)\<close>: bits shifted out of the 64 are lost.\<close>

definition backoff :: "int \<Rightarrow> int" where
  "backoff attempt = wrap64 (30 * Second * 2 ^ nat (attempt - 1))"

text \<open>Whether an error ends the refresh at once: any status below 500, or an exhausted origin.\<close>

definition gives_up :: "goerr \<Rightarrow> bool" where
  "gives_up err =
     (case as_upstream err of
        None \<Rightarrow> False
      | Some (status, body) \<Rightarrow> if status < 500 then True else origin_exhausted status)"

definition retries_exhausted :: "int \<Rightarrow> goerr option \<Rightarrow> goerr" where
  "retries_exhausted attempts lastErr =
     (let p = ''fetching orders failed after '' @ itoa attempts @ '' attempts''
      in case lastErr of
           Some err \<Rightarrow> ErrWrap p err
         | None \<Rightarrow> ErrText (p @ '': %!w(<nil>)''))"

function fetch_loop ::
  "client \<Rightarrow> net \<Rightarrow> int \<Rightarrow> goerr option \<Rightarrow> int \<Rightarrow> event list \<times> (goerr + fetch_result)" where
  "fetch_loop c w attempts lastErr attempt =
     (if attempts < attempt then ([], Inl (retries_exhausted attempts lastErr))
      else case fetch_once c w attempt of
        Inr orders \<Rightarrow>
          ([Attempt attempt],
           Inr \<lparr>res_Orders = orders, res_Duration = time_sub (time_now c w attempt) (time_now c w 0)\<rparr>)
      | Inl err \<Rightarrow>
          if gives_up err then ([Attempt attempt], Inl err)
          else case net_CtxErr w attempt of
            Some cerr \<Rightarrow> ([Attempt attempt], Inl (ErrJoin [err, cerr]))
          | None \<Rightarrow>
              if attempt < attempts then
                (case sleep_for c w attempt (backoff attempt) of
                   Some serr \<Rightarrow> ([Attempt attempt, Sleep (backoff attempt)], Inl (ErrJoin [err, serr]))
                 | None \<Rightarrow>
                     (case fetch_loop c w attempts (Some err) (attempt + 1) of
                        (tr, res) \<Rightarrow> ([Attempt attempt, Sleep (backoff attempt)] @ tr, res)))
              else
                (case fetch_loop c w attempts (Some err) (attempt + 1) of
                   (tr, res) \<Rightarrow> (Attempt attempt # tr, res)))"
  by pat_completeness auto
termination
  by (relation "measure (\<lambda>(c, w, attempts, lastErr, attempt). nat (attempts + 1 - attempt))") auto

declare fetch_loop.simps [simp del]

definition max_attempts :: "client \<Rightarrow> int" where
  "max_attempts c = (if cl_Attempts c \<le> 0 then 3 else cl_Attempts c)"

definition fetch_orders :: "client \<Rightarrow> net \<Rightarrow> event list \<times> (goerr + fetch_result)" where
  "fetch_orders c w =
     (if cl_File c \<noteq> [] then
        ([], res_bind (read_file c w) (\<lambda>orders.
           Inr \<lparr>res_Orders = orders, res_Duration = time_sub (time_now c w 1) (time_now c w 0)\<rparr>))
      else fetch_loop c w (max_attempts c) None 1)"

section \<open>The loop\<close>

text \<open>
  The failures the policy never retries, stated by status: the API answered with something below
  500, or Cloudflare reports that the origin is exhausted. The loop decides the same.
\<close>

definition refused :: "goerr \<Rightarrow> bool" where
  "refused err \<longleftrightarrow>
     (case as_upstream err of
        None \<Rightarrow> False
      | Some (status, body) \<Rightarrow> status < 500 \<or> status \<in> {520, 522, 523, 524})"

lemma gives_up_refused: "gives_up err \<longleftrightarrow> refused err"
  by (auto simp: gives_up_def refused_def origin_exhausted_def split: option.split)

text \<open>
  Attempt \<open>k\<close> is followed by another one when it failed and was not refused, the context is still
  alive, it was not the last and the sleep was not interrupted.
\<close>

definition goes_on :: "client \<Rightarrow> net \<Rightarrow> int \<Rightarrow> bool" where
  "goes_on c w k \<longleftrightarrow>
     (case fetch_once c w k of Inr _ \<Rightarrow> False | Inl err \<Rightarrow> \<not> refused err)
     \<and> net_CtxErr w k = None \<and> k < max_attempts c \<and> sleep_for c w k (backoff k) = None"

text \<open>What the loop does at the attempt that is not followed by another one.\<close>

definition final_outcome :: "client \<Rightarrow> net \<Rightarrow> int \<Rightarrow> goerr + fetch_result" where
  "final_outcome c w k =
     (case fetch_once c w k of
        Inr orders \<Rightarrow> Inr \<lparr>res_Orders = orders, res_Duration = time_sub (time_now c w k) (time_now c w 0)\<rparr>
      | Inl err \<Rightarrow>
          if refused err then Inl err
          else case net_CtxErr w k of
            Some cerr \<Rightarrow> Inl (ErrJoin [err, cerr])
          | None \<Rightarrow>
              if k < max_attempts c then
                (case sleep_for c w k (backoff k) of
                   Some serr \<Rightarrow> Inl (ErrJoin [err, serr])
                 | None \<Rightarrow> Inl err)
              else Inl (retries_exhausted (max_attempts c) (Some err)))"

definition interrupted_sleep :: "client \<Rightarrow> net \<Rightarrow> int \<Rightarrow> event list" where
  "interrupted_sleep c w k =
     (case fetch_once c w k of
        Inr _ \<Rightarrow> []
      | Inl err \<Rightarrow>
          if \<not> refused err \<and> net_CtxErr w k = None \<and> k < max_attempts c then [Sleep (backoff k)] else [])"

text \<open>The attempts from \<open>j\<close> up to \<open>k\<close>, a sleep between two of them.\<close>

definition attempts_upto :: "int \<Rightarrow> int \<Rightarrow> event list" where
  "attempts_upto j k = concat (map (\<lambda>i. [Attempt i, Sleep (backoff i)]) [j..k - 1]) @ [Attempt k]"

lemma attempts_upto_same: "attempts_upto k k = [Attempt k]"
  by (simp add: attempts_upto_def)

lemma attempts_upto_Cons:
  "j < k \<Longrightarrow> attempts_upto j k = Attempt j # Sleep (backoff j) # attempts_upto (j + 1) k"
  by (simp add: attempts_upto_def upto_rec1 [of j])

lemma fetch_loop_goes_on:
  assumes "goes_on c w k"
  shows "fetch_loop c w (max_attempts c) e k =
    (case fetch_loop c w (max_attempts c) (Some (projl (fetch_once c w k))) (k + 1) of
       (tr, res) \<Rightarrow> (Attempt k # Sleep (backoff k) # tr, res))"
  using assms
  by (subst fetch_loop.simps) (auto simp: goes_on_def gives_up_refused split: sum.splits option.splits prod.splits)

lemma fetch_loop_stops:
  assumes "\<not> goes_on c w k" "k \<le> max_attempts c"
  shows "fetch_loop c w (max_attempts c) e k = (Attempt k # interrupted_sleep c w k, final_outcome c w k)"
proof -
  have "fetch_loop c w n e' (n + 1) = ([], Inl (retries_exhausted n e'))" for n e'
    by (subst fetch_loop.simps) simp
  moreover have "\<not> k < max_attempts c \<Longrightarrow> k = max_attempts c" using assms(2) by simp
  ultimately show ?thesis
    using assms
    by (subst fetch_loop.simps)
      (auto simp: goes_on_def gives_up_refused final_outcome_def interrupted_sleep_def split: sum.splits option.splits prod.splits)
qed

lemma fetch_loop_run:
  assumes "j \<le> k" "k \<le> max_attempts c" "\<And>i. j \<le> i \<Longrightarrow> i < k \<Longrightarrow> goes_on c w i" "\<not> goes_on c w k"
  shows "fetch_loop c w (max_attempts c) e j = (attempts_upto j k @ interrupted_sleep c w k, final_outcome c w k)"
  using assms
proof (induction "nat (k - j)" arbitrary: j e)
  case 0
  then show ?case by (simp add: attempts_upto_same fetch_loop_stops)
next
  case (Suc n)
  then have "j < k" by simp
  then have "fetch_loop c w (max_attempts c) (Some (projl (fetch_once c w j))) (j + 1) =
      (attempts_upto (j + 1) k @ interrupted_sleep c w k, final_outcome c w k)"
    using Suc.prems Suc.hyps(2) by (intro Suc.hyps(1)) auto
  with \<open>j < k\<close> Suc.prems show ?case by (simp add: fetch_loop_goes_on attempts_upto_Cons)
qed

text \<open>The number of the last attempt.\<close>

fun stop_from :: "client \<Rightarrow> net \<Rightarrow> int \<Rightarrow> nat \<Rightarrow> int" where
  "stop_from c w k 0 = k"
| "stop_from c w k (Suc n) = (if goes_on c w k then stop_from c w (k + 1) n else k)"

lemma stop_from_spec:
  "j \<le> max_attempts c \<Longrightarrow> n = nat (max_attempts c - j) \<Longrightarrow>
     j \<le> stop_from c w j n \<and> stop_from c w j n \<le> max_attempts c
     \<and> \<not> goes_on c w (stop_from c w j n)
     \<and> (\<forall>i. j \<le> i \<longrightarrow> i < stop_from c w j n \<longrightarrow> goes_on c w i)"
proof (induction n arbitrary: j)
  case 0
  then show ?case by (auto simp: goes_on_def)
next
  case (Suc n)
  show ?case
  proof (cases "goes_on c w j")
    case True
    have "j + 1 \<le> max_attempts c" "n = nat (max_attempts c - (j + 1))" using Suc.prems by auto
    from Suc.IH [OF this] True show ?thesis
      by (auto simp: le_less) (metis add1_zle_eq le_less)+
  next
    case False
    then have "stop_from c w j (Suc n) = j" by simp
    with False Suc.prems(1) show ?thesis by simp
  qed
qed

definition last_attempt :: "client \<Rightarrow> net \<Rightarrow> int" where
  "last_attempt c w = stop_from c w 1 (nat (max_attempts c - 1))"

lemma max_attempts_pos: "1 \<le> max_attempts c"
  by (simp add: max_attempts_def)

lemma last_attempt:
  "1 \<le> last_attempt c w" "last_attempt c w \<le> max_attempts c" "\<not> goes_on c w (last_attempt c w)"
  "1 \<le> i \<Longrightarrow> i < last_attempt c w \<Longrightarrow> goes_on c w i"
  using stop_from_spec [OF max_attempts_pos refl, of c w] by (auto simp: last_attempt_def)

lemma fetch_orders_run:
  "cl_File c = [] \<Longrightarrow> fetch_orders c w =
     (attempts_upto 1 (last_attempt c w) @ interrupted_sleep c w (last_attempt c w),
      final_outcome c w (last_attempt c w))"
  unfolding fetch_orders_def
  using fetch_loop_run [OF last_attempt(1,2) last_attempt(4) last_attempt(3)] by simp

lemma attempt_in_attempts_upto: "1 \<le> k \<Longrightarrow> Attempt i \<in> set (attempts_upto 1 k) \<longleftrightarrow> 1 \<le> i \<and> i \<le> k"
  by (auto simp: attempts_upto_def)

lemma attempt_not_in_interrupted: "Attempt i \<notin> set (interrupted_sleep c w k)"
  by (auto simp: interrupted_sleep_def split: sum.splits)

lemma attempt_in_trace:
  assumes "cl_File c = []"
  shows "Attempt i \<in> set (fst (fetch_orders c w)) \<longleftrightarrow> 1 \<le> i \<and> i \<le> last_attempt c w"
  using last_attempt(1) [of c w]
  by (simp add: fetch_orders_run [OF assms] attempt_in_attempts_upto attempt_not_in_interrupted)

text \<open>The error of the loop contains the one of its last attempt.\<close>

lemma upstream_survives:
  assumes "cl_File c = []" "fetch_once c w (last_attempt c w) = Inl err"
    and "as_upstream err = Some (status, body)"
  shows "\<exists>e. snd (fetch_orders c w) = Inl e \<and> as_upstream e = Some (status, body)"
  using assms(2,3)
  by (auto simp: fetch_orders_run [OF assms(1)] final_outcome_def retries_exhausted_def Let_def
      split: option.splits)

section \<open>Back-off\<close>

lemma backoff_exact: "0 \<le> n \<Longrightarrow> n \<le> 28 \<Longrightarrow> backoff (n + 1) = 30 * Second * 2 ^ nat n"
proof -
  assume n: "0 \<le> n" "n \<le> 28"
  then have "(2::int) ^ nat n \<le> 2 ^ 28" by (intro power_increasing) auto
  then have "30 * Second * 2 ^ nat n \<le> 30 * Second * 2 ^ 28" by (simp add: Second_def)
  moreover have "0 \<le> 30 * Second * 2 ^ nat n" by (simp add: Second_def)
  moreover have "30 * Second * 2 ^ 28 \<le> int64_max" "int64_min \<le> 0" by code_simp+
  ultimately have "is_int64 (30 * Second * 2 ^ nat n)" unfolding is_int64_def by linarith
  then show ?thesis by (simp add: backoff_def wrap64_id)
qed

fun total_sleep :: "event list \<Rightarrow> int" where
  "total_sleep [] = 0"
| "total_sleep (Attempt k # tr) = total_sleep tr"
| "total_sleep (Sleep d # tr) = d + total_sleep tr"

lemma total_sleep_append: "total_sleep (xs @ ys) = total_sleep xs + total_sleep ys"
  by (induction xs rule: total_sleep.induct) auto

lemma total_sleep_attempts:
  "n \<le> 29 \<Longrightarrow> total_sleep (attempts_upto 1 (int n + 1)) = 30 * Second * (2 ^ n - 1)"
proof (induction n)
  case 0
  then show ?case by (simp add: attempts_upto_def)
next
  case (Suc n)
  have "[1..int (Suc n) + 1 - 1] = [1..int n] @ [int n + 1]"
    using upto_rec2 [of 1 "int n + 1"] by (simp add: add.commute)
  then have "total_sleep (attempts_upto 1 (int (Suc n) + 1))
      = total_sleep (attempts_upto 1 (int n + 1)) + backoff (int n + 1)"
    by (simp add: attempts_upto_def total_sleep_append)
  also have "\<dots> = 30 * Second * (2 ^ Suc n - 1)"
    using Suc backoff_exact [of "int n"] by (simp add: algebra_simps)
  finally show ?case .
qed

lemma total_sleep_run:
  assumes "1 \<le> k" "k \<le> m" "m \<le> 30" "s = [] \<or> s = [Sleep (backoff k)] \<and> k < m"
  shows "total_sleep (attempts_upto 1 k @ s) \<le> 30 * Second * (2 ^ nat (m - 1) - 1)"
proof -
  define n where "n = nat (k - 1)"
  have k: "k = int n + 1" "n \<le> 29" using assms by (auto simp: n_def)
  have t: "total_sleep (attempts_upto 1 k) = 30 * Second * (2 ^ n - 1)"
    unfolding k(1) by (rule total_sleep_attempts [OF k(2)])
  show ?thesis
  proof (cases "s = []")
    case True
    have "(2::int) ^ n \<le> 2 ^ nat (m - 1)" using assms k by (intro power_increasing) auto
    with True t show ?thesis by (simp add: Second_def)
  next
    case False
    then have s: "s = [Sleep (backoff k)]" "n \<le> 28" using assms k by auto
    have "(2::int) ^ Suc n \<le> 2 ^ nat (m - 1)" using assms k False by (intro power_increasing) auto
    moreover have "backoff k = 30 * Second * 2 ^ n" using backoff_exact [of "int n"] s k by simp
    ultimately show ?thesis using s t by (simp add: total_sleep_append Second_def)
  qed
qed

section \<open>Witness data\<close>

definition sample_client :: client where
  "sample_client = \<lparr>cl_URL = ''https://example.invalid/api/v3/events/e/orders/'', cl_Token = ''t'',
     cl_File = [], cl_Timeout = 10 * Minute, cl_Attempts = 3, cl_Now = None, cl_Sleep = None\<rparr>"

text \<open>A server that answers attempt \<open>k\<close> with the \<open>k\<close>-th status, and the last one from then on.\<close>

definition sample_net :: "int list \<Rightarrow> net" where
  "sample_net statuses =
     \<lparr>net_NewRequest = (\<lambda>url. None),
      net_Do = (\<lambda>k req. Inr \<lparr>rsp_StatusCode = statuses ! min (nat (k - 1)) (length statuses - 1),
                             rsp_Body = ''{}'', rsp_BodyErr = None\<rparr>),
      net_Open = (\<lambda>path. Inl (ErrText ''no such file'')),
      net_CtxErr = (\<lambda>k. None),
      net_Select = (\<lambda>k d. TimerFired),
      net_Now = (\<lambda>k. \<lparr>t_wall = k * Minute, t_mono = Some (k * Minute)\<rparr>)\<rparr>"

section \<open>Properties\<close>

text \<open>
  C9. The whole behaviour of \<open>FetchOrders\<close> against the API: it always returns, after between one
  and the configured number of attempts; every attempt but the last failed with anything but a
  status below 500, 520, 522, 523 or 524 while the context was alive, with its back-off slept to the
  end before the next; the last is the configured last, succeeded, was refused so or was interrupted;
  and the result is what the last attempt decides.
\<close>

theorem fetch_orders_spec:
  "(if cl_File c \<noteq> [] then True
    else \<exists>k. 1 \<le> k \<and> k \<le> max_attempts c \<and> list_all (goes_on c w) [1..k - 1] \<and> \<not> goes_on c w k
      \<and> fetch_orders c w = (attempts_upto 1 k @ interrupted_sleep c w k, final_outcome c w k))"
proof -
  have "list_all (goes_on c w) [1..last_attempt c w - 1]"
    using last_attempt(4) by (auto simp: list_all_iff)
  then show ?thesis
    using last_attempt(1-3) [of c w] fetch_orders_run [of c w] by (cases "cl_File c = []") auto
qed

text \<open>
  A refused request and an exhausted origin are never retried: once an attempt fails with a
  status below 500, or with 520, 522, 523 or 524, there is no further attempt and no sleep, and the
  error is returned as it is.
\<close>

theorem fetch_gives_up:
  assumes "cl_File c = []" "Attempt k \<in> set (fst (fetch_orders c w))"
    and "fetch_once c w k = Inl err" "as_upstream err = Some (status, body)"
    and "status < 500 \<or> status \<in> {520, 522, 523, 524}"
  shows "fetch_orders c w = (attempts_upto 1 k, Inl err)"
proof -
  have up: "refused err" using assms(4,5) by (auto simp: refused_def)
  have "1 \<le> k" "k \<le> last_attempt c w" using assms(2) by (simp_all add: attempt_in_trace [OF assms(1)])
  moreover have "\<not> goes_on c w k" using assms(3) up by (simp add: goes_on_def)
  ultimately have "k = last_attempt c w" using last_attempt(4) [of k c w] by fastforce
  moreover have "final_outcome c w k = Inl err" "interrupted_sleep c w k = []"
    using assms(3) up by (simp_all add: final_outcome_def interrupted_sleep_def)
  ultimately show ?thesis by (simp add: fetch_orders_run [OF assms(1)])
qed

theorem fetch_gives_up_witness:
  "fetch_orders sample_client (sample_net [503, 401]) =
     (attempts_upto 1 2, Inl (ErrUpstream 401 ''{}''))"
  by (rule fetch_gives_up) code_simp+

text \<open>
  An upstream status is not lost on the way out: when the last attempt failed with one, the
  error returned still carries it, also after the retries are exhausted and when the context ended.
  So a caller that looks for \<open>ErrUpstream\<close> finds it for a 503 that was retried as for a 401.
\<close>

theorem fetch_upstream_survives:
  assumes "cl_File c = []" "fetch_once c w (last_attempt c w) = Inl err"
    and "as_upstream err = Some (status, body)"
  shows "\<exists>e. snd (fetch_orders c w) = Inl e \<and> as_upstream e = Some (status, body)"
  by (rule upstream_survives [OF assms])

theorem fetch_upstream_survives_witness:
  "\<exists>e. snd (fetch_orders sample_client (sample_net [503])) = Inl e \<and> as_upstream e = Some (503, ''{}'')"
  by (rule fetch_upstream_survives [where err = "ErrUpstream 503 ''{}''"]) code_simp+

text \<open>
  C30. The back-off doubles from 30 seconds for as long as a refresh can plausibly go on, and up to
  30 attempts the sleeps add up to at most the geometric sum, 90 seconds for the default of three;
  the shift wraps at the thirtieth, whose back-off is negative and so no wait at all.
\<close>

theorem fetch_backoff:
  "(if 1 \<le> k \<and> k \<le> 29 then backoff k = 30 * Second * 2 ^ nat (k - 1) else True)
   \<and> backoff 30 < 0
   \<and> (if max_attempts c \<le> 30
      then total_sleep (fst (fetch_orders c w)) \<le> 30 * Second * (2 ^ nat (max_attempts c - 1) - 1)
      else True)"
proof -
  have "total_sleep (fst (fetch_orders c w)) \<le> 30 * Second * (2 ^ nat (max_attempts c - 1) - 1)"
    if "max_attempts c \<le> 30"
  proof (cases "cl_File c = []")
    case True
    let ?k = "last_attempt c w"
    have "interrupted_sleep c w ?k = [] \<or> interrupted_sleep c w ?k = [Sleep (backoff ?k)] \<and> ?k < max_attempts c"
      by (auto simp: interrupted_sleep_def split: sum.splits)
    then show ?thesis
      unfolding fetch_orders_run [OF True] fst_conv
      by (intro total_sleep_run last_attempt(1,2) that)
  next
    case False
    then show ?thesis by (simp add: fetch_orders_def Second_def)
  qed
  moreover have "backoff 30 < 0" by code_simp
  ultimately show ?thesis using backoff_exact [of "k - 1"] by auto
qed

text \<open>
  With a file configured nothing is sent and nothing is waited for: the result does not depend
  on the server, the context or the sleeps.
\<close>

lemma fetch_from_file:
  "fst (fetch_orders (c\<lparr>cl_File := f # fs\<rparr>) w) = []
   \<and> fetch_orders (c\<lparr>cl_File := f # fs\<rparr>)
        (w\<lparr>net_NewRequest := nr, net_Do := send, net_CtxErr := ctx, net_Select := sel\<rparr>)
      = fetch_orders (c\<lparr>cl_File := f # fs\<rparr>) w"
  by (cases "cl_Now c") (simp_all add: fetch_orders_def read_file_def time_now_def)

end
