(* ===== verification/Snapshot.thy ===== *)
theory Snapshot
  imports JsonRead TbClient
begin

text \<open>
  \<open>internal/snapshot/snapshot.go\<close>: what one fetch is turned into, its age, and its stored form.
  The stored form is the compressed JSON text of the snapshot; decoding it scans the text and reads
  the tree. \<open>compress/gzip\<close> is a parameter, the record \<open>codec\<close>, its error paths included.
\<close>

section \<open>Building\<close>

record snapshot =
  snap_FetchedAt :: gotime
  snap_SourceDurationMS :: int
  snap_Summary :: summary
  snap_Sponsors :: "sponsor slice"
  snap_Orders :: orders_response

definition build :: "fetch_result \<Rightarrow> gotime \<Rightarrow> options \<Rightarrow> snapshot" where
  "build result fetched_at opts =
     \<lparr>snap_FetchedAt = utc fetched_at,
      snap_SourceDurationMS = milliseconds (res_Duration result),
      snap_Summary = summarise (res_Orders result) opts,
      snap_Sponsors = sponsors (res_Orders result) opts,
      snap_Orders = res_Orders result\<rparr>"

lemma built_at [simp]:
  "t_wall (snap_FetchedAt (build r now opts)) = t_wall now" "t_mono (snap_FetchedAt (build r now opts)) = None"
  by (simp_all add: build_def)

definition age :: "snapshot \<Rightarrow> gotime \<Rightarrow> int" where
  "age s now = time_sub now (snap_FetchedAt s)"

definition stale :: "snapshot \<Rightarrow> gotime \<Rightarrow> int \<Rightarrow> bool" where
  "stale s now staleAfter \<longleftrightarrow> staleAfter < age s now"

section \<open>The stored form\<close>

definition json_snapshot :: "snapshot \<Rightarrow> json" where
  "json_snapshot s =
     JObj [(''fetched_at'', json_time (snap_FetchedAt s)),
           (''source_duration_ms'', JInt (snap_SourceDurationMS s)),
           (''summary'', JObj (json_summary_fields (snap_Summary s))),
           (''sponsors'', json_slice json_sponsor (snap_Sponsors s)),
           (''orders'', json_orders_response (snap_Orders s))]"

text \<open>The text \<open>Encoder.Encode\<close> writes ends in a line break.\<close>

definition snapshot_text :: "snapshot \<Rightarrow> string" where
  "snapshot_text s = json_print (json_snapshot s) @ [chr 10]"

text \<open>Decoding a time reads the text between the quotes; what is read has no monotonic clock reading.\<close>

definition zero_time :: gotime where
  "zero_time = \<lparr>t_wall = - 62135596800 * Second, t_mono = None\<rparr>"

definition unmarshal_time :: "gotime decoder" where
  "unmarshal_time v =
     (case v of
        PNull \<Rightarrow> Inr zero_time
      | PStr r s \<Rightarrow>
          (case parse_rfc3339 (butlast (tl r)) of
             Some t \<Rightarrow> Inr \<lparr>t_wall = t, t_mono = None\<rparr>
           | None \<Rightarrow> Inl (ErrText (''parsing time '' @ r)))
      | _ \<Rightarrow> Inl (ErrText ''Time.UnmarshalJSON: input is not a JSON string''))"

definition unmarshal_snapshot :: "snapshot decoder" where
  "unmarshal_snapshot = unmarshal_struct (\<lambda>kvs.
     res_bind (field kvs ''fetched_at'' unmarshal_time) (\<lambda>fetched_at.
     res_bind (field kvs ''source_duration_ms'' unmarshal_int) (\<lambda>duration_ms.
     res_bind (field kvs ''summary'' unmarshal_summary) (\<lambda>summary.
     res_bind (field kvs ''sponsors'' (unmarshal_slice unmarshal_sponsor)) (\<lambda>sponsors.
     res_bind (field kvs ''orders'' unmarshal_orders_response) (\<lambda>orders.
       Inr \<lparr>snap_FetchedAt = fetched_at, snap_SourceDurationMS = duration_ms, snap_Summary = summary,
            snap_Sponsors = sponsors, snap_Orders = orders\<rparr>))))))"

text \<open>\<open>cd_Gunzip\<close> yields the bytes that can be decompressed and the error after them, if any.\<close>

record codec =
  cd_Gzip :: "string \<Rightarrow> goerr + string"
  cd_Gunzip :: "string \<Rightarrow> goerr + (string \<times> goerr option)"

definition max_decompressed :: nat where
  "max_decompressed = 256 * 2 ^ 20"

text \<open>\<open>io.LimitReader\<close>: at the limit the reader reports the end of its input.\<close>

definition limit_reader :: "nat \<Rightarrow> string \<times> goerr option \<Rightarrow> string \<times> goerr option" where
  "limit_reader n r = (case r of (bytes, err) \<Rightarrow> if n \<le> length bytes then (take n bytes, None) else (bytes, err))"

definition encode :: "codec \<Rightarrow> snapshot \<Rightarrow> goerr + string" where
  "encode cd s =
     res_bind (res_map_err (ErrWrap ''encoding snapshot'') (json_marshal (json_snapshot s))) (\<lambda>v.
       res_map_err (ErrWrap ''compressing snapshot'') (cd_Gzip cd (json_print v @ [chr 10])))"

definition decode :: "codec \<Rightarrow> string \<Rightarrow> goerr + snapshot" where
  "decode cd data =
     res_bind (res_map_err (ErrWrap ''reading snapshot'') (cd_Gunzip cd data)) (\<lambda>zr.
       case limit_reader max_decompressed zr of
         (bytes, err) \<Rightarrow> res_map_err (ErrWrap ''decoding snapshot'') (res_bind (json_parse bytes err) unmarshal_snapshot))"

text \<open>
  What is left of a snapshot that was stored and read: a time has no monotonic reading (that of a
  built snapshot has none to lose), amounts have two decimals, discounts are compacted.
\<close>

definition snapshot_reread :: "snapshot \<Rightarrow> snapshot" where
  "snapshot_reread s =
     s\<lparr>snap_FetchedAt := (snap_FetchedAt s)\<lparr>t_mono := None\<rparr>, snap_Orders := orders_reread (snap_Orders s)\<rparr>"

text \<open>
  What can be read back: values of their types as the payload has them, a time in the years 0 to
  9999, and discounts that nest at most 9996 deep, since they sit inside four more levels.
\<close>

definition discounts_fit :: "orders_response \<Rightarrow> bool" where
  "discounts_fit r \<longleftrightarrow> list_all (\<lambda>od. order_Discount od = [] \<or> raw_fits (max_depth - 4) (order_Discount od)) (elems (resp_Orders r))"

definition snapshot_storable :: "snapshot \<Rightarrow> bool" where
  "snapshot_storable s \<longleftrightarrow> readable (json_snapshot s) \<and> orders_storable (snap_Orders s) \<and> discounts_fit (snap_Orders s)"

text \<open>What \<open>compress/gzip\<close> documents, for the text of one snapshot: decompressing undoes compressing.\<close>

definition codec_ok :: "codec \<Rightarrow> snapshot \<Rightarrow> bool" where
  "codec_ok cd s \<longleftrightarrow>
     (case cd_Gzip cd (snapshot_text s) of Inl _ \<Rightarrow> True | Inr z \<Rightarrow> cd_Gunzip cd z = Inr (snapshot_text s, None))"

subsection \<open>Nesting\<close>

text \<open>How deep the values of each type nest.\<close>

lemma printable_slice: "0 < d \<Longrightarrow> printable d (json_slice f xs) \<longleftrightarrow> list_all (\<lambda>x. printable (d - 1) (f x)) (elems xs)"
  by (cases xs) (simp_all add: json_slice_def list.pred_map comp_def)

lemma printable_option: "printable d (json_option f x) \<longleftrightarrow> pred_option (\<lambda>y. printable d (f y)) x"
  by (cases x) (simp_all add: json_option_def)

lemma printable_amount: "printable d (json_amount a)"
  by (simp add: json_amount_def)

lemma printable_address: "0 < d \<Longrightarrow> printable d (json_address a)"
  by (simp add: json_address_def)

lemma printable_choice: "0 < d \<Longrightarrow> printable d (json_choice c)"
  by (simp add: json_choice_def)

lemma printable_answer: "3 \<le> d \<Longrightarrow> printable d (json_answer a)"
  by (simp add: json_answer_def printable_slice printable_choice list_all_True)

lemma printable_answer_collection: "5 \<le> d \<Longrightarrow> printable d (json_answer_collection a)"
  by (simp add: json_answer_collection_def printable_slice printable_answer list_all_True)

lemma printable_ticket: "6 \<le> d \<Longrightarrow> printable d (json_ticket t)"
  by (simp add: json_ticket_def printable_amount printable_option printable_answer_collection option.pred_True split: option.split)

lemma printable_order_line: "0 < d \<Longrightarrow> printable d (json_order_line l)"
  by (simp add: json_order_line_def printable_amount printable_option option.pred_True)

lemma printable_order:
  assumes "readable (json_order od)" "order_Discount od = [] \<or> raw_fits (d - 1) (order_Discount od)" "8 \<le> d"
  shows "printable d (json_order od)"
  using assms
  by (auto simp: json_order_def printable_slice printable_ticket printable_order_line printable_address list_all_True)

lemma printable_orders:
  assumes "readable (json_orders_response r)" "discounts_fit r"
  shows "printable (max_depth - 1) (json_orders_response r)"
proof -
  have "printable (max_depth - 3) (json_order od)" if "od \<in> set (elems (resp_Orders r))" for od
    using assms that
    by (intro printable_order)
      (auto simp: json_orders_response_def readable_slice discounts_fit_def list_all_iff max_depth_def)
  then show ?thesis by (simp add: json_orders_response_def printable_slice max_depth_def list_all_iff)
qed

lemma readable_map: "readable (json_map f m) \<longleftrightarrow> list_all (\<lambda>(k, v). valid_utf8 k \<and> readable (f v)) (elems m)"
  by (cases m) (simp_all add: json_map_def list.pred_map comp_def case_prod_unfold)

lemma printable_map: "1 < d \<Longrightarrow> list_all (\<lambda>(k, v). printable (d - 1) (f v)) (elems m) \<Longrightarrow> printable d (json_map f m)"
  by (cases m) (simp_all add: json_map_def list.pred_map comp_def case_prod_unfold)

lemma printable_sizes: "0 < d \<Longrightarrow> printable d (json_size_counts s)"
  by (simp add: json_size_counts_def)

lemma printable_sponsor: "0 < d \<Longrightarrow> printable d (json_sponsor s)"
  by (simp add: json_sponsor_def)

lemma printable_summary:
  assumes "readable (JObj (json_summary_fields s))" "4 \<le> d"
  shows "printable d (JObj (json_summary_fields s))"
proof -
  have "list_all (\<lambda>(k, g). f64_ok (tg_IncomeExVAT g) \<and> f64_finite (tg_IncomeExVAT g)) (elems (sum_TicketGroups s))"
    using assms(1) by (auto simp: json_summary_fields_def readable_map json_ticket_group_def list_all_iff)
  then have "printable (d - 1) (json_map json_ticket_group (sum_TicketGroups s))"
    using assms(2) by (intro printable_map) (auto simp: json_ticket_group_def list_all_iff)
  moreover have "printable (d - 1) (json_map JInt (sum_OrdersByState s))" "printable (d - 1) (json_map json_size_counts (sum_Merch s))"
    using assms(2) by (auto intro!: printable_map simp: printable_sizes list_all_iff)
  ultimately show ?thesis
    using assms(2) by (simp add: json_summary_fields_def json_counts_def printable_sizes)
qed

lemma printable_snapshot:
  assumes "snapshot_storable s"
  shows "printable max_depth (json_snapshot s)"
proof -
  have r: "readable (JObj (json_summary_fields (snap_Summary s)))" "readable (json_orders_response (snap_Orders s))"
    using assms by (simp_all add: snapshot_storable_def json_snapshot_def)
  have "printable (max_depth - 1) (json_slice json_sponsor (snap_Sponsors s))"
    by (simp add: printable_slice printable_sponsor list_all_True max_depth_def)
  moreover have "printable (max_depth - 1) (JObj (json_summary_fields (snap_Summary s)))"
    by (rule printable_summary [OF r(1)]) (simp add: max_depth_def)
  moreover have "printable (max_depth - 1) (json_orders_response (snap_Orders s))"
    using assms by (intro printable_orders r(2)) (simp add: snapshot_storable_def)
  moreover have "0 < max_depth" by (simp add: max_depth_def)
  ultimately show ?thesis by (simp add: json_snapshot_def json_time_def del: printable.simps(8))
qed

subsection \<open>Reading back\<close>

lemma read_time: "time_writable t \<Longrightarrow> unmarshal_time (parsed_of (JTime t)) = Inr \<lparr>t_wall = t, t_mono = None\<rparr>"
  by (simp add: unmarshal_time_def parse_time_text)

lemma read_snapshot:
  assumes "snapshot_storable s" "maps_sorted (snap_Summary s)"
  shows "unmarshal_snapshot (parsed_of (json_snapshot s)) = Inr (snapshot_reread s)"
proof -
  have "unmarshal_time (parsed_of (json_time (snap_FetchedAt s))) = Inr ((snap_FetchedAt s)\<lparr>t_mono := None\<rparr>)"
    using assms(1) read_time by (simp add: snapshot_storable_def json_snapshot_def json_time_def)
  moreover have r: "is_int64 (snap_SourceDurationMS s)" "readable (JObj (json_summary_fields (snap_Summary s)))"
    "readable (json_slice json_sponsor (snap_Sponsors s))" "readable (json_orders_response (snap_Orders s))"
    using assms(1) by (simp_all add: snapshot_storable_def json_snapshot_def)
  moreover have "orders_storable (snap_Orders s)" using assms(1) by (simp add: snapshot_storable_def)
  moreover have "readable (json_snapshot s)" using assms(1) by (simp add: snapshot_storable_def)
  ultimately show ?thesis
    unfolding json_snapshot_def unmarshal_snapshot_def
    by (subst unmarshal_json_struct)
      (simp_all add: field_exact read_summary [OF _ assms(2)] unmarshal_json_slice_same read_sponsor read_orders_response
        snapshot_reread_def del: parsed_of.simps readable.simps(7))
qed

lemma json_ok_snapshot:
  "json_ok (json_snapshot s) \<longleftrightarrow>
     time_writable (t_wall (snap_FetchedAt s))
     \<and> list_all (\<lambda>(k, g). f64_finite (tg_IncomeExVAT g)) (elems (sum_TicketGroups (snap_Summary s)))
     \<and> list_all order_writable (elems (resp_Orders (snap_Orders s)))"
  using json_ok_summary [of "snap_Summary s"]
  by (simp add: json_snapshot_def json_time_def json_ok_slice list_all_True json_ok_plain json_ok_orders_response)

lemma encode_Inr:
  "encode cd s = Inr data \<longleftrightarrow> json_ok (json_snapshot s) \<and> cd_Gzip cd (snapshot_text s) = Inr data"
  using json_bad_None(1) [of "json_snapshot s"]
  by (auto simp: encode_def json_marshal_def snapshot_text_def split: option.splits)

lemma isl_encode:
  "isl (encode cd s) \<longleftrightarrow> \<not> json_ok (json_snapshot s) \<or> isl (cd_Gzip cd (snapshot_text s))"
proof (cases "json_bad (json_snapshot s)")
  case None
  then show ?thesis
    using json_bad_None(1) [of "json_snapshot s"]
    by (cases "cd_Gzip cd (snapshot_text s)") (simp_all add: encode_def json_marshal_def snapshot_text_def)
next
  case (Some x)
  then show ?thesis using json_bad_None(1) [of "json_snapshot s"] by (simp add: encode_def json_marshal_def)
qed

text \<open>A stored snapshot reads back when its JSON fits the limit of the decoder.\<close>

lemma limit_reader_all: "length bytes \<le> n \<Longrightarrow> limit_reader n (bytes, None) = (bytes, None)"
  by (simp add: limit_reader_def)

lemma decode_encode:
  assumes "codec_ok cd s" "snapshot_storable s" "maps_sorted (snap_Summary s)" "encode cd s = Inr data"
    and "length (snapshot_text s) \<le> max_decompressed"
  shows "decode cd data = Inr (snapshot_reread s)"
proof -
  have "cd_Gzip cd (snapshot_text s) = Inr data" using assms(4) by (simp add: encode_Inr)
  then have "cd_Gunzip cd data = Inr (snapshot_text s, None)" using assms(1) by (simp add: codec_ok_def)
  moreover have "json_parse (snapshot_text s) None = Inr (parsed_of (json_snapshot s))"
    unfolding snapshot_text_def
    by (rule json_parse_print [OF printable_snapshot [OF assms(2)]]) (simp add: json_snapshot_def)
  ultimately show ?thesis
    by (simp add: decode_def limit_reader_all [OF assms(5)] read_snapshot [OF assms(2,3)])
qed

lemma build_maps_sorted: "maps_sorted (snap_Summary (build r now opts))"
  by (simp add: build_def summarise_maps_sorted)

lemmas decode_built = decode_encode [OF _ _ build_maps_sorted]

text \<open>A sum with a term that is not finite is not finite.\<close>

lemma f64_add_not_finite: "\<not> f64_finite x \<or> \<not> f64_finite y \<Longrightarrow> \<not> f64_finite (f64_add x y)"
  by (cases x; cases y) (simp_all del: f64_add.simps(1))

lemma f64_sum_not_finite:
  "\<not> f64_finite acc \<or> (\<exists>x \<in> set xs. \<not> f64_finite (f x)) \<Longrightarrow>
     \<not> f64_finite (fold (\<lambda>x acc. f64_add acc (f x)) xs acc)"
proof (induction xs arbitrary: acc)
  case (Cons x xs)
  then show ?case using f64_add_not_finite [of acc "f x"] by auto
qed simp

section \<open>Ages\<close>

lemma is_int64_age: "is_int64 (age s now)"
  by (simp add: age_def is_int64_time_sub)

text \<open>Saturation at the ends of \<open>int64\<close> does not change which ages exceed a limit inside it.\<close>

lemma sat64_less: "int64_min \<le> limit \<Longrightarrow> limit < int64_max \<Longrightarrow> limit < sat64 n \<longleftrightarrow> limit < n"
  by (auto simp: sat64_def)

lemma stale_mono:
  assumes "t_wall now \<le> t_wall now'" "t_mono (snap_FetchedAt s) = None" "stale s now limit"
  shows "stale s now' limit"
proof -
  have "age s now \<le> age s now'"
    using assms(1,2) sat64_mono [of "t_wall now - t_wall (snap_FetchedAt s)" "t_wall now' - t_wall (snap_FetchedAt s)"]
    by (simp add: age_def time_sub_def split: option.split)
  with assms(3) show ?thesis by (simp add: stale_def)
qed

section \<open>Witness data\<close>

text \<open>A compression that puts one byte in front.\<close>

definition sample_codec :: codec where
  "sample_codec =
     \<lparr>cd_Gzip = (\<lambda>js. Inr (CHR ''z'' # js)),
      cd_Gunzip = (\<lambda>z. if z \<noteq> [] \<and> hd z = CHR ''z'' then Inr (tl z, None) else Inl (ErrText ''gzip: invalid header''))\<rparr>"

definition sample_data :: "snapshot \<Rightarrow> string" where
  "sample_data s = CHR ''z'' # snapshot_text s"

definition sample_time :: "int \<Rightarrow> gotime" where
  "sample_time n = \<lparr>t_wall = n, t_mono = Some n\<rparr>"

definition sample_fetch :: "int \<Rightarrow> fetch_result" where
  "sample_fetch d =
     \<lparr>res_Orders = \<lparr>resp_UUID = ''event'', resp_Orders = Some [(sample_order [])\<lparr>order_VATRate := f64_zero\<rparr>]\<rparr>, res_Duration = d\<rparr>"

definition sample_snapshot :: snapshot where
  "sample_snapshot = build (sample_fetch (90 * Second)) (sample_time 0) sample_options"

lemma sample_json_ok:
  assumes "time_writable (t_wall now)"
  shows "json_ok (json_snapshot (build (sample_fetch d) now opts))"
proof -
  have "sum_TicketGroups (summarise (res_Orders (sample_fetch d)) opts) = Some []"
    by (simp add: sample_fetch_def sample_order_def summarise_def summarise_order_def count_order_def summary_init_def)
  moreover have "list_all order_writable (elems (resp_Orders (res_Orders (sample_fetch d))))"
    by (simp add: sample_fetch_def sample_order_def order_writable_def f64_zero_def)
  ultimately show ?thesis using assms by (simp add: json_ok_snapshot build_def)
qed

lemma sample_time_writable: "0 \<le> n \<Longrightarrow> n < Second \<Longrightarrow> time_writable (t_wall (sample_time n))"
proof -
  assume "0 \<le> n" "n < Second"
  then have "day_of n = epoch_day" by (simp add: day_of_def)
  moreover have "(let y = year_of epoch_day in 0 \<le> y \<and> y \<le> 9999)" by code_simp
  ultimately show ?thesis by (simp add: time_writable_def sample_time_def)
qed

lemma sample_encodes:
  assumes "0 \<le> n" "n < Second"
  shows "encode sample_codec (build (sample_fetch d) (sample_time n) opts) = Inr (sample_data (build (sample_fetch d) (sample_time n) opts))"
  using sample_time_writable [OF assms] by (simp add: encode_Inr sample_json_ok) (simp add: sample_codec_def sample_data_def)

lemmas sample_encodes_at = sample_encodes [of 0, simplified Second_def, simplified] sample_encodes [of 9, simplified Second_def, simplified]

lemma sample_snapshot_encodes: "encode sample_codec sample_snapshot = Inr (sample_data sample_snapshot)"
  unfolding sample_snapshot_def by (rule sample_encodes_at)

lemma sample_codec_ok: "codec_ok sample_codec s"
  by (simp add: codec_ok_def sample_codec_def)

lemma sample_storable:
  assumes "0 \<le> d" "d \<le> 90 * Second"
  shows "snapshot_storable (build (sample_fetch d) (sample_time 0) opts)"
proof -
  let ?s = "build (sample_fetch d) (sample_time 0) opts"
  have sm: "snap_Summary ?s = summarise (res_Orders (sample_fetch 0)) \<lparr>opt_MerchNamePatterns = [], opt_SponsorTicketTypePKs = []\<rparr>"
    by (simp add: build_def sample_fetch_def sample_order_def summarise_def summarise_order_def count_order_def summary_init_def)
  have sp: "snap_Sponsors ?s = None"
    by (simp add: build_def sample_fetch_def sample_order_def sponsors_def sponsors_by_def)
  have "readable (JObj (json_summary_fields (summarise (res_Orders (sample_fetch 0))
      \<lparr>opt_MerchNamePatterns = [], opt_SponsorTicketTypePKs = []\<rparr>)))"
    by (simp add: json_summary_fields_def json_counts_def readable_map gm_put_def json_size_counts_def sample_fetch_def
        sample_order_def summarise_def summarise_order_def count_order_def summary_init_def size_counts_zero_def
        gm_at_def gm_get_def SchemaVersion_def is_int64_def int64_min_def int64_max_def valid_utf8_ascii byte_def)
  moreover have "readable (json_orders_response (res_Orders (sample_fetch 0)))"
    by (simp add: json_orders_response_def json_order_def json_address_def json_slice_def sample_fetch_def
        sample_order_def valid_utf8_ascii byte_def f64_ok_consts) (simp add: f64_zero_def)
  moreover have "list_all valid_utf8 [''fetched_at'', ''source_duration_ms'', ''summary'', ''sponsors'', ''orders'']"
    by (simp add: valid_utf8_ascii byte_def)
  moreover have "is_int64 (milliseconds d)"
    using assms quot0_bounds [of "10 ^ 6" d]
    by (simp add: milliseconds_def Millisecond_def is_int64_def int64_min_def int64_max_def Second_def)
  moreover have "orders_storable (res_Orders (sample_fetch 0))" by code_simp
  moreover have "discounts_fit (res_Orders (sample_fetch 0))" by (simp add: discounts_fit_def sample_fetch_def sample_order_def)
  ultimately show ?thesis
    using sm sp by (simp add: snapshot_storable_def json_snapshot_def json_slice_def) (use sample_time_writable [of 0] in \<open>simp add: build_def sample_fetch_def json_time_def Second_def\<close>)
qed

lemma sample_snapshot_storable: "snapshot_storable sample_snapshot"
  unfolding sample_snapshot_def by (rule sample_storable) (simp_all add: Second_def)

text \<open>The amounts of the sample are whole cents, so nothing is lost.\<close>

lemma sample_reread:
  "snapshot_reread (build (sample_fetch d) now opts) = build (sample_fetch d) now opts"
  by (simp add: snapshot_reread_def orders_reread_def build_def sample_fetch_def order_reread_def sample_order_def utc_def)

section \<open>Properties\<close>

text \<open>
  A snapshot is consistent: the summary and the sponsors it carries are those of the orders it
  carries, so a read never has to compute them; and the duration in milliseconds is that of the
  fetch, rounded towards zero.
\<close>

theorem build_consistent:
  "(let s = build r now opts in
      snap_Summary s = summarise (snap_Orders s) opts
      \<and> snap_Sponsors s = sponsors (snap_Orders s) opts
      \<and> snap_Orders s = res_Orders r
      \<and> sum_EventUUID (snap_Summary s) = resp_UUID (snap_Orders s)
      \<and> \<bar>res_Duration r - snap_SourceDurationMS s * 10 ^ 6\<bar> < 10 ^ 6
      \<and> \<bar>snap_SourceDurationMS s * 10 ^ 6\<bar> \<le> \<bar>res_Duration r\<bar>)"
proof -
  have "fold (\<lambda>od u. u) xs u = u" for xs :: "order list" and u :: string
    by (induction xs) auto
  then have "sum_EventUUID (summarise resp opts) = resp_UUID resp" for resp
    using summary_component_orders [where p = sum_EventUUID and g = "\<lambda>od u. u" and resp = resp and opts = opts]
    by (simp add: summary_steps count_order_def summary_init_def split: option.split)
  moreover have "\<bar>d - milliseconds d * 10 ^ 6\<bar> < 10 ^ 6 \<and> \<bar>milliseconds d * 10 ^ 6\<bar> \<le> \<bar>d\<bar>" for d
    using quot0_bounds [of "10 ^ 6" d] by (simp add: milliseconds_def Millisecond_def)
  ultimately show ?thesis by (simp add: build_def Let_def)
qed

text \<open>
  A stored snapshot is stale exactly when more than the limit has passed on the wall clock
  since it was fetched; the saturation of \<open>Time.Sub\<close> makes no difference, and a stale snapshot
  stays stale.
\<close>

theorem stale_spec:
  "(if int64_min \<le> limit \<and> limit < int64_max
    then stale (snapshot_reread s) now limit \<longleftrightarrow> t_wall (snap_FetchedAt s) + limit < t_wall now else True)
   \<and> (if stale (snapshot_reread s) now limit \<and> t_wall now \<le> t_wall now' then stale (snapshot_reread s) now' limit else True)"
proof -
  have "stale (snapshot_reread s) now limit \<longleftrightarrow> limit < sat64 (t_wall now - t_wall (snap_FetchedAt s))"
    by (simp add: stale_def age_def snapshot_reread_def time_sub_def split: option.split)
  then have "int64_min \<le> limit \<and> limit < int64_max \<Longrightarrow>
      stale (snapshot_reread s) now limit \<longleftrightarrow> t_wall (snap_FetchedAt s) + limit < t_wall now"
    by (auto simp: sat64_less)
  moreover have "t_mono (snap_FetchedAt (snapshot_reread s)) = None" by (simp add: snapshot_reread_def)
  ultimately show ?thesis using stale_mono [of now now' "snapshot_reread s" limit] by simp
qed

end
