(* ===== verification/Storable.thy ===== *)
theory Storable
  imports Payload Snapshot
begin

text \<open>
  What the refresher may rely on: the aggregates of a decoded payload are values of their types again,
  their counts bounded by the size of the stored text, so that every snapshot built from a fetch is
  read back as it was stored. The interface \<open>Fetcher\<close> of \<open>internal/snapshot/refresher.go\<close> is
  the locale \<open>fetcher\<close>; the client is its interpretation.
\<close>

section \<open>Aggregates of a payload\<close>

text \<open>The parts of a typed payload that the aggregates are made of.\<close>

lemma typed_parts:
  assumes "typed (json_orders_response r)"
  shows "valid_utf8 (resp_UUID r)"
    and "od \<in> set (elems (resp_Orders r)) \<Longrightarrow> valid_utf8 (order_State od)"
    and "od \<in> set (elems (resp_Orders r)) \<Longrightarrow> t \<in> set (elems (order_Tickets od)) \<Longrightarrow>
      f64_ok (order_VATRate od) \<and> typed (json_ticket t)"
  using assms by (auto simp: json_orders_response_def json_order_def typed_slice list_all_iff)

lemma typed_ticket:
  assumes "typed (json_orders_response r)" "(od, t) \<in> set (order_tickets r)"
  shows "f64_ok (order_VATRate od)" "typed (json_ticket t)" "od \<in> set (elems (resp_Orders r))"
  using assms typed_parts(3) [OF assms(1)] by (auto simp: order_tickets_def)

text \<open>Numbers of things: counts that fit an \<open>int\<close>.\<close>

lemma is_int64_count: "0 \<le> k \<Longrightarrow> k \<le> int n \<Longrightarrow> n < 2 ^ 63 \<Longrightarrow> is_int64 k"
proof -
  assume "0 \<le> k" "k \<le> int n" "n < 2 ^ 63"
  moreover from this have "int n < 2 ^ 63" by (metis of_nat_less_iff of_nat_numeral of_nat_power)
  ultimately show ?thesis by (simp add: is_int64_def int64_min_def int64_max_def)
qed

lemma gm_entry: "gm_ok m \<Longrightarrow> (k, v) \<in> set (elems m) \<Longrightarrow> gm_get m k = Some v"
  for k :: "'k::linorder"
  by (auto simp: gm_ok_def gm_get_def strict_sorted_iff intro: map_of_is_SomeI)

lemma size_fields:
  "sc_Small s = size_count s ''small''" "sc_Medium s = size_count s ''medium''" "sc_Large s = size_count s ''large''"
  "sc_XL s = size_count s ''xl''" "sc_XXL s = size_count s ''2xl''" "sc_XXXL s = size_count s ''3xl''"
  by (simp_all add: size_count_def)

lemma typed_sizes:
  assumes "\<And>sz. 0 \<le> size_count s sz \<and> size_count s sz \<le> int n" "n < 2 ^ 63"
  shows "typed (json_size_counts s)"
  using assms(1) by (simp add: json_size_counts_def size_fields is_int64_count [OF _ _ assms(2)] valid_utf8_ascii byte_def)

lemma typed_map: "typed (json_map f m) \<longleftrightarrow> (\<forall>(k, v) \<in> set (elems m). valid_utf8 k \<and> typed (f v))"
  by (cases m) (auto simp: json_map_def list_all_iff)

lemma income_ok:
  assumes "payload_ok r" "(od, t) \<in> set (order_tickets r)"
  shows "f64_ok (row_income od t)"
proof -
  have "typed (json_orders_response r)" "f64_ok (ticket_PriceTotal t)"
    using assms by (auto simp: payload_ok_def prices_ok_def order_tickets_def list_all_iff)
  then show ?thesis
    using typed_ticket(1) [of r od t] assms(2)
    by (simp add: row_income_spec income_spec_def f64_ok_div f64_ok_add f64_ok_consts)
qed

lemma f64_ok_fold: "f64_ok acc \<Longrightarrow> \<forall>x \<in> set xs. f64_ok (f x) \<Longrightarrow> f64_ok (fold (\<lambda>x acc. f64_add acc (f x)) xs acc)"
  by (induction xs arbitrary: acc) (simp_all add: f64_ok_add)

text \<open>The entries of the three maps of a summary, with counts that are numbers of orders or tickets.\<close>

lemma groups_typed:
  assumes "payload_ok r" "length (order_tickets r) < 2 ^ 63"
  shows "typed (json_map json_ticket_group (sum_TicketGroups (summarise r opts)))"
proof -
  have ty: "typed (json_orders_response r)" using assms(1) by (simp add: payload_ok_def)
  have "valid_utf8 g \<and> typed (json_ticket_group row)" if "(g, row) \<in> set (elems (sum_TicketGroups (summarise r opts)))" for g row
  proof -
    let ?xs = "filter (\<lambda>x. row_name opts (snd x) = g) (order_tickets r)"
    have "gm_get (sum_TicketGroups (summarise r opts)) g = Some row" by (intro gm_entry that conjunct1 [OF groups_sum])
    then have xs: "?xs \<noteq> []" and row: "tg_Count row = int (length ?xs)"
      "tg_IncomeExVAT row = fold (\<lambda>x acc. f64_add acc (row_income (fst x) (snd x))) ?xs f64_zero"
      by (auto simp: groups_lookup Let_def simp del: filter_empty_conv split: if_splits)
    have "length ?xs \<le> length (order_tickets r)" by simp
    then have "is_int64 (tg_Count row)" by (intro is_int64_count [OF _ _ assms(2)]) (simp_all only: row(1) of_nat_0_le_iff of_nat_le_iff)
    moreover have "f64_ok (tg_IncomeExVAT row)"
      unfolding row(2) using income_ok [OF assms(1)] by (intro f64_ok_fold f64_ok_consts) auto
    moreover obtain od t where "(od, t) \<in> set (order_tickets r)" "g = row_name opts t"
      using xs by (auto simp: filter_empty_conv)
    then have "valid_utf8 g" using typed_ticket(2) [OF ty] by (auto simp: json_ticket_def intro: valid_utf8_row)
    ultimately show ?thesis by (simp add: json_ticket_group_def valid_utf8_ascii byte_def)
  qed
  then show ?thesis by (auto simp: typed_map)
qed

lemma states_typed:
  assumes "typed (json_orders_response r)" "length (elems (resp_Orders r)) < 2 ^ 63"
  shows "typed (json_map JInt (sum_OrdersByState (summarise r opts)))"
proof -
  have "valid_utf8 st \<and> is_int64 n" if "(st, n) \<in> set (elems (sum_OrdersByState (summarise r opts)))" for st n
  proof -
    let ?xs = "filter (\<lambda>od. order_State od = st) (elems (resp_Orders r))"
    have "gm_get (sum_OrdersByState (summarise r opts)) st = Some n" by (intro gm_entry that conjunct1 [OF states_sum])
    then have xs: "?xs \<noteq> []" "n = int (length ?xs)"
      by (auto simp: states_lookup Let_def simp del: filter_empty_conv split: if_splits)
    have "length ?xs \<le> length (elems (resp_Orders r))" by simp
    then have "is_int64 n" by (intro is_int64_count [OF _ _ assms(2)]) (simp_all only: xs(2) of_nat_0_le_iff of_nat_le_iff)
    then show ?thesis using xs(1) typed_parts(2) [OF assms(1)] by (auto simp: filter_empty_conv)
  qed
  then show ?thesis by (auto simp: typed_map)
qed

lemma merch_typed:
  assumes "typed (json_orders_response r)" "length (order_tickets r) < 2 ^ 63"
  shows "typed (json_map json_size_counts (sum_Merch (summarise r opts)))"
proof -
  have "valid_utf8 name \<and> typed (json_size_counts sc)" if "(name, sc) \<in> set (elems (sum_Merch (summarise r opts)))" for name sc
  proof -
    let ?xs = "filter (\<lambda>x. product_name opts (snd x) = name \<and> merch_size opts (snd x) \<noteq> []) (order_tickets r)"
    have "gm_get (sum_Merch (summarise r opts)) name = Some sc"
      using summarise_maps_sorted [of r opts] by (intro gm_entry that) (simp add: maps_sorted_def)
    then have xs: "?xs \<noteq> []" and sc: "sc = fold (\<lambda>x s. fst (size_add s (merch_size opts (snd x)))) ?xs size_counts_zero"
      by (auto simp: merch_lookup Let_def simp del: filter_empty_conv split: if_splits)
    have "length (filter (\<lambda>x. merch_size opts (snd x) = sz) ?xs) \<le> length (order_tickets r)" for sz
      by (meson length_filter_le order_trans)
    then have "typed (json_size_counts sc)" unfolding sc by (intro typed_sizes [OF _ assms(2)]) (simp add: size_count_fold)
    moreover obtain od t where "(od, t) \<in> set (order_tickets r)" "name = product_name opts t"
      using xs by (auto simp: filter_empty_conv)
    then have "valid_utf8 name"
      using typed_ticket(2) [OF assms(1)] valid_utf8_product unfolding product_name_def by (fastforce simp: json_ticket_def)
    ultimately show ?thesis by simp
  qed
  then show ?thesis by (auto simp: typed_map)
qed

lemma tshirts_typed: "length (order_tickets r) < 2 ^ 63 \<Longrightarrow> typed (json_size_counts (sum_TShirtSizes (summarise r opts)))"
proof (rule typed_sizes)
  fix sz
  have "length (filter (\<lambda>x. tshirt_size (snd x) = sz) (order_tickets r)) \<le> length (order_tickets r)" by simp
  then show "0 \<le> size_count (sum_TShirtSizes (summarise r opts)) sz
      \<and> size_count (sum_TShirtSizes (summarise r opts)) sz \<le> int (length (order_tickets r))"
    by (simp add: tshirts_count)
qed

lemma summary_uuid: "sum_EventUUID (summarise r opts) = resp_UUID r"
proof -
  have "fold (\<lambda>od u. u) xs u = u" for xs :: "order list" and u :: string
    by (induction xs) auto
  then show ?thesis
    using summary_component_orders [where p = sum_EventUUID and g = "\<lambda>od u. u" and resp = r and opts = opts]
    by (simp add: summary_steps count_order_def summary_init_def split: option.split)
qed

lemma summary_version: "sum_SchemaVersion (summarise r opts) = SchemaVersion"
proof -
  have "fold (\<lambda>od u. u) xs u = u" for xs :: "order list" and u :: int
    by (induction xs) auto
  then show ?thesis
    using summary_component_orders [where p = sum_SchemaVersion and g = "\<lambda>od u. u" and resp = r and opts = opts]
    by (simp add: summary_steps count_order_def summary_init_def split: option.split)
qed

lemma summary_typed:
  assumes "payload_ok r" "length (order_tickets r) < 2 ^ 63" "length (elems (resp_Orders r)) < 2 ^ 63"
  shows "typed (JObj (json_summary_fields (summarise r opts)))"
proof -
  have ty: "typed (json_orders_response r)" using assms(1) by (simp add: payload_ok_def)
  have "typed (json_counts (sum_Counts (summarise r opts)))"
    by (simp add: json_counts_def summarise_counts is_int64_count [OF _ _ assms(2)] is_int64_count [OF _ _ assms(3)]
        valid_utf8_ascii byte_def)
  moreover have "is_int64 SchemaVersion" by code_simp
  ultimately show ?thesis
    using groups_typed [OF assms(1,2)] states_typed [OF ty assms(3)] merch_typed [OF ty assms(2)] tshirts_typed [OF assms(2)]
      typed_parts(1) [OF ty]
    by (simp add: json_summary_fields_def summary_version summary_uuid valid_utf8_ascii byte_def)
qed

lemma sponsors_typed:
  assumes "typed (json_orders_response r)"
  shows "typed (json_slice json_sponsor (sponsors r opts))"
proof -
  have "\<exists>od t. (od, t) \<in> set (order_tickets r) \<and> s = sponsor_of t" if s: "s \<in> set (elems (sponsors r opts))" for s
  proof -
    have "set (elems (sponsors r opts)) = sponsor_of ` set (first_per_key {} (candidates r opts))"
      by (simp add: sponsors_alt Let_def ins.sort_set)
    then obtain t where t: "t \<in> set (first_per_key {} (candidates r opts))" "s = sponsor_of t" using s by auto
    then have "t \<in> snd ` set (order_tickets r)" using first_per_key_subset by (fastforce simp: candidates_def)
    with t(2) show ?thesis by force
  qed
  moreover have "typed (json_sponsor (sponsor_of t))" if "typed (json_ticket t)" for t
    using that by (simp add: json_sponsor_def sponsor_of_def json_ticket_def valid_utf8_ascii byte_def)
  ultimately show ?thesis using typed_ticket(2) [OF assms] by (fastforce simp: typed_slice list_all_iff)
qed

section \<open>The size of the text\<close>

text \<open>Every order and every ticket takes up at least one byte of the stored text.\<close>

lemma join_length: "sum_list (map length xs) \<le> length (join xs sep)"
  by (induction xs sep rule: join.induct) simp_all

lemma member_length: "(k, v) \<in> set kvs \<Longrightarrow> length (json_print v) + 2 \<le> length (json_print (JObj kvs))"
proof -
  assume kv: "(k, v) \<in> set kvs"
  let ?f = "\<lambda>(k, v). json_quote k @ CHR '':'' # json_print v"
  have "length (?f (k, v)) \<in> set (map length (map ?f kvs))" using kv by (force simp: image_iff)
  then have "length (?f (k, v)) \<le> sum_list (map length (map ?f kvs))" by (intro member_le_sum_list) simp_all
  also have "\<dots> \<le> length (join (map ?f kvs) '','')" by (rule join_length)
  finally show ?thesis by simp
qed

lemma slice_length:
  assumes "\<And>x. g x \<le> length (json_print (f x))"
  shows "sum_list (map g (elems xs)) \<le> length (json_print (json_slice f xs))"
proof -
  have "sum_list (map g (elems xs)) \<le> sum_list (map (\<lambda>x. length (json_print (f x))) (elems xs))"
    by (intro sum_list_mono assms)
  also have "\<dots> \<le> length (json_print (json_slice f xs))"
    using join_length [of "map json_print (map f (elems xs))" "'',''"]
    by (cases xs) (simp_all add: json_slice_def comp_def)
  finally show ?thesis .
qed

lemma order_length: "1 + length (elems (order_Tickets od)) \<le> length (json_print (json_order od))"
proof -
  have "sum_list (map (\<lambda>_. 1) (elems (order_Tickets od))) \<le> length (json_print (json_slice json_ticket (order_Tickets od)))"
    by (rule slice_length) (simp add: json_ticket_def)
  moreover have "length (json_print (json_slice json_ticket (order_Tickets od))) + 2 \<le> length (json_print (json_order od))"
    unfolding json_order_def by (rule member_length [of "''tickets''"]) simp
  ultimately show ?thesis by (simp add: sum_list_triv)
qed

lemma orders_length:
  "length (elems (resp_Orders r)) + length (order_tickets r) \<le> length (json_print (json_orders_response r))"
proof -
  have "sum_list (map (\<lambda>od. 1 + length (elems (order_Tickets od))) (elems (resp_Orders r)))
      \<le> length (json_print (json_slice json_order (resp_Orders r)))"
    by (intro slice_length order_length)
  moreover have "length (json_print (json_slice json_order (resp_Orders r))) + 2 \<le> length (json_print (json_orders_response r))"
    unfolding json_orders_response_def by (rule member_length [of "''orders''"]) simp
  moreover have "sum_list (map (\<lambda>od. 1 + length (elems (order_Tickets od))) ods)
      = length ods + length (concat (map (\<lambda>od. map (Pair od) (elems (order_Tickets od))) ods))" for ods :: "order list"
    by (induction ods) simp_all
  ultimately show ?thesis by (simp only: order_tickets_def)
qed

lemma snapshot_length:
  "length (elems (resp_Orders (snap_Orders s))) + length (order_tickets (snap_Orders s)) \<le> length (snapshot_text s)"
proof -
  have "length (json_print (json_orders_response (snap_Orders s))) + 2 \<le> length (json_print (json_snapshot s))"
    unfolding json_snapshot_def by (rule member_length [of "''orders''"]) simp
  then show ?thesis using orders_length [of "snap_Orders s"] by (simp add: snapshot_text_def)
qed

section \<open>What was fetched can be stored and read back\<close>

lemma fetched_payload:
  assumes "fetch_orders c w = (tr, Inr result)"
  shows "payload_ok (res_Orders result)" "is_int64 (res_Duration result)"
proof -
  note parsed = decodesD [OF payload_decodes json_parse_from_text]
  have once: "payload_ok r" if "fetch_once c w k = Inr r" for k r
    using that by (auto simp: fetch_once_def Let_def res_bind_Inr_iff dest: parsed split: option.splits sum.splits if_splits)
  have "payload_ok (res_Orders result) \<and> is_int64 (res_Duration result)"
  proof (cases "cl_File c = []")
    case True
    then have "final_outcome c w (last_attempt c w) = Inr result" using assms by (simp add: fetch_orders_run)
    then obtain k where "fetch_once c w k = Inr (res_Orders result)" "res_Duration result = time_sub (time_now c w k) (time_now c w 0)"
      by (auto simp: final_outcome_def split: sum.splits option.splits if_splits)
    then show ?thesis using once by (simp add: is_int64_time_sub)
  next
    case False
    then show ?thesis using assms by (auto simp: fetch_orders_def read_file_def res_bind_Inr_iff is_int64_time_sub dest: parsed)
  qed
  then show "payload_ok (res_Orders result)" "is_int64 (res_Duration result)" by simp_all
qed

lemma milliseconds_int64: "is_int64 d \<Longrightarrow> is_int64 (milliseconds d)"
  using quot0_bounds [of "10 ^ 6" d]
  by (auto simp: milliseconds_def Millisecond_def is_int64_def int64_min_def int64_max_def abs_if split: if_splits)

text \<open>
  The interface \<open>Fetcher\<close>: what the refresher needs of a client. Its contract is that what it returns
  was decoded from JSON and took a number of nanoseconds that fits \<open>int64\<close>.
\<close>

type_synonym 'w fetch_function = "'w \<Rightarrow> goerr + fetch_result"

locale fetcher =
  fixes fetch :: "'w fetch_function"
  assumes fetched: "fetch w = Inr result \<Longrightarrow> payload_ok (res_Orders result) \<and> is_int64 (res_Duration result)"
begin

lemma fetched_writable: "fetch w = Inr result \<Longrightarrow> list_all order_writable (elems (resp_Orders (res_Orders result)))"
  using fetched by (simp add: payload_ok_def)

lemma built_typed:
  assumes "fetch w = Inr result" "length (snapshot_text (build result now opts)) \<le> max_decompressed"
  shows "typed (json_snapshot (build result now opts))"
proof -
  let ?s = "build result now opts"
  have p: "payload_ok (res_Orders result)" "is_int64 (res_Duration result)" using fetched [OF assms(1)] by simp_all
  have "(max_decompressed::nat) < 2 ^ 63" by (simp add: max_decompressed_def)
  then have n: "length (order_tickets (res_Orders result)) < 2 ^ 63" "length (elems (resp_Orders (res_Orders result))) < 2 ^ 63"
    using snapshot_length [of ?s] assms(2) by (simp_all add: build_def)
  have ty: "typed (json_orders_response (res_Orders result))" using p(1) by (simp add: payload_ok_def)
  show ?thesis
    using summary_typed [OF p(1) n] sponsors_typed [OF ty] ty milliseconds_int64 [OF p(2)]
    by (simp add: json_snapshot_def build_def json_time_def valid_utf8_ascii byte_def)
qed

lemma built_storable:
  assumes "fetch w = Inr result" "encode cd (build result now opts) = Inr data"
    and "orders_storable (res_Orders result)" "discounts_fit (res_Orders result)"
    and "length (snapshot_text (build result now opts)) \<le> max_decompressed"
  shows "snapshot_storable (build result now opts)"
  using built_typed [OF assms(1,5)] assms(2-4)
  by (simp add: encode_Inr snapshot_storable_def readable_typed build_def)

lemma decode_fetched:
  assumes "fetch w = Inr result" "codec_ok cd (build result now opts)" "encode cd (build result now opts) = Inr data"
    and "orders_storable (res_Orders result)" "discounts_fit (res_Orders result)"
    and "length (snapshot_text (build result now opts)) \<le> max_decompressed"
  shows "decode cd data = Inr (snapshot_reread (build result now opts))"
  by (rule decode_built [OF assms(2) built_storable [OF assms(1,3-6)] assms(3,6)])

end

interpretation client: fetcher "\<lambda>w. snd (fetch_orders c w)" for c
  by unfold_locales (metis fetched_payload prod.collapse)

section \<open>Witness data\<close>

text \<open>A payload in a file: one order, with nothing but a discount with a space in its text.\<close>

definition sample_body :: string where
  "sample_body =
     ''{\"orders\":[{\"discount\":[7, 8]}]}''"

definition sample_body_client :: client where
  "sample_body_client = sample_client\<lparr>cl_File := ''p.json''\<rparr>"

definition sample_body_net :: net where
  "sample_body_net = (sample_net [200])\<lparr>net_Open := (\<lambda>path. Inr (sample_body, None))\<rparr>"

text \<open>What the round trip needs of the payload, as one value to compute.\<close>

definition sample_checks :: "fetch_result \<Rightarrow> bool" where
  "sample_checks r \<longleftrightarrow>
     orders_storable (res_Orders r) \<and> discounts_fit (res_Orders r)
     \<and> json_ok (json_snapshot (build r (sample_time 0) sample_options))
     \<and> length (snapshot_text (build r (sample_time 0) sample_options)) \<le> 2000
     \<and> map order_Discount (elems (resp_Orders (res_Orders r))) = [''[7, 8]'']
     \<and> map order_Discount (elems (resp_Orders (orders_reread (res_Orders r)))) = [''[7,8]'']"

lemma sample_body_checks:
  "case res_bind (json_parse sample_body None) unmarshal_orders_response of
     Inl err \<Rightarrow> False | Inr orders \<Rightarrow> sample_checks \<lparr>res_Orders = orders, res_Duration = Minute\<rparr>"
  by code_simp

lemma sample_body_fetched:
  obtains r where "fetch_orders sample_body_client sample_body_net = ([], Inr r)" "sample_checks r"
proof -
  obtain orders where o: "res_bind (json_parse sample_body None) unmarshal_orders_response = Inr orders"
    "sample_checks \<lparr>res_Orders = orders, res_Duration = Minute\<rparr>"
    using sample_body_checks by (auto split: sum.splits)
  have "time_sub (time_now sample_body_client sample_body_net 1) (time_now sample_body_client sample_body_net 0) = Minute" by code_simp
  then have "fetch_orders sample_body_client sample_body_net = ([], Inr \<lparr>res_Orders = orders, res_Duration = Minute\<rparr>)"
    using o(1) by (simp add: fetch_orders_def read_file_def sample_body_client_def sample_body_net_def)
  with o(2) show ?thesis using that by blast
qed

section \<open>Properties\<close>


text \<open>
  C18. What was fetched is read back: of whatever payload \<open>FetchOrders\<close> returned, \<open>Decode\<close> turns what
  \<open>Encode\<close> wrote of its snapshot into the same snapshot without the monotonic clock reading, the amounts
  of its orders rounded to cents and the discounts compacted, when the amounts are below 45035996273704.96,
  the discounts nest at most 9996 deep and the JSON fits the 256 MiB the decoder accepts. Nothing else
  is asked of the payload: that strings are UTF-8, numbers in range and discounts JSON is what decoding
  it ensures.
\<close>

theorem fetched_roundtrip:
  assumes "fetch_orders c w = (tr, Inr r)" "s = build r now opts" "codec_ok cd s" "encode cd s = Inr data"
    and "orders_storable (res_Orders r)" "discounts_fit (res_Orders r)" "length (snapshot_text s) \<le> max_decompressed"
  shows "decode cd data = Inr (snapshot_reread s)"
  using assms(3-7) client.decode_fetched [of c w r cd now opts data] unfolding assms(2) by (simp add: assms(1))

theorem fetched_roundtrip_witness:
  "\<exists>r. fetch_orders sample_body_client sample_body_net = ([], Inr r)
     \<and> map order_Discount (elems (resp_Orders (res_Orders r))) = [''[7, 8]'']
     \<and> decode sample_codec (sample_data (build r (sample_time 0) sample_options))
         = Inr (snapshot_reread (build r (sample_time 0) sample_options))"
proof -
  obtain r where f: "fetch_orders sample_body_client sample_body_net = ([], Inr r)" and c: "sample_checks r"
    by (rule sample_body_fetched)
  let ?s = "build r (sample_time 0) sample_options"
  have e: "encode sample_codec ?s = Inr (sample_data ?s)"
    using c by (simp add: sample_checks_def encode_Inr) (simp add: sample_codec_def sample_data_def)
  have l: "length (snapshot_text ?s) \<le> max_decompressed" using c by (simp add: sample_checks_def max_decompressed_def)
  have "orders_storable (res_Orders r)" "discounts_fit (res_Orders r)" using c by (simp_all add: sample_checks_def)
  from fetched_roundtrip [OF f refl sample_codec_ok e this l] f c show ?thesis by (auto simp: sample_checks_def)
qed

end
