(* ===== verification/Store.thy ===== *)
theory Store
  imports GoErrors
begin

text \<open>
  \<open>internal/store\<close>: where the bytes of the snapshot are kept. The interface \<open>Store\<close> is a record of
  its operations over a state of the implementation's own; \<open>Memory\<close> keeps the bytes itself,
  \<open>GCS\<close> keeps them in a Cloud Storage object, reached through the client library of
  \<open>cloud.google.com/go/storage\<close>, which is a parameter. What callers of the interface may rely on
  is the locale \<open>store_contract\<close>.
\<close>

section \<open>The interface\<close>

record 's store_ops =
  st_Load :: "'s \<Rightarrow> goerr + string"
  st_Save :: "'s \<Rightarrow> string \<Rightarrow> 's \<times> goerr option"
  st_Describe :: string

text \<open>
  \<open>Load\<close> returns the stored bytes or \<open>ErrNotFound\<close> when there are none, or fails otherwise;
  \<open>Save\<close> replaces the bytes as a whole or, when it reports an error, may have left the old ones.
\<close>

locale store_contract =
  fixes ops :: "'s store_ops"
    and stored :: "'s \<Rightarrow> string option"
  assumes load_bytes: "st_Load ops s = Inr data \<Longrightarrow> stored s = Some data"
    and load_not_found: "st_Load ops s = Inl err \<Longrightarrow> is_not_found err \<Longrightarrow> stored s = None"
    and save_stores: "st_Save ops s data = (s', None) \<Longrightarrow> stored s' = Some data"
    and save_atomic: "st_Save ops s data = (s', Some err) \<Longrightarrow> stored s' = stored s \<or> stored s' = Some data"
begin

lemma save_cases: "stored (fst (st_Save ops s data)) = stored s \<or> stored (fst (st_Save ops s data)) = Some data"
proof -
  obtain s' e where "st_Save ops s data = (s', e)" by fastforce
  then show ?thesis using save_stores [of s data s'] save_atomic [of s data s'] by (cases e) auto
qed

lemma save_then_load:
  "st_Save ops s data = (s', None) \<Longrightarrow> st_Load ops s' = Inr data' \<Longrightarrow> data' = data"
  using save_stores load_bytes by fastforce

lemma load_none: "stored s = None \<Longrightarrow> \<exists>err. st_Load ops s = Inl err"
  using load_bytes [of s] by (cases "st_Load ops s") auto

text \<open>After any sequence of saves the store holds what it held first or what one of them wrote.\<close>

lemma saves_stored:
  "stored (fold (\<lambda>data s. fst (st_Save ops s data)) datas s) = stored s
   \<or> (\<exists>data \<in> set datas. stored (fold (\<lambda>data s. fst (st_Save ops s data)) datas s) = Some data)"
proof (induction datas arbitrary: s)
  case (Cons d datas)
  show ?case using Cons.IH [of "fst (st_Save ops s d)"] save_cases [of s d] by auto
qed simp

end

section \<open>Memory\<close>

text \<open>\<open>data\<close> is nil until \<open>Save\<close> is called; \<open>make\<close> with any length is not nil.\<close>

record memory =
  mem_data :: "string option"

definition new_memory :: memory where
  "new_memory = \<lparr>mem_data = None\<rparr>"

definition memory_load :: "memory \<Rightarrow> goerr + string" where
  "memory_load m = (case mem_data m of None \<Rightarrow> Inl ErrNotFound | Some data \<Rightarrow> Inr data)"

definition memory_save :: "memory \<Rightarrow> string \<Rightarrow> memory \<times> goerr option" where
  "memory_save m data = (m\<lparr>mem_data := Some data\<rparr>, None)"

definition memory_describe :: string where
  "memory_describe = ''memory''"

definition memory_ops :: "memory store_ops" where
  "memory_ops = \<lparr>st_Load = memory_load, st_Save = memory_save, st_Describe = memory_describe\<rparr>"

interpretation mem: store_contract memory_ops mem_data
  by unfold_locales
    (auto simp: memory_ops_def memory_load_def memory_save_def split: option.splits)

section \<open>Cloud Storage\<close>

text \<open>
  The client library, on a state \<open>'g\<close> of the bucket: \<open>NewReader\<close> yields the bytes that can be read
  and the error after them, if reading fails, and is told whether to return the stored bytes of a
  compressed object; \<open>Write\<close> and \<open>Close\<close> of one upload yield an error each.
\<close>

datatype reader_error = ObjectNotExist | ReaderError goerr

record object_attrs =
  oa_ContentType :: string
  oa_ContentEncoding :: string
  oa_CacheControl :: string

record 'g gcs_api =
  ga_NewReader :: "'g \<Rightarrow> string \<Rightarrow> string \<Rightarrow> bool \<Rightarrow> reader_error + (string \<times> goerr option)"
  ga_Upload :: "'g \<Rightarrow> string \<Rightarrow> string \<Rightarrow> object_attrs \<Rightarrow> string \<Rightarrow> 'g \<times> goerr option \<times> goerr option"

record gcs =
  gcs_bucket :: string
  gcs_object :: string

definition new_gcs :: "goerr option \<Rightarrow> string \<Rightarrow> string \<Rightarrow> goerr + gcs" where
  "new_gcs connect bucket object =
     (if bucket = [] \<or> object = [] then Inl (ErrText ''bucket and object are both required'')
      else case connect of
        Some err \<Rightarrow> Inl (ErrWrap ''connecting to cloud storage'' err)
      | None \<Rightarrow> Inr \<lparr>gcs_bucket = bucket, gcs_object = object\<rparr>)"

definition gcs_describe :: "gcs \<Rightarrow> string" where
  "gcs_describe b = ''gs://'' @ gcs_bucket b @ ''/'' @ gcs_object b"

definition gcs_load :: "'g gcs_api \<Rightarrow> gcs \<Rightarrow> 'g \<Rightarrow> goerr + string" where
  "gcs_load api b g =
     (case ga_NewReader api g (gcs_bucket b) (gcs_object b) True of
        Inl ObjectNotExist \<Rightarrow> Inl ErrNotFound
      | Inl (ReaderError err) \<Rightarrow> Inl (ErrWrap (''reading '' @ gcs_describe b) err)
      | Inr (data, Some err) \<Rightarrow> Inl (ErrWrap (''reading '' @ gcs_describe b) err)
      | Inr (data, None) \<Rightarrow> Inr data)"

definition gcs_save :: "'g gcs_api \<Rightarrow> gcs \<Rightarrow> 'g \<Rightarrow> string \<Rightarrow> 'g \<times> goerr option" where
  "gcs_save api b g data =
     (let attrs = \<lparr>oa_ContentType = ''application/json'', oa_ContentEncoding = ''gzip'',
                  oa_CacheControl = ''no-store''\<rparr>
      in case ga_Upload api g (gcs_bucket b) (gcs_object b) attrs data of
           (g', Some werr, _) \<Rightarrow> (g', Some (ErrWrap (''writing '' @ gcs_describe b) werr))
         | (g', None, Some cerr) \<Rightarrow> (g', Some (ErrWrap (''writing '' @ gcs_describe b) cerr))
         | (g', None, None) \<Rightarrow> (g', None))"

definition gcs_ops :: "'g gcs_api \<Rightarrow> gcs \<Rightarrow> 'g store_ops" where
  "gcs_ops api b =
     \<lparr>st_Load = gcs_load api b, st_Save = gcs_save api b, st_Describe = gcs_describe b\<rparr>"

text \<open>
  What Cloud Storage documents: reading an object returns its bytes, as stored when decompression
  is off, an object that was never written does not exist, an upload that closes without an error
  has replaced the object, and one that fails has replaced it or not touched it. \<open>obj\<close> is the
  content of the bucket; errors of the library are not the sentinel of this service.
\<close>

definition cloud_ok :: "'g gcs_api \<Rightarrow> gcs \<Rightarrow> ('g \<Rightarrow> string option) \<Rightarrow> bool" where
  "cloud_ok api b obj \<longleftrightarrow>
     (\<forall>g. case ga_NewReader api g (gcs_bucket b) (gcs_object b) True of
        Inl ObjectNotExist \<Rightarrow> obj g = None
      | Inl (ReaderError err) \<Rightarrow> \<not> is_not_found err
      | Inr (data, Some err) \<Rightarrow> \<not> is_not_found err
      | Inr (data, None) \<Rightarrow> obj g = Some data)
     \<and> (\<forall>g attrs data. case ga_Upload api g (gcs_bucket b) (gcs_object b) attrs data of
          (g', werr, cerr) \<Rightarrow>
            if werr = None \<and> cerr = None then obj g' = Some data else obj g' = obj g \<or> obj g' = Some data)"

lemma gcs_save_obj:
  assumes "cloud_ok api b obj" "gcs_save api b g data = (g', err)"
  shows "if err = None then obj g' = Some data else obj g' = obj g \<or> obj g' = Some data"
proof -
  define attrs where "attrs = \<lparr>oa_ContentType = ''application/json'', oa_ContentEncoding = ''gzip'',
    oa_CacheControl = ''no-store''\<rparr>"
  obtain h werr cerr where up: "ga_Upload api g (gcs_bucket b) (gcs_object b) attrs data = (h, werr, cerr)"
    by (rule prod_cases3)
  have "\<forall>g attrs data. case ga_Upload api g (gcs_bucket b) (gcs_object b) attrs data of
      (g', werr, cerr) \<Rightarrow>
        if werr = None \<and> cerr = None then obj g' = Some data else obj g' = obj g \<or> obj g' = Some data"
    using assms(1) unfolding cloud_ok_def by (rule conjunct2)
  from this [rule_format, where g = g and attrs = attrs and data = data] up
  have "if werr = None \<and> cerr = None then obj h = Some data else obj h = obj g \<or> obj h = Some data" by simp
  then show ?thesis
    using assms(2) unfolding gcs_save_def attrs_def [symmetric] Let_def up
    by (auto split: option.splits)
qed

lemma gcs_load_obj:
  assumes "cloud_ok api b obj"
  shows "case gcs_load api b g of
      Inl err \<Rightarrow> (if is_not_found err then obj g = None else True)
    | Inr data \<Rightarrow> obj g = Some data"
proof -
  let ?r = "ga_NewReader api g (gcs_bucket b) (gcs_object b) True"
  have "case ?r of
        Inl ObjectNotExist \<Rightarrow> obj g = None
      | Inl (ReaderError err) \<Rightarrow> \<not> is_not_found err
      | Inr (data, Some err) \<Rightarrow> \<not> is_not_found err
      | Inr (data, None) \<Rightarrow> obj g = Some data"
    using assms unfolding cloud_ok_def by blast
  then show ?thesis
    by (auto simp: gcs_load_def split: sum.splits reader_error.splits option.splits)
qed

lemma gcs_store_contract:
  assumes "cloud_ok api b obj"
  shows "store_contract (gcs_ops api b) obj"
proof
  fix g data err g'
  show "st_Load (gcs_ops api b) g = Inr data \<Longrightarrow> obj g = Some data"
    using gcs_load_obj [OF assms, of g] by (simp add: gcs_ops_def)
  show "st_Load (gcs_ops api b) g = Inl err \<Longrightarrow> is_not_found err \<Longrightarrow> obj g = None"
    using gcs_load_obj [OF assms, of g] by (simp add: gcs_ops_def)
  show "st_Save (gcs_ops api b) g data = (g', None) \<Longrightarrow> obj g' = Some data"
    using gcs_save_obj [OF assms, of g data g' None] by (simp add: gcs_ops_def)
  show "st_Save (gcs_ops api b) g data = (g', Some err) \<Longrightarrow> obj g' = obj g \<or> obj g' = Some data"
    using gcs_save_obj [OF assms, of g data g' "Some err"] by (simp add: gcs_ops_def)
qed

section \<open>Witness data\<close>

text \<open>A bucket with one object, whose uploads are refused when they are longer than a limit.\<close>

definition sample_cloud :: "nat \<Rightarrow> string option gcs_api" where
  "sample_cloud limit =
     \<lparr>ga_NewReader = (\<lambda>g bucket object compressed.
        case g of None \<Rightarrow> Inl ObjectNotExist | Some data \<Rightarrow> Inr (data, None)),
      ga_Upload = (\<lambda>g bucket object attrs data.
        if limit < length data then (g, None, Some (ErrText ''quota exceeded''))
        else (Some data, None, None))\<rparr>"

definition sample_bucket :: gcs where
  "sample_bucket = \<lparr>gcs_bucket = ''cnd'', gcs_object = ''snapshot.json.gz''\<rparr>"

lemma sample_cloud_ok: "cloud_ok (sample_cloud limit) b (\<lambda>g. g)"
  by (auto simp: cloud_ok_def sample_cloud_def split: option.split)

section \<open>Properties\<close>

text \<open>
  The memory store keeps the last bytes saved, empty ones included, and has nothing before
  the first save.
\<close>

lemma memory_keeps_last:
  "memory_load (fold (\<lambda>data m. fst (memory_save m data)) datas new_memory) =
     (if datas = [] then Inl ErrNotFound else Inr (last datas))"
proof (cases datas rule: rev_cases)
  case Nil
  then show ?thesis by (simp add: memory_load_def new_memory_def)
next
  case (snoc ds d)
  then show ?thesis by (simp add: memory_load_def memory_save_def)
qed

text \<open>
  C39. A bucket that behaves as documented satisfies the contract of the store: after any sequence
  of saves, some of which may have failed, what \<open>Load\<close> returns is one of the saved byte strings as
  a whole or what was there before; after a save without an error it is the bytes of that save; and
  \<open>ErrNotFound\<close> is reported only when the object does not exist.
\<close>

theorem gcs_contract:
  assumes "cloud_ok api b obj"
  shows "(case gcs_load api b (fold (\<lambda>data g. fst (gcs_save api b g data)) datas g) of
        Inr data \<Rightarrow> obj g = Some data \<or> data \<in> set datas
      | Inl err \<Rightarrow> (if is_not_found err then obj g = None else True))
    \<and> (case gcs_save api b g last_data of (g', err) \<Rightarrow>
         (case gcs_load api b g' of
            Inr data \<Rightarrow> (if err = None then data = last_data else obj g = Some data \<or> data = last_data)
          | Inl err' \<Rightarrow> (if is_not_found err' then err \<noteq> None else True)))"
proof -
  let ?g = "fold (\<lambda>data g. fst (gcs_save api b g data)) datas g"
  note contract = gcs_store_contract [OF assms]
  have "obj ?g = obj g \<or> (\<exists>data \<in> set datas. obj ?g = Some data)"
    using store_contract.saves_stored [OF contract, of datas g] by (simp add: gcs_ops_def)
  then have 1: "case gcs_load api b ?g of
        Inr data \<Rightarrow> obj g = Some data \<or> data \<in> set datas
      | Inl err \<Rightarrow> (if is_not_found err then obj g = None else True)"
    using gcs_load_obj [OF assms, of ?g] by (auto split: sum.splits)
  obtain g' err where s: "gcs_save api b g last_data = (g', err)" by fastforce
  show ?thesis
    using 1 gcs_save_obj [OF assms s] gcs_load_obj [OF assms, of g'] s
    by (auto split: sum.splits if_splits)
qed

theorem gcs_contract_witness:
  "(case gcs_save (sample_cloud 3) sample_bucket (Some ''old'') ''too long'' of (g', err) \<Rightarrow>
      err \<noteq> None \<and> gcs_load (sample_cloud 3) sample_bucket g' = Inr ''old'')
   \<and> (case gcs_load (sample_cloud 3) sample_bucket None of
        Inr data \<Rightarrow> False | Inl err \<Rightarrow> (if is_not_found err then True else False))"
  using gcs_contract [OF sample_cloud_ok [of 3 sample_bucket], where datas = "[]" and last_data = "''too long''"]
  by (simp add: gcs_save_def gcs_load_def sample_cloud_def sample_bucket_def)

end
