(* ===== verification/Refresher.thy ===== *)
theory Refresher
  imports Storable Store
begin

text \<open>
  \<open>internal/snapshot/refresher.go\<close>: the operations one after the other, as functions on the cached
  snapshot and the store, and the same operations interleaved, as a step relation over threads
  in which every lock, store access and assignment of the cache is a step of its own.
  The store is any record of operations; its lemmas are proved in its contract.
\<close>

section \<open>The operations\<close>

record 's refresher =
  rf_cached :: "snapshot option"
  rf_store :: 's

definition set_cached :: "snapshot \<Rightarrow> 's refresher \<Rightarrow> 's refresher" where
  "set_cached snap r = r\<lparr>rf_cached := Some snap\<rparr>"

text \<open>\<open>Refresh\<close>, given what \<open>FetchOrders\<close> returned and the clock read after it.\<close>

definition refresh ::
  "'s store_ops \<Rightarrow> codec \<Rightarrow> options \<Rightarrow> goerr + fetch_result \<Rightarrow> gotime \<Rightarrow> 's refresher \<Rightarrow>
     's refresher \<times> snapshot option \<times> goerr option" where
  "refresh ops cd opts fetched now r =
     (case fetched of
        Inl err \<Rightarrow> (r, None, Some err)
      | Inr result \<Rightarrow>
          let snap = build result now opts
          in case encode cd snap of
               Inl err \<Rightarrow> (r, None, Some err)
             | Inr data \<Rightarrow>
                 (case st_Save ops (rf_store r) data of
                    (s, Some err) \<Rightarrow> (set_cached snap (r\<lparr>rf_store := s\<rparr>), Some snap, Some err)
                  | (s, None) \<Rightarrow> (set_cached snap (r\<lparr>rf_store := s\<rparr>), Some snap, None)))"

definition current :: "'s store_ops \<Rightarrow> codec \<Rightarrow> 's refresher \<Rightarrow> 's refresher \<times> (goerr + snapshot)" where
  "current ops cd r =
     (case rf_cached r of
        Some cached \<Rightarrow> (r, Inr cached)
      | None \<Rightarrow>
          (case st_Load ops (rf_store r) of
             Inl err \<Rightarrow> (r, Inl err)
           | Inr data \<Rightarrow>
               (case decode cd data of
                  Inl err \<Rightarrow> (r, Inl err)
                | Inr snap \<Rightarrow> (set_cached snap r, Inr snap))))"

datatype warm_log = NoSnapshotYet | LoadingFailed goerr | LoadedSnapshot snapshot

definition warm :: "'s store_ops \<Rightarrow> codec \<Rightarrow> 's refresher \<Rightarrow> 's refresher \<times> warm_log" where
  "warm ops cd r =
     (case current ops cd r of
        (r', Inl err) \<Rightarrow> (r', if is_not_found err then NoSnapshotYet else LoadingFailed err)
      | (r', Inr snap) \<Rightarrow> (r', LoadedSnapshot snap))"

text \<open>The life of an instance: refreshes, reads, and a restart that keeps the store only.\<close>

datatype operation =
  OpRefresh "goerr + fetch_result" gotime
| OpCurrent
| OpRestart

fun perform :: "'s store_ops \<Rightarrow> codec \<Rightarrow> options \<Rightarrow> operation \<Rightarrow> 's refresher \<Rightarrow> 's refresher" where
  "perform ops cd opts (OpRefresh fetched now) r = fst (refresh ops cd opts fetched now r)"
| "perform ops cd opts OpCurrent r = fst (current ops cd r)"
| "perform ops cd opts OpRestart r = fst (warm ops cd (r\<lparr>rf_cached := None\<rparr>))"

section \<open>One after the other\<close>

text \<open>A refresh publishes its snapshot unless fetching or encoding failed.\<close>

definition publishes :: "codec \<Rightarrow> options \<Rightarrow> operation \<Rightarrow> snapshot option" where
  "publishes cd opts a =
     (case a of
        OpRefresh (Inr result) now \<Rightarrow>
          if isl (encode cd (build result now opts)) then None else Some (build result now opts)
      | _ \<Rightarrow> None)"

lemma refresh_None:
  "publishes cd opts (OpRefresh fetched now) = None \<Longrightarrow>
     fst (refresh ops cd opts fetched now r) = r \<and> fst (snd (refresh ops cd opts fetched now r)) = None
     \<and> snd (snd (refresh ops cd opts fetched now r)) \<noteq> None"
  by (auto simp: publishes_def refresh_def Let_def split: sum.splits if_splits)

lemma refresh_Some:
  "publishes cd opts (OpRefresh fetched now) = Some snap \<Longrightarrow>
     rf_cached (fst (refresh ops cd opts fetched now r)) = Some snap
     \<and> fst (snd (refresh ops cd opts fetched now r)) = Some snap"
  by (auto simp: publishes_def refresh_def set_cached_def Let_def split: sum.splits if_splits option.splits prod.splits)

lemma current_cached: "rf_cached r = Some snap \<Longrightarrow> current ops cd r = (r, Inr snap)"
  by (simp add: current_def)

lemma current_store: "rf_store (fst (current ops cd r)) = rf_store r"
  by (auto simp: current_def set_cached_def split: option.splits sum.splits)

text \<open>The last snapshot published, over operations of which none is a restart.\<close>

fun last_published :: "codec \<Rightarrow> options \<Rightarrow> operation list \<Rightarrow> snapshot option \<Rightarrow> snapshot option" where
  "last_published cd opts [] s = s"
| "last_published cd opts (a # as) s =
     last_published cd opts as (case publishes cd opts a of None \<Rightarrow> s | Some s' \<Rightarrow> Some s')"

lemma perform_cached:
  "a \<noteq> OpRestart \<Longrightarrow> rf_cached r = Some s \<Longrightarrow>
     rf_cached (perform ops cd opts a r) = (case publishes cd opts a of None \<Rightarrow> Some s | Some s' \<Rightarrow> Some s')"
proof (cases a)
  case (OpRefresh fetched now)
  assume "rf_cached r = Some s"
  then show ?thesis
    using refresh_None [of cd opts fetched now ops r] refresh_Some [of cd opts fetched now _ ops r]
    by (cases "publishes cd opts (OpRefresh fetched now)") (simp_all add: OpRefresh)
qed (auto simp: current_cached publishes_def)

lemma performs_cached:
  "list_all (\<lambda>a. a \<noteq> OpRestart) as \<Longrightarrow> rf_cached r = Some s \<Longrightarrow>
     rf_cached (fold (perform ops cd opts) as r) = last_published cd opts as (Some s)"
proof (induction as arbitrary: r s)
  case (Cons a as)
  then have "rf_cached (perform ops cd opts a r) = (case publishes cd opts a of None \<Rightarrow> Some s | Some s' \<Rightarrow> Some s')"
    by (simp add: perform_cached)
  with Cons show ?case by (cases "publishes cd opts a") simp_all
qed simp

context store_contract
begin

text \<open>What a refresh leaves in the store.\<close>

lemma refresh_stored:
  assumes "refresh ops cd opts (Inr result) now r = (r', snap, None)"
  shows "\<exists>data. encode cd (build result now opts) = Inr data \<and> stored (rf_store r') = Some data
    \<and> snap = Some (build result now opts)"
  using assms
  by (auto simp: refresh_def set_cached_def Let_def split: sum.splits option.splits prod.splits dest: save_stores)

lemma restart_reads:
  assumes "stored (rf_store r) = Some data" "decode cd data = Inr snap" "rf_cached r = None"
    and "st_Load ops (rf_store r) = Inr data'"
  shows "current ops cd r = (set_cached snap r, Inr snap)"
  using assms load_bytes [OF assms(4)] by (simp add: current_def)

text \<open>An empty store has nothing to serve and stays as it is.\<close>

lemma current_empty:
  assumes "stored (rf_store r) = None" "rf_cached r = None"
  shows "\<exists>err. current ops cd r = (r, Inl err)"
  using load_none [OF assms(1)] assms(2) by (auto simp: current_def)

end

text \<open>
  Where a served snapshot may come from: a refresh, or the decoding of bytes that the store held
  at first or that a refresh encoded.
\<close>

definition may_be_stored :: "codec \<Rightarrow> options \<Rightarrow> string option \<Rightarrow> operation list \<Rightarrow> string \<Rightarrow> bool" where
  "may_be_stored cd opts initial as data \<longleftrightarrow>
     initial = Some data
     \<or> (\<exists>a \<in> set as. \<exists>s. publishes cd opts a = Some s \<and> encode cd s = Inr data)"

definition may_be_served :: "codec \<Rightarrow> options \<Rightarrow> string option \<Rightarrow> operation list \<Rightarrow> snapshot \<Rightarrow> bool" where
  "may_be_served cd opts initial as snap \<longleftrightarrow>
     (\<exists>a \<in> set as. publishes cd opts a = Some snap)
     \<or> (\<exists>data. decode cd data = Inr snap \<and> may_be_stored cd opts initial as data)"

lemma may_be_snoc:
  "may_be_stored cd opts initial as data \<Longrightarrow> may_be_stored cd opts initial (as @ [a]) data"
  "may_be_served cd opts initial as snap \<Longrightarrow> may_be_served cd opts initial (as @ [a]) snap"
  by (auto simp: may_be_stored_def may_be_served_def)

context store_contract
begin

lemma current_served:
  assumes "\<And>data. stored (rf_store r) = Some data \<Longrightarrow> may_be_stored cd opts initial as data"
    and "\<And>snap. rf_cached r = Some snap \<Longrightarrow> may_be_served cd opts initial as snap"
  shows "snd (current ops cd r) = Inr snap \<Longrightarrow> may_be_served cd opts initial as snap"
    and "rf_cached (fst (current ops cd r)) = Some snap \<Longrightarrow> may_be_served cd opts initial as snap"
proof -
  have "may_be_served cd opts initial as snap"
    if "st_Load ops (rf_store r) = Inr data" "decode cd data = Inr snap" for data snap
    using that assms(1) [OF load_bytes] by (auto simp: may_be_served_def)
  then show "snd (current ops cd r) = Inr snap \<Longrightarrow> may_be_served cd opts initial as snap"
    and "rf_cached (fst (current ops cd r)) = Some snap \<Longrightarrow> may_be_served cd opts initial as snap"
    using assms(2) by (auto simp: current_def set_cached_def split: option.splits sum.splits)
qed

lemma refresh_store_cases:
  "stored (rf_store (fst (refresh ops cd opts fetched now r))) = stored (rf_store r)
   \<or> (\<exists>s data. publishes cd opts (OpRefresh fetched now) = Some s \<and> encode cd s = Inr data
        \<and> stored (rf_store (fst (refresh ops cd opts fetched now r))) = Some data)"
proof (cases "publishes cd opts (OpRefresh fetched now)")
  case None
  then show ?thesis using refresh_None by metis
next
  case (Some s)
  then obtain result where r0: "fetched = Inr result" "s = build result now opts" "\<not> isl (encode cd s)"
    by (auto simp: publishes_def split: sum.splits if_splits)
  then obtain data where r: "encode cd s = Inr data" by (cases "encode cd s") auto
  obtain st e where save: "st_Save ops (rf_store r) data = (st, e)" by fastforce
  then have "rf_store (fst (refresh ops cd opts fetched now r)) = st"
    using r r0 by (simp add: refresh_def set_cached_def Let_def split: option.split)
  then show ?thesis using save_cases [of "rf_store r" data] save r Some by auto
qed

lemma perform_origin:
  fixes cd :: codec and opts :: options
  assumes "rf_cached r0 = None" "stored (rf_store r0) = initial"
  defines "r as \<equiv> fold (perform ops cd opts) as r0"
  shows "(\<forall>data. stored (rf_store (r as)) = Some data \<longrightarrow> may_be_stored cd opts initial as data)
    \<and> (\<forall>snap. rf_cached (r as) = Some snap \<longrightarrow> may_be_served cd opts initial as snap)"
proof (induction as rule: rev_induct)
  case Nil
  then show ?case using assms(1,2) by (simp add: r_def may_be_stored_def)
next
  case (snoc a as)
  have step: "r (as @ [a]) = perform ops cd opts a (r as)" by (simp add: r_def)
  have st: "may_be_stored cd opts initial (as @ [a]) data" if "stored (rf_store (r as)) = Some data" for data
    using snoc that by (auto intro: may_be_snoc)
  have ca: "may_be_served cd opts initial (as @ [a]) snap" if "rf_cached (r as) = Some snap" for snap
    using snoc that by (auto intro: may_be_snoc)
  show ?case
  proof (cases a)
    case (OpRefresh fetched now)
    note stepR = step [unfolded OpRefresh perform.simps]
    have "may_be_stored cd opts initial (as @ [a]) data" if new: "stored (rf_store (r (as @ [a]))) = Some data" for data
      using refresh_store_cases [of cd opts fetched now "r as"]
    proof
      assume "stored (rf_store (fst (refresh ops cd opts fetched now (r as)))) = stored (rf_store (r as))"
      with new show ?thesis by (intro st) (simp add: stepR OpRefresh)
    qed (use new in \<open>auto simp: stepR OpRefresh may_be_stored_def\<close>)
    moreover have "rf_cached (r (as @ [a])) = Some snap \<Longrightarrow> may_be_served cd opts initial (as @ [a]) snap" for snap
    proof (cases "publishes cd opts (OpRefresh fetched now)")
      case None
      then show "rf_cached (r (as @ [a])) = Some snap \<Longrightarrow> may_be_served cd opts initial (as @ [a]) snap"
        using ca refresh_None [OF None, of ops "r as"] by (simp add: stepR OpRefresh)
    next
      case (Some s)
      then show "rf_cached (r (as @ [a])) = Some snap \<Longrightarrow> may_be_served cd opts initial (as @ [a]) snap"
        using refresh_Some [OF Some, of ops "r as"] by (auto simp: stepR OpRefresh may_be_served_def)
    qed
    ultimately show ?thesis by blast
  next
    case OpCurrent
    then show ?thesis
      using st current_served(2) [of "r as" cd opts initial "as @ [a]"] ca
      by (auto simp: step [unfolded OpCurrent perform.simps] OpCurrent current_store)
  next
    case OpRestart
    have "fst (warm ops cd x) = fst (current ops cd x)" for x
      by (simp add: warm_def split: prod.split sum.split)
    then show ?thesis
      using st current_served(2) [of "(r as)\<lparr>rf_cached := None\<rparr>" cd opts initial "as @ [a]"]
      by (auto simp: step [unfolded OpRestart perform.simps] OpRestart current_store)
  qed
qed

lemma served_origin:
  assumes "rf_cached r0 = None" "stored (rf_store r0) = initial"
    and "snd (current ops cd (fold (perform ops cd opts) as r0)) = Inr snap"
  shows "may_be_served cd opts initial as snap"
  using perform_origin [OF assms(1,2), where as = as and cd = cd and opts = opts]
  by (intro current_served(1) [OF _ _ assms(3)]) auto

end

text \<open>The refresher of a new process, over a memory store that holds the given bytes.\<close>

definition memory_refresher :: "string option \<Rightarrow> memory refresher" where
  "memory_refresher initial = \<lparr>rf_cached = None, rf_store = new_memory\<lparr>mem_data := initial\<rparr>\<rparr>"

lemma memory_refresher_current:
  "current memory_ops cd (memory_refresher None) = (memory_refresher None, Inl ErrNotFound)"
  by (simp add: current_def memory_refresher_def memory_ops_def memory_load_def new_memory_def)

lemma memory_nothing_published:
  "list_all (\<lambda>a. publishes cd opts a = None) as \<Longrightarrow>
     fold (perform memory_ops cd opts) as (memory_refresher None) = memory_refresher None"
proof (induction as)
  case (Cons a as)
  have "(memory_refresher None)\<lparr>rf_cached := None\<rparr> = memory_refresher None"
    by (simp add: memory_refresher_def)
  then have "perform memory_ops cd opts a (memory_refresher None) = memory_refresher None"
    using Cons.prems refresh_None [of cd opts _ _ memory_ops "memory_refresher None"]
    by (cases a) (simp_all add: warm_def memory_refresher_current)
  with Cons show ?case by simp
qed simp

text \<open>What a new process reads after a refresh that stored its snapshot.\<close>

lemma gcs_restart_current:
  assumes "cloud_ok api b obj"
    and "refresh (gcs_ops api b) cd opts (Inr result) now r = (r', Some snap, None)"
    and "codec_ok cd snap" "snapshot_storable snap"
    and "length (snapshot_text snap) \<le> max_decompressed"
    and "gcs_load api b (rf_store r') = Inr data"
  shows "current (gcs_ops api b) cd \<lparr>rf_cached = None, rf_store = rf_store r'\<rparr> =
    (\<lparr>rf_cached = Some (snapshot_reread snap), rf_store = rf_store r'\<rparr>, Inr (snapshot_reread snap))"
proof -
  note contract = gcs_store_contract [OF assms(1)]
  obtain d where d: "encode cd snap = Inr d" "obj (rf_store r') = Some d" "snap = build result now opts"
    using store_contract.refresh_stored [OF contract assms(2)] by auto
  have "decode cd d = Inr (snapshot_reread snap)"
    using assms(3-5) d(1) unfolding d(3) by (intro decode_built)
  then show ?thesis
    using store_contract.restart_reads [OF contract, of "\<lparr>rf_cached = None, rf_store = rf_store r'\<rparr>" d cd "snapshot_reread snap" data] d(2) assms(6)
    by (simp add: set_cached_def gcs_ops_def)
qed

section \<open>Properties\<close>

text \<open>
  A refresh is all or nothing for the reader: when fetching or encoding fails nothing changes
  and no snapshot is returned, and otherwise the new snapshot is cached and returned, whether or
  not storing it succeeded.
\<close>

theorem refresh_all_or_nothing:
  "(case publishes cd opts (OpRefresh fetched now) of
      None \<Rightarrow> (\<exists>err. refresh ops cd opts fetched now r = (r, None, Some err))
    | Some snap \<Rightarrow>
        (\<exists>result data. fetched = Inr result \<and> snap = build result now opts \<and> encode cd snap = Inr data
           \<and> refresh ops cd opts fetched now r =
               (\<lparr>rf_cached = Some snap, rf_store = fst (st_Save ops (rf_store r) data)\<rparr>,
                Some snap, snd (st_Save ops (rf_store r) data))))"
proof (cases "publishes cd opts (OpRefresh fetched now)")
  case None
  obtain r' s e where eq: "refresh ops cd opts fetched now r = (r', s, e)" by (rule prod_cases3)
  with refresh_None [OF None, of ops r] show ?thesis by (auto simp: None)
next
  case (Some snap)
  then obtain result where r0: "fetched = Inr result" "snap = build result now opts" "\<not> isl (encode cd snap)"
    by (auto simp: publishes_def split: sum.splits if_splits)
  then obtain data where d: "encode cd snap = Inr data" by (cases "encode cd snap") auto
  obtain st e where save: "st_Save ops (rf_store r) data = (st, e)" by fastforce
  have "refresh ops cd opts fetched now r = (\<lparr>rf_cached = Some snap, rf_store = st\<rparr>, Some snap, e)"
    using d save by (cases r; cases e) (simp_all add: refresh_def r0(1) r0(2) [symmetric] set_cached_def Let_def)
  with d r0 save Some show ?thesis by auto
qed

text \<open>
  Reads serve the latest refresh: from a refresh that produced a snapshot until the process
  ends, every read returns the snapshot of the last refresh that produced one, whatever refreshes
  failed and whatever the store does in between.
\<close>

theorem reads_serve_last_refresh:
  assumes "publishes cd opts (OpRefresh fetched now) = Some snap" "list_all (\<lambda>a. a \<noteq> OpRestart) as"
  shows "current ops cd (fold (perform ops cd opts) as (perform ops cd opts (OpRefresh fetched now) r)) =
    (fold (perform ops cd opts) as (perform ops cd opts (OpRefresh fetched now) r),
     Inr (the (last_published cd opts as (Some snap))))"
proof -
  have "rf_cached (perform ops cd opts (OpRefresh fetched now) r) = Some snap"
    using refresh_Some [OF assms(1), of ops r] by simp
  then have "rf_cached (fold (perform ops cd opts) as (perform ops cd opts (OpRefresh fetched now) r))
      = last_published cd opts as (Some snap)"
    by (rule performs_cached [OF assms(2)])
  moreover have "\<exists>s. last_published cd opts as (Some snap) = Some s" for snap
    by (induction as arbitrary: snap) (auto split: option.split)
  ultimately show ?thesis using current_cached by (metis option.sel)
qed

theorem reads_serve_last_refresh_witness:
  "snd (current memory_ops sample_codec
     (fold (perform memory_ops sample_codec sample_options)
        [OpRefresh (Inl ErrDeadline) (sample_time 1), OpCurrent]
        (perform memory_ops sample_codec sample_options
           (OpRefresh (Inr (sample_fetch (90 * Second))) (sample_time 0))
           (memory_refresher None)))) = Inr sample_snapshot"
proof -
  have "publishes sample_codec sample_options
      (OpRefresh (Inr (sample_fetch (90 * Second))) (sample_time 0)) = Some sample_snapshot"
    by (simp add: publishes_def sample_encodes_at sample_snapshot_def)
  from reads_serve_last_refresh [OF this, of "[OpRefresh (Inl ErrDeadline) (sample_time 1), OpCurrent]" memory_ops "memory_refresher None"]
  show ?thesis by (simp add: publishes_def)
qed

text \<open>
  C20. Nothing is invented: after any sequence of refreshes, reads and restarts, a served snapshot is
  one that a refresh produced or the decoding of bytes that were in the store at the start or that
  a refresh encoded.
\<close>

theorem served_snapshots:
  "(case snd (current memory_ops cd (fold (perform memory_ops cd opts) as (memory_refresher initial))) of
      Inr snap \<Rightarrow> may_be_served cd opts initial as snap
    | Inl _ \<Rightarrow> True)"
  using mem.served_origin [of "memory_refresher initial" initial cd opts as]
  by (auto simp: memory_refresher_def split: sum.split)

text \<open>
  Before the first snapshot there is none: with an empty store and as long as no refresh
  produces one, every read reports \<open>ErrNotFound\<close> and start-up only warns.
\<close>

lemma nothing_before_first_refresh:
  "(if list_all (\<lambda>a. publishes cd opts a = None) as
    then snd (current memory_ops cd (fold (perform memory_ops cd opts) as (memory_refresher None))) = Inl ErrNotFound
      \<and> snd (warm memory_ops cd (fold (perform memory_ops cd opts) as (memory_refresher None))) = NoSnapshotYet
    else True)"
  by (simp add: memory_nothing_published warm_def memory_refresher_current)

end
