(* ===== verification/Interleaving.thy ===== *)
theory Interleaving
  imports Refresher
begin

text \<open>
  The refresher under concurrent requests, \<open>internal/snapshot/refresher.go\<close>. Every request runs
  in a thread of its own; a step is one acquisition or release of \<open>refreshMu\<close>, one access of the
  store, or one read or write of the cached pointer, which \<open>cacheMu\<close> makes atomic. Fetching and
  decoding happen between two steps. The machine also records the snapshots published, in order.
\<close>

section \<open>The machine\<close>

datatype phase =
  Idle
| WantsRefresh
| Fetching
| Fetched snapshot string
| Saved snapshot
| Published
| Missed
| Loaded string
| Decoded snapshot

record 's machine =
  m_cached :: "snapshot option"
  m_store :: 's
  m_mutex :: "nat option"
  m_phase :: "nat \<Rightarrow> phase"
  m_published :: "snapshot list"

definition set_phase :: "nat \<Rightarrow> phase \<Rightarrow> 's machine \<Rightarrow> 's machine" where
  "set_phase t p m = m\<lparr>m_phase := (m_phase m)(t := p)\<rparr>"

lemma set_phase_simps [simp]:
  "m_cached (set_phase t p m) = m_cached m" "m_store (set_phase t p m) = m_store m"
  "m_mutex (set_phase t p m) = m_mutex m" "m_published (set_phase t p m) = m_published m"
  "m_phase (set_phase t p m) u = (if u = t then p else m_phase m u)"
  by (simp_all add: set_phase_def)

text \<open>
  The steps of \<open>Refresh\<close>, with the deferred unlock on every way out, and those of \<open>Current\<close>.
\<close>

inductive step :: "'s store_ops \<Rightarrow> codec \<Rightarrow> options \<Rightarrow> 's machine \<Rightarrow> 's machine \<Rightarrow> bool"
  for ops cd opts where
  call_refresh: "m_phase m t = Idle \<Longrightarrow> step ops cd opts m (set_phase t WantsRefresh m)"
| lock: "m_phase m t = WantsRefresh \<Longrightarrow> m_mutex m = None \<Longrightarrow>
    step ops cd opts m (set_phase t Fetching (m\<lparr>m_mutex := Some t\<rparr>))"
| fetch_failed: "m_phase m t = Fetching \<Longrightarrow>
    step ops cd opts m (set_phase t Idle (m\<lparr>m_mutex := None\<rparr>))"
| fetched: "m_phase m t = Fetching \<Longrightarrow> encode cd (build result now opts) = Inr data \<Longrightarrow>
    step ops cd opts m (set_phase t (Fetched (build result now opts) data) m)"
| encode_failed: "m_phase m t = Fetching \<Longrightarrow> encode cd (build result now opts) = Inl err \<Longrightarrow>
    step ops cd opts m (set_phase t Idle (m\<lparr>m_mutex := None\<rparr>))"
| save: "m_phase m t = Fetched snap data \<Longrightarrow>
    step ops cd opts m (set_phase t (Saved snap) (m\<lparr>m_store := fst (st_Save ops (m_store m) data)\<rparr>))"
| publish: "m_phase m t = Saved snap \<Longrightarrow>
    step ops cd opts m (set_phase t Published
      (m\<lparr>m_cached := Some snap, m_published := m_published m @ [snap]\<rparr>))"
| unlock: "m_phase m t = Published \<Longrightarrow>
    step ops cd opts m (set_phase t Idle (m\<lparr>m_mutex := None\<rparr>))"
| read_hit: "m_phase m t = Idle \<Longrightarrow> m_cached m = Some snap \<Longrightarrow> step ops cd opts m m"
| read_miss: "m_phase m t = Idle \<Longrightarrow> m_cached m = None \<Longrightarrow>
    step ops cd opts m (set_phase t Missed m)"
| load_failed: "m_phase m t = Missed \<Longrightarrow> st_Load ops (m_store m) = Inl err \<Longrightarrow>
    step ops cd opts m (set_phase t Idle m)"
| loaded: "m_phase m t = Missed \<Longrightarrow> st_Load ops (m_store m) = Inr data \<Longrightarrow>
    step ops cd opts m (set_phase t (Loaded data) m)"
| decode_failed: "m_phase m t = Loaded data \<Longrightarrow> decode cd data = Inl err \<Longrightarrow>
    step ops cd opts m (set_phase t Idle m)"
| decoded: "m_phase m t = Loaded data \<Longrightarrow> decode cd data = Inr snap \<Longrightarrow>
    step ops cd opts m (set_phase t (Decoded snap) m)"
| install: "m_phase m t = Decoded snap \<Longrightarrow>
    step ops cd opts m (set_phase t Idle (m\<lparr>m_cached := Some snap\<rparr>))"

inductive_cases stepE: "step ops cd opts m m'"

definition start :: "snapshot option \<Rightarrow> 's \<Rightarrow> 's machine" where
  "start cached s =
     \<lparr>m_cached = cached, m_store = s, m_mutex = None, m_phase = (\<lambda>t. Idle), m_published = []\<rparr>"

section \<open>Invariants\<close>

fun critical :: "phase \<Rightarrow> bool" where
  "critical Fetching = True"
| "critical (Fetched snap data) = True"
| "critical (Saved snap) = True"
| "critical Published = True"
| "critical _ = False"

fun loading :: "phase \<Rightarrow> bool" where
  "loading Missed = True"
| "loading (Loaded data) = True"
| "loading (Decoded snap) = True"
| "loading _ = False"

text \<open>The holder of the mutex, and no other thread, is inside \<open>Refresh\<close>.\<close>

definition mutex_inv :: "'s machine \<Rightarrow> bool" where
  "mutex_inv m \<longleftrightarrow> (\<forall>t. critical (m_phase m t) \<longleftrightarrow> m_mutex m = Some t)"

lemma mutex_inv_keep:
  "mutex_inv m \<Longrightarrow> critical p = critical (m_phase m t) \<Longrightarrow> m_phase m' = m_phase m \<Longrightarrow>
     m_mutex m' = m_mutex m \<Longrightarrow> mutex_inv (set_phase t p m')"
  by (simp add: mutex_inv_def)

lemma mutex_inv_acquire:
  "mutex_inv m \<Longrightarrow> m_mutex m = None \<Longrightarrow> mutex_inv (set_phase t Fetching (m\<lparr>m_mutex := Some t\<rparr>))"
  by (auto simp: mutex_inv_def)

lemma mutex_inv_release:
  assumes "mutex_inv m" "critical (m_phase m t)"
  shows "mutex_inv (set_phase t Idle (m\<lparr>m_mutex := None\<rparr>))"
proof -
  have "critical (m_phase m u) \<Longrightarrow> u = t" for u
    using assms unfolding mutex_inv_def by (metis option.inject)
  then show ?thesis by (auto simp: mutex_inv_def)
qed

lemma mutex_inv_step: "step ops cd opts m m' \<Longrightarrow> mutex_inv m \<Longrightarrow> mutex_inv m'"
  by (induction rule: step.induct)
    (assumption | (rule mutex_inv_acquire mutex_inv_release; simp) | (erule mutex_inv_keep; simp))+

lemma mutex_inv_reach: "(step ops cd opts)\<^sup>*\<^sup>* m m' \<Longrightarrow> mutex_inv m \<Longrightarrow> mutex_inv m'"
  by (induction rule: rtranclp_induct) (auto intro: mutex_inv_step)

lemma published_grows: "step ops cd opts m m' \<Longrightarrow> length (m_published m) \<le> length (m_published m')"
  by (induction rule: step.induct) simp_all

text \<open>Once the cache is filled and no read is on its way to fill it, only refreshes change it.\<close>

definition quiet :: "snapshot \<Rightarrow> 's machine \<Rightarrow> bool" where
  "quiet s m \<longleftrightarrow> (\<forall>t. \<not> loading (m_phase m t)) \<and> m_cached m = Some (last (s # m_published m))"

lemma quiet_keep:
  "quiet s m \<Longrightarrow> \<not> loading p \<Longrightarrow> m_phase m' = m_phase m \<Longrightarrow> m_cached m' = m_cached m \<Longrightarrow>
     m_published m' = m_published m \<Longrightarrow> quiet s (set_phase t p m')"
  by (simp add: quiet_def)

lemma quiet_publish:
  "quiet s m \<Longrightarrow> quiet s (set_phase t Published (m\<lparr>m_cached := Some snap, m_published := m_published m @ [snap]\<rparr>))"
  by (simp add: quiet_def)

lemma quiet_not_loading: "quiet s m \<Longrightarrow> m_phase m t = p \<Longrightarrow> \<not> loading p"
  by (auto simp: quiet_def)

lemma quiet_step: "step ops cd opts m m' \<Longrightarrow> quiet s m \<Longrightarrow> quiet s m'"
proof (induction rule: step.induct)
  case (read_miss m t)
  then show ?case by (simp add: quiet_def)
next
  case (loaded m t data)
  from quiet_not_loading [OF loaded(3,1)] show ?case by simp
next
  case (decoded m t data snap)
  from quiet_not_loading [OF decoded(3,1)] show ?case by simp
next
  case (install m t snap)
  from quiet_not_loading [OF install(2,1)] show ?case by simp
qed (simp_all add: quiet_keep quiet_publish)

lemma quiet_reach: "(step ops cd opts)\<^sup>*\<^sup>* m m' \<Longrightarrow> quiet s m \<Longrightarrow> quiet s m'"
  by (induction rule: rtranclp_induct) (auto intro: quiet_step)

lemma quiet_start: "quiet s0 (start (Some s0) s)"
  by (simp add: quiet_def start_def)

text \<open>From a publication on, if no read was loading then, the cache is the snapshot published last.\<close>

lemma published_stays:
  assumes "step ops cd opts m0 m1" "\<forall>t. \<not> loading (m_phase m0 t)" "m_published m1 = m_published m0 @ [s0]"
    and "(step ops cd opts)\<^sup>*\<^sup>* m1 m"
  shows "m_cached m = Some (last (m_published m)) \<and> m_published m \<noteq> []"
proof -
  have "m_cached m1 = Some s0 \<and> (\<forall>t. \<not> loading (m_phase m1 t))"
    using assms(1-3) by (cases rule: step.cases) auto
  then have "quiet s0 m1" by (simp add: quiet_def assms(3))
  then have "quiet s0 m" by (rule quiet_reach [OF assms(4)])
  moreover have "length (m_published m1) \<le> length (m_published m)"
    using assms(4) by (induction rule: rtranclp_induct) (auto elim: le_trans [OF _ published_grows])
  then have "m_published m \<noteq> []" by (auto simp: assms(3))
  ultimately show ?thesis by (simp add: quiet_def)
qed

text \<open>What is about to be saved or published, and what was published, has been encoded.\<close>

fun carried :: "phase \<Rightarrow> snapshot option" where
  "carried (Fetched snap data) = Some snap"
| "carried (Saved snap) = Some snap"
| "carried _ = None"

definition encoded_inv :: "codec \<Rightarrow> 's machine \<Rightarrow> bool" where
  "encoded_inv cd m \<longleftrightarrow>
     (\<forall>t s. carried (m_phase m t) = Some s \<longrightarrow> \<not> isl (encode cd s))
     \<and> (\<forall>s \<in> set (m_published m). \<not> isl (encode cd s))"

lemma encoded_inv_keep:
  "encoded_inv cd m \<Longrightarrow> (\<And>s. carried p = Some s \<Longrightarrow> \<not> isl (encode cd s)) \<Longrightarrow> m_phase m' = m_phase m \<Longrightarrow>
     m_published m' = m_published m \<Longrightarrow> encoded_inv cd (set_phase t p m')"
  by (simp add: encoded_inv_def)

lemma encoded_inv_carried: "encoded_inv cd m \<Longrightarrow> carried (m_phase m t) = Some s \<Longrightarrow> \<not> isl (encode cd s)"
  by (auto simp: encoded_inv_def)

lemma encoded_inv_step: "step ops cd opts m m' \<Longrightarrow> encoded_inv cd m \<Longrightarrow> encoded_inv cd m'"
proof (induction rule: step.induct)
  case (save m t snap data)
  with encoded_inv_carried [of cd m t snap] show ?case by (intro encoded_inv_keep) auto
next
  case (publish m t snap)
  with encoded_inv_carried [of cd m t snap] show ?case by (auto simp: encoded_inv_def)
qed (assumption | (erule encoded_inv_keep; simp))+

lemma encoded_inv_reach: "(step ops cd opts)\<^sup>*\<^sup>* m m' \<Longrightarrow> encoded_inv cd m \<Longrightarrow> encoded_inv cd m'"
  by (induction rule: rtranclp_induct) (auto intro: encoded_inv_step)

lemma published_encoded:
  "(step ops cd opts)\<^sup>*\<^sup>* (start cached s) m \<Longrightarrow> snap \<in> set (m_published m) \<Longrightarrow> \<not> isl (encode cd snap)"
  using encoded_inv_reach [of ops cd opts "start cached s" m] by (simp add: encoded_inv_def start_def)

text \<open>A cached snapshot stays for as long as nothing further is published.\<close>

definition unrefreshed :: "snapshot list \<Rightarrow> snapshot \<Rightarrow> 's machine \<Rightarrow> bool" where
  "unrefreshed ps s m \<longleftrightarrow>
     (\<forall>t. \<not> loading (m_phase m t)) \<and> length ps \<le> length (m_published m) \<and> m_cached m \<noteq> None
     \<and> (m_published m = ps \<longrightarrow> m_cached m = Some s)"

lemma unrefreshed_keep:
  "unrefreshed ps s m \<Longrightarrow> \<not> loading p \<Longrightarrow> m_phase m' = m_phase m \<Longrightarrow> m_cached m' = m_cached m \<Longrightarrow>
     m_published m' = m_published m \<Longrightarrow> unrefreshed ps s (set_phase t p m')"
  by (simp add: unrefreshed_def)

lemma unrefreshed_publish:
  "unrefreshed ps s m \<Longrightarrow>
     unrefreshed ps s (set_phase t Published (m\<lparr>m_cached := Some snap, m_published := m_published m @ [snap]\<rparr>))"
  by (auto simp: unrefreshed_def)

lemma unrefreshed_not_loading: "unrefreshed ps s m \<Longrightarrow> m_phase m t = p \<Longrightarrow> \<not> loading p"
  by (auto simp: unrefreshed_def)

lemma unrefreshed_step: "step ops cd opts m m' \<Longrightarrow> unrefreshed ps s m \<Longrightarrow> unrefreshed ps s m'"
proof (induction rule: step.induct)
  case (read_miss m t)
  then show ?case by (simp add: unrefreshed_def)
next
  case (loaded m t data)
  from unrefreshed_not_loading [OF loaded(3,1)] show ?case by simp
next
  case (decoded m t data snap)
  from unrefreshed_not_loading [OF decoded(3,1)] show ?case by simp
next
  case (install m t snap)
  from unrefreshed_not_loading [OF install(2,1)] show ?case by simp
qed (simp_all add: unrefreshed_keep unrefreshed_publish)

lemma unrefreshed_reach: "(step ops cd opts)\<^sup>*\<^sup>* m m' \<Longrightarrow> unrefreshed ps s m \<Longrightarrow> unrefreshed ps s m'"
  by (induction rule: rtranclp_induct) (auto intro: unrefreshed_step)

section \<open>The race of a read with a refresh\<close>

text \<open>
  A read that missed the cache and has decoded the old object; a refresh that runs from start to
  end; then the read's assignment.
\<close>

lemma more_steps:
  "step ops cd opts m m1 \<Longrightarrow> (step ops cd opts ^^ n) m1 m2 \<Longrightarrow> (step ops cd opts ^^ Suc n) m m2"
  by (rule relpowp_Suc_I2)

lemma no_steps: "(step ops cd opts ^^ 0) m m"
  by (rule relpowp_0_I)

lemma refresh_proceeds:
  assumes "m_phase m t = WantsRefresh" "m_mutex m = None" "encode cd (build r now opts) = Inr data"
  shows "(step ops cd opts ^^ 5) m
    (set_phase t Idle (m\<lparr>m_cached := Some (build r now opts), m_published := m_published m @ [build r now opts],
       m_store := fst (st_Save ops (m_store m) data)\<rparr>))"
proof -
  let ?snap = "build r now opts"
  define m2 where "m2 = set_phase t Fetching (m\<lparr>m_mutex := Some t\<rparr>)"
  have 2: "step ops cd opts m m2" unfolding m2_def by (rule lock) (rule assms)+
  define m3 where "m3 = set_phase t (Fetched ?snap data) m2"
  have 3: "step ops cd opts m2 m3" unfolding m3_def by (rule fetched) (simp_all add: m2_def assms(3))
  define m4 where "m4 = set_phase t (Saved ?snap) (m3\<lparr>m_store := fst (st_Save ops (m_store m3) data)\<rparr>)"
  have 4: "step ops cd opts m3 m4" unfolding m4_def by (rule save) (simp add: m3_def)
  define m5 where "m5 = set_phase t Published (m4\<lparr>m_cached := Some ?snap, m_published := m_published m4 @ [?snap]\<rparr>)"
  have 5: "step ops cd opts m4 m5" unfolding m5_def by (rule publish) (simp add: m4_def)
  have 6: "step ops cd opts m5 (set_phase t Idle (m5\<lparr>m_mutex := None\<rparr>))" by (rule unlock) (simp add: m5_def)
  have five: "(5::nat) = Suc (Suc (Suc (Suc (Suc 0))))" by simp
  have "(step ops cd opts ^^ 5) m (set_phase t Idle (m5\<lparr>m_mutex := None\<rparr>))"
    unfolding five by (rule more_steps [OF 2] more_steps [OF 3] more_steps [OF 4] more_steps [OF 5]
        more_steps [OF 6] no_steps)+
  moreover have "set_phase t Idle (m5\<lparr>m_mutex := None\<rparr>) =
      set_phase t Idle (m\<lparr>m_cached := Some ?snap, m_published := m_published m @ [?snap],
        m_store := fst (st_Save ops (m_store m) data)\<rparr>)"
    using assms(2) by (simp add: m5_def m4_def m3_def m2_def set_phase_def)
  ultimately show ?thesis by simp
qed

lemma refresh_runs:
  assumes "m_phase m t = Idle" "m_mutex m = None" "encode cd (build r now opts) = Inr data"
  shows "(step ops cd opts)\<^sup>*\<^sup>* m
    (set_phase t Idle (m\<lparr>m_cached := Some (build r now opts), m_published := m_published m @ [build r now opts],
       m_store := fst (st_Save ops (m_store m) data)\<rparr>))"
proof -
  let ?m = "set_phase t WantsRefresh m"
  have "step ops cd opts m ?m" by (rule call_refresh) (rule assms(1))
  moreover have "(step ops cd opts)\<^sup>*\<^sup>* ?m
    (set_phase t Idle (?m\<lparr>m_cached := Some (build r now opts), m_published := m_published ?m @ [build r now opts],
       m_store := fst (st_Save ops (m_store ?m) data)\<rparr>))"
    by (rule relpowp_imp_rtranclp [OF refresh_proceeds [OF _ _ assms(3)]]) (simp_all add: assms(2))
  ultimately show ?thesis by (simp add: set_phase_def)
qed

section \<open>One request after the other\<close>

text \<open>
  The operations of \<open>Refresher.thy\<close>, performed one after the other, are runs of the machine in which
  every thread finishes before the next one starts.
\<close>

definition at_rest :: "'s refresher \<Rightarrow> snapshot list \<Rightarrow> 's machine" where
  "at_rest r ps = (start (rf_cached r) (rf_store r))\<lparr>m_published := ps\<rparr>"

lemma at_rest_simps [simp]:
  "m_cached (at_rest r ps) = rf_cached r" "m_store (at_rest r ps) = rf_store r" "m_mutex (at_rest r ps) = None"
  "m_phase (at_rest r ps) t = Idle" "m_published (at_rest r ps) = ps"
  by (simp_all add: at_rest_def start_def)

lemma two_steps: "step ops cd opts m m1 \<Longrightarrow> step ops cd opts m1 m2 \<Longrightarrow> (step ops cd opts)\<^sup>*\<^sup>* m m2"
  by auto

lemma current_run: "(step ops cd opts)\<^sup>*\<^sup>* (at_rest r ps) (at_rest (fst (current ops cd r)) ps)"
proof (cases "rf_cached r")
  case None
  define m1 where "m1 = set_phase 0 Missed (at_rest r ps)"
  have 1: "step ops cd opts (at_rest r ps) m1" unfolding m1_def by (rule read_miss) (simp_all add: None)
  have idle: "set_phase 0 Idle m1 = at_rest r ps"
    by (auto simp: m1_def set_phase_def at_rest_def start_def)
  show ?thesis
  proof (cases "st_Load ops (rf_store r)")
    case (Inl err)
    have "step ops cd opts m1 (set_phase 0 Idle m1)" by (rule load_failed [where err = err]) (simp_all add: m1_def Inl)
    then show ?thesis using two_steps [OF 1] idle by (simp add: current_def None Inl)
  next
    case (Inr data)
    define m2 where "m2 = set_phase 0 (Loaded data) m1"
    have 2: "step ops cd opts m1 m2" unfolding m2_def by (rule loaded) (simp_all add: m1_def Inr)
    show ?thesis
    proof (cases "decode cd data")
      case (Inl err)
      have 3: "step ops cd opts m2 (set_phase 0 Idle m2)" by (rule decode_failed [where err = err and data = data]) (simp_all add: m2_def Inl)
      have "set_phase 0 Idle m2 = at_rest r ps" by (auto simp: m2_def m1_def set_phase_def at_rest_def start_def)
      then show ?thesis
        using two_steps [OF 2 3] 1 by (simp add: current_def None Inl \<open>st_Load ops (rf_store r) = Inr data\<close>)
    next
      case (Inr snap)
      define m3 where "m3 = set_phase 0 (Decoded snap) m2"
      have 3: "step ops cd opts m2 m3" unfolding m3_def by (rule decoded [where data = data]) (simp_all add: m2_def Inr)
      have 4: "step ops cd opts m3 (set_phase 0 Idle (m3\<lparr>m_cached := Some snap\<rparr>))" by (rule install) (simp add: m3_def)
      have "set_phase 0 Idle (m3\<lparr>m_cached := Some snap\<rparr>) = at_rest (set_cached snap r) ps"
        by (auto simp: m3_def m2_def m1_def set_phase_def at_rest_def start_def set_cached_def)
      then show ?thesis
        using two_steps [OF 1 2] two_steps [OF 3 4]
        by (simp add: current_def None Inr \<open>st_Load ops (rf_store r) = Inr data\<close>)
    qed
  qed
qed (simp add: current_def)

lemma refresh_run:
  "(step ops cd opts)\<^sup>*\<^sup>* (at_rest r ps)
     (at_rest (fst (refresh ops cd opts fetched now r))
       (ps @ (case publishes cd opts (OpRefresh fetched now) of None \<Rightarrow> [] | Some s \<Rightarrow> [s])))"
proof (cases "publishes cd opts (OpRefresh fetched now)")
  case None
  then show ?thesis using refresh_None [OF None, of ops r] by simp
next
  case (Some s)
  then obtain result data where f: "fetched = Inr result" "s = build result now opts" "encode cd s = Inr data"
    by (cases fetched; cases "encode cd (build (projr fetched) now opts)") (auto simp: publishes_def split: if_splits)
  have "(step ops cd opts)\<^sup>*\<^sup>* (at_rest r ps) (set_phase 0 Idle ((at_rest r ps)\<lparr>m_cached := Some s,
      m_published := m_published (at_rest r ps) @ [s], m_store := fst (st_Save ops (m_store (at_rest r ps)) data)\<rparr>))"
    using f(3) unfolding f(2) by (intro refresh_runs) simp_all
  moreover have "fst (refresh ops cd opts fetched now r) = \<lparr>rf_cached = Some s, rf_store = fst (st_Save ops (rf_store r) data)\<rparr>"
    using f(3) by (auto simp: refresh_def f(1,2) set_cached_def Let_def split: prod.split option.split)
  moreover have "set_phase 0 Idle ((at_rest r ps)\<lparr>m_cached := Some s,
      m_published := m_published (at_rest r ps) @ [s], m_store := fst (st_Save ops (m_store (at_rest r ps)) data)\<rparr>)
    = at_rest \<lparr>rf_cached = Some s, rf_store = fst (st_Save ops (rf_store r) data)\<rparr> (ps @ [s])"
    by (auto simp: set_phase_def at_rest_def start_def)
  ultimately show ?thesis by (simp add: Some)
qed

section \<open>The way out of the critical section\<close>

text \<open>The holder of the mutex gets to its unlock by steps of its own, at most three.\<close>

definition finished :: "nat \<Rightarrow> 's machine \<Rightarrow> 's machine \<Rightarrow> bool" where
  "finished u m m' \<longleftrightarrow> m_mutex m' = None \<and> m_phase m' = (m_phase m)(u := Idle)
     \<and> (\<exists>ps. m_published m' = m_published m @ ps)"

lemma finished_keep:
  "finished u m m' \<Longrightarrow> m_phase m = (m_phase m0)(u := p) \<Longrightarrow> m_published m = m_published m0 @ ps \<Longrightarrow> finished u m0 m'"
  by (auto simp: finished_def)

lemma finish_published:
  assumes "m_phase m u = Published"
  shows "\<exists>m'. (step ops cd opts ^^ Suc 0) m m' \<and> finished u m m'"
proof -
  have "(step ops cd opts ^^ Suc 0) m (set_phase u Idle (m\<lparr>m_mutex := None\<rparr>))"
    by (rule more_steps [OF unlock [OF assms] no_steps])
  moreover have "finished u m (set_phase u Idle (m\<lparr>m_mutex := None\<rparr>))" by (simp add: finished_def set_phase_def)
  ultimately show ?thesis by blast
qed

lemma finish_saved:
  assumes "m_phase m u = Saved snap"
  shows "\<exists>m'. (step ops cd opts ^^ Suc (Suc 0)) m m' \<and> finished u m m'"
proof -
  let ?m = "set_phase u Published (m\<lparr>m_cached := Some snap, m_published := m_published m @ [snap]\<rparr>)"
  have "m_phase ?m u = Published" by simp
  then obtain m' where m': "(step ops cd opts ^^ Suc 0) ?m m'" "finished u ?m m'"
    using finish_published by blast
  have "(step ops cd opts ^^ Suc (Suc 0)) m m'" by (rule more_steps [OF publish [OF assms] m'(1)])
  moreover have "finished u m m'" by (rule finished_keep [OF m'(2)]) (simp_all add: set_phase_def)
  ultimately show ?thesis by blast
qed

lemma finish_fetched:
  assumes "m_phase m u = Fetched snap data"
  shows "\<exists>m'. (step ops cd opts ^^ Suc (Suc (Suc 0))) m m' \<and> finished u m m'"
proof -
  let ?m = "set_phase u (Saved snap) (m\<lparr>m_store := fst (st_Save ops (m_store m) data)\<rparr>)"
  have "m_phase ?m u = Saved snap" by simp
  then obtain m' where m': "(step ops cd opts ^^ Suc (Suc 0)) ?m m'" "finished u ?m m'"
    using finish_saved by blast
  have "(step ops cd opts ^^ Suc (Suc (Suc 0))) m m'" by (rule more_steps [OF save [OF assms] m'(1)])
  moreover have "finished u m m'"
    by (rule finished_keep [OF m'(2), where ps = "[]"]) (simp_all add: set_phase_def)
  ultimately show ?thesis by blast
qed

lemma finish_fetching:
  assumes "m_phase m u = Fetching"
  shows "\<exists>m'. (step ops cd opts ^^ Suc 0) m m' \<and> finished u m m'"
proof -
  have "(step ops cd opts ^^ Suc 0) m (set_phase u Idle (m\<lparr>m_mutex := None\<rparr>))"
    by (rule more_steps [OF fetch_failed [OF assms] no_steps])
  moreover have "finished u m (set_phase u Idle (m\<lparr>m_mutex := None\<rparr>))" by (simp add: finished_def set_phase_def)
  ultimately show ?thesis by blast
qed

lemma holder_finishes:
  assumes "critical (m_phase m u)"
  shows "\<exists>n m'. n \<le> 3 \<and> (step ops cd opts ^^ n) m m' \<and> finished u m m'"
proof -
  have within: "\<exists>m'. (step ops cd opts ^^ n) m m' \<and> finished u m m' \<Longrightarrow> n \<le> 3 \<Longrightarrow> ?thesis" for n by blast
  show ?thesis
  proof (cases "m_phase m u")
    case Fetching
    then show ?thesis by (intro within [OF finish_fetching]) simp_all
  next
    case (Fetched snap data)
    then show ?thesis by (intro within [OF finish_fetched]) simp_all
  next
    case (Saved snap)
    then show ?thesis by (intro within [OF finish_saved]) simp_all
  next
    case Published
    then show ?thesis by (intro within [OF finish_published]) simp_all
  qed (use assms in simp_all)
qed

section \<open>The store and what was published\<close>

text \<open>
  What a store that never fails holds: the bytes of the snapshot that a thread is about to publish,
  or of the one last published, or what it held first.
\<close>

fun saved :: "phase \<Rightarrow> bool" where
  "saved (Saved snap) = True"
| "saved _ = False"

definition stored_for :: "codec \<Rightarrow> string option \<Rightarrow> snapshot list \<Rightarrow> string option \<Rightarrow> bool" where
  "stored_for cd init ps data \<longleftrightarrow>
     (if ps = [] then data = init else \<exists>bytes. encode cd (last ps) = Inr bytes \<and> data = Some bytes)"

definition store_inv :: "codec \<Rightarrow> string option \<Rightarrow> memory machine \<Rightarrow> bool" where
  "store_inv cd init m \<longleftrightarrow>
     mutex_inv m
     \<and> (\<forall>t snap data. m_phase m t = Fetched snap data \<longrightarrow> encode cd snap = Inr data)
     \<and> (\<forall>t snap. m_phase m t = Saved snap \<longrightarrow>
          (\<exists>bytes. encode cd snap = Inr bytes \<and> mem_data (m_store m) = Some bytes))
     \<and> ((\<forall>t. \<not> saved (m_phase m t)) \<longrightarrow> stored_for cd init (m_published m) (mem_data (m_store m)))"

lemma store_inv_keep:
  assumes "store_inv cd init m" "\<not> saved p" "\<not> saved (m_phase m t)"
    and "\<And>snap data. p = Fetched snap data \<Longrightarrow> encode cd snap = Inr data"
    and "m_phase m' = m_phase m" "m_store m' = m_store m" "m_published m' = m_published m"
    and "mutex_inv (set_phase t p m')"
  shows "store_inv cd init (set_phase t p m')"
proof -
  have "saved (m_phase (set_phase t p m') u) \<longleftrightarrow> saved (m_phase m u)" for u
    using assms(2,3,5) by simp
  moreover have "p \<noteq> Saved snap" for snap using assms(2) by auto
  ultimately show ?thesis
    unfolding store_inv_def using assms(1) [unfolded store_inv_def] assms(4-8) by simp
qed

lemma holder_unique: "mutex_inv m \<Longrightarrow> critical (m_phase m t) \<Longrightarrow> u \<noteq> t \<Longrightarrow> \<not> critical (m_phase m u)"
  unfolding mutex_inv_def by (metis option.inject)

lemma saved_critical: "saved p \<Longrightarrow> critical p"
  by (cases p) simp_all

lemma store_inv_step:
  assumes "step memory_ops cd opts m m'" "store_inv cd init m"
  shows "store_inv cd init m'"
proof -
  have inv: "mutex_inv m'" using mutex_inv_step [OF assms(1)] assms(2) by (simp add: store_inv_def)
  show ?thesis
    using assms inv
  proof (cases rule: step.cases)
    case (save t snap data)
    then have other: "u \<noteq> t \<Longrightarrow> \<not> critical (m_phase m u)" for u
      using assms(2) holder_unique [of m t u] by (auto simp: store_inv_def)
    have "m_phase m u \<noteq> Saved s" if "u \<noteq> t" for u s using other [OF that] by auto
    then show ?thesis
      using save assms(2) inv by (auto simp: store_inv_def memory_ops_def memory_save_def)
  next
    case (publish t snap)
    then have other: "u \<noteq> t \<Longrightarrow> \<not> critical (m_phase m u)" for u
      using assms(2) holder_unique [of m t u] by (auto simp: store_inv_def)
    have "m_phase m u \<noteq> Saved s" if "u \<noteq> t" for u s using other [OF that] by auto
    moreover have "m_phase m u \<noteq> Fetched s d" if "u \<noteq> t" for u s d using other [OF that] by auto
    ultimately show ?thesis
      using publish assms(2) inv by (auto simp: store_inv_def stored_for_def)
  qed (simp; rule store_inv_keep [OF assms(2)]; simp)+
qed

lemma store_inv_reach: "(step memory_ops cd opts)\<^sup>*\<^sup>* m m' \<Longrightarrow> store_inv cd init m \<Longrightarrow> store_inv cd init m'"
  by (induction rule: rtranclp_induct) (auto intro: store_inv_step)

section \<open>Properties\<close>

text \<open>
  C11. Refreshes are serialised: in every reachable state the threads between the acquisition and
  the release of \<open>refreshMu\<close>, which alone fetch, save and publish, are the one that holds it, or
  none.
\<close>

theorem refresh_mutual_exclusion:
  assumes "(step ops cd opts)\<^sup>*\<^sup>* (start cached s) m"
  shows "\<exists>holder. \<forall>t. critical (m_phase m t) \<longleftrightarrow> holder = Some t"
proof -
  have "mutex_inv (start cached s)" by (simp add: mutex_inv_def start_def)
  then have "mutex_inv m" by (rule mutex_inv_reach [OF assms])
  then show ?thesis unfolding mutex_inv_def by blast
qed

theorem refresh_mutual_exclusion_witness:
  "\<exists>holder. \<forall>t. critical (m_phase (set_phase 7 Fetching
      ((set_phase 7 WantsRefresh (start None new_memory))\<lparr>m_mutex := Some 7\<rparr>)) t) \<longleftrightarrow> holder = Some t"
proof (rule refresh_mutual_exclusion)
  let ?cd = "sample_codec"
  have "step memory_ops ?cd sample_options (start None new_memory) (set_phase 7 WantsRefresh (start None new_memory))"
    by (rule call_refresh) (simp add: start_def)
  moreover have "step memory_ops ?cd sample_options (set_phase 7 WantsRefresh (start None new_memory))
      (set_phase 7 Fetching ((set_phase 7 WantsRefresh (start None new_memory))\<lparr>m_mutex := Some 7\<rparr>))"
    by (rule lock) (simp_all add: start_def)
  ultimately show "(step memory_ops ?cd sample_options)\<^sup>*\<^sup>* (start None new_memory)
      (set_phase 7 Fetching ((set_phase 7 WantsRefresh (start None new_memory))\<lparr>m_mutex := Some 7\<rparr>))"
    by auto
qed

text \<open>
  C10. When \<open>Warm\<close> has loaded a snapshot before the traffic starts, concurrent requests are
  linear: the cached snapshot is always the last one published, or the one loaded while there is
  none.
\<close>

theorem warm_reads_latest:
  assumes "(step ops cd opts)\<^sup>*\<^sup>* (start (Some s0) s) m"
  shows "m_cached m = Some (last (s0 # m_published m))"
proof -
  have "quiet s0 m" by (rule quiet_reach [OF assms quiet_start])
  then show ?thesis by (simp add: quiet_def)
qed

theorem warm_reads_latest_witness:
  "m_cached (set_phase 1 Idle ((start (Some sample_snapshot) new_memory)
     \<lparr>m_cached := Some (build (sample_fetch 5) (sample_time 9) sample_options),
      m_published := m_published (start (Some sample_snapshot) new_memory)
        @ [build (sample_fetch 5) (sample_time 9) sample_options],
      m_store := fst (st_Save memory_ops (m_store (start (Some sample_snapshot) new_memory)) (sample_data (build (sample_fetch 5) (sample_time 9) sample_options)))\<rparr>))
   = Some (last (sample_snapshot # [build (sample_fetch 5) (sample_time 9) sample_options]))"
proof -
  let ?r = "sample_fetch 5"
  have "(step memory_ops sample_codec sample_options)\<^sup>*\<^sup>* (start (Some sample_snapshot) new_memory)
      (set_phase 1 Idle ((start (Some sample_snapshot) new_memory)
       \<lparr>m_cached := Some (build ?r (sample_time 9) sample_options),
        m_published := m_published (start (Some sample_snapshot) new_memory) @ [build ?r (sample_time 9) sample_options],
        m_store := fst (st_Save memory_ops (m_store (start (Some sample_snapshot) new_memory)) (sample_data (build (sample_fetch 5) (sample_time 9) sample_options)))\<rparr>))"
    by (rule refresh_runs) (simp_all add: start_def sample_encodes_at)
  from warm_reads_latest [OF this] show ?thesis by (simp add: start_def)
qed

text \<open>
  C14. Without that, a read can undo a refresh: a read that missed the cache and loaded the old
  object may assign the cache after a whole refresh has stored and published a newer snapshot. In
  the state reached no request is running, the store holds the new snapshot, and every read is
  served the old one until another refresh publishes.
\<close>

theorem read_overwrites_refresh:
  assumes "decode cd old_data = Inr old" "encode cd (build r now opts) = Inr new_data"
  shows "\<exists>m. (step memory_ops cd opts)\<^sup>*\<^sup>* (start None (new_memory\<lparr>mem_data := Some old_data\<rparr>)) m
    \<and> m_phase m = (\<lambda>t. Idle) \<and> m_mutex m = None
    \<and> m_published m = [build r now opts] \<and> mem_data (m_store m) = Some new_data
    \<and> m_cached m = Some old
    \<and> (\<forall>m'. (step memory_ops cd opts)\<^sup>*\<^sup>* m m' \<longrightarrow> m_published m' = m_published m \<longrightarrow> m_cached m' = Some old)"
proof -
  let ?s = "step memory_ops cd opts"
  let ?m0 = "start None (new_memory\<lparr>mem_data := Some old_data\<rparr>)"
  define m1 where "m1 = set_phase 0 Missed ?m0"
  have 1: "?s ?m0 m1" unfolding m1_def by (rule read_miss) (simp_all add: start_def)
  define m2 where "m2 = set_phase 0 (Loaded old_data) m1"
  have 2: "?s m1 m2" unfolding m2_def
    by (rule loaded) (simp_all add: m1_def start_def memory_ops_def memory_load_def)
  define m3 where "m3 = set_phase 0 (Decoded old) m2"
  have 3: "?s m2 m3" unfolding m3_def by (rule decoded [where data = old_data]) (simp_all add: m2_def assms(1))
  define m4 where "m4 = set_phase 1 Idle (m3\<lparr>m_cached := Some (build r now opts),
      m_published := m_published m3 @ [build r now opts], m_store := fst (st_Save memory_ops (m_store m3) new_data)\<rparr>)"
  have 4: "?s\<^sup>*\<^sup>* m3 m4" unfolding m4_def
    by (rule refresh_runs) (simp_all add: m3_def m2_def m1_def start_def assms(2))
  define m5 where "m5 = set_phase 0 Idle (m4\<lparr>m_cached := Some old\<rparr>)"
  have 5: "?s m4 m5" unfolding m5_def by (rule install) (simp add: m4_def m3_def)
  have "?s\<^sup>*\<^sup>* ?m0 m3" using 1 2 3 by auto
  with 4 5 have run: "?s\<^sup>*\<^sup>* ?m0 m5" by auto
  have st: "m_phase m5 = (\<lambda>t. Idle)" "m_mutex m5 = None" "m_published m5 = [build r now opts]"
    "mem_data (m_store m5) = Some new_data" "m_cached m5 = Some old"
    by (auto simp: m5_def m4_def m3_def m2_def m1_def start_def memory_ops_def memory_save_def)
  then have "unrefreshed (m_published m5) old m5" by (simp add: unrefreshed_def)
  then have "?s\<^sup>*\<^sup>* m5 m' \<Longrightarrow> m_published m' = m_published m5 \<Longrightarrow> m_cached m' = Some old" for m'
    using unrefreshed_reach [of memory_ops cd opts m5 m' "m_published m5" old] by (simp add: unrefreshed_def)
  with run st show ?thesis by blast
qed

definition sample_old :: string where
  "sample_old = CHR ''z'' # ''{'' @ [CHR 0x22] @ ''source_duration_ms'' @ [CHR 0x22] @ '':1}''"

theorem read_overwrites_refresh_witness:
  "\<exists>m s. (step memory_ops sample_codec sample_options)\<^sup>*\<^sup>*
        (start None (new_memory\<lparr>mem_data := Some sample_old\<rparr>)) m
     \<and> mem_data (m_store m) = Some (sample_data sample_snapshot)
     \<and> m_cached m = Some s \<and> snap_SourceDurationMS s = 1"
proof -
  let ?read = "res_bind (json_parse (tl sample_old) None) unmarshal_snapshot"
  have "(case ?read of Inl e \<Rightarrow> False | Inr s \<Rightarrow> snap_SourceDurationMS s = 1)" by code_simp
  then obtain s where s: "?read = Inr s" "snap_SourceDurationMS s = 1" by (cases ?read) auto
  have "length (tl sample_old) \<le> max_decompressed" by (simp add: sample_old_def max_decompressed_def)
  moreover have "cd_Gunzip sample_codec sample_old = Inr (tl sample_old, None)" by (simp add: sample_codec_def sample_old_def)
  ultimately have "decode sample_codec sample_old = Inr s" by (simp add: decode_def limit_reader_all s(1))
  from read_overwrites_refresh [OF this sample_snapshot_encodes [unfolded sample_snapshot_def]] show ?thesis
    using s(2) by (fastforce simp: sample_snapshot_def)
qed

text \<open>
  C13. No refresh is stuck: from every reachable state a thread that waits for the mutex can be
  brought to the end of its refresh in at most eight steps, those that take the holder to its
  unlock and its own five; its snapshot is then the last one published and the cached one.
\<close>

theorem refresh_completes:
  assumes "(step ops cd opts)\<^sup>*\<^sup>* (start cached s) m" "m_phase m t = WantsRefresh"
    and "encode cd (build r now opts) = Inr data"
  shows "\<exists>n m' ps. n \<le> 8 \<and> (step ops cd opts ^^ n) m m' \<and> m_phase m' t = Idle \<and> m_mutex m' = None
    \<and> m_published m' = m_published m @ ps @ [build r now opts] \<and> m_cached m' = Some (build r now opts)"
proof -
  have "mutex_inv (start cached s)" by (simp add: mutex_inv_def start_def)
  then have inv: "mutex_inv m" by (rule mutex_inv_reach [OF assms(1)])
  obtain k m1 ps where m1: "k \<le> 3" "(step ops cd opts ^^ k) m m1" "m_mutex m1 = None" "m_phase m1 t = WantsRefresh"
    "m_published m1 = m_published m @ ps"
  proof (cases "m_mutex m")
    case None
    then show ?thesis using that [of 0 m "[]"] assms(2) by simp
  next
    case (Some u)
    then have "critical (m_phase m u)" using inv by (simp add: mutex_inv_def)
    moreover from this have "u \<noteq> t" using assms(2) by auto
    ultimately show ?thesis
      using holder_finishes [of m u ops cd opts] assms(2) that by (fastforce simp: finished_def)
  qed
  have "(step ops cd opts ^^ (k + 5)) m
    (set_phase t Idle (m1\<lparr>m_cached := Some (build r now opts), m_published := m_published m1 @ [build r now opts],
       m_store := fst (st_Save ops (m_store m1) data)\<rparr>))"
    by (rule relpowp_trans [OF m1(2) refresh_proceeds [OF m1(4,3) assms(3)]])
  then show ?thesis
    using m1 by (intro exI [of _ "k + 5"] exI) auto
qed

theorem refresh_completes_witness:
  "\<exists>n m'. n \<le> 8 \<and> (step memory_ops sample_codec sample_options ^^ n)
      (set_phase 3 WantsRefresh (start None new_memory)) m'
    \<and> m_cached m' = Some (build (sample_fetch 5) (sample_time 9) sample_options)"
proof -
  have "step memory_ops sample_codec sample_options (start None new_memory)
      (set_phase 3 WantsRefresh (start None new_memory))"
    by (rule call_refresh) (simp add: start_def)
  then have "(step memory_ops sample_codec sample_options)\<^sup>*\<^sup>* (start None new_memory)
      (set_phase 3 WantsRefresh (start None new_memory))" by auto
  from refresh_completes [OF this _ sample_encodes_at(2), of 3] show ?thesis by fastforce
qed

text \<open>
  C12. The store follows the cache: over the memory store, whenever no refresh is running, the bytes
  stored are the encoding of the snapshot published last, or those it held at first when there is
  none, however the requests were interleaved.
\<close>

theorem store_follows_published:
  assumes "(step memory_ops cd opts)\<^sup>*\<^sup>* (start cached (new_memory\<lparr>mem_data := init\<rparr>)) m" "m_mutex m = None"
  shows "if m_published m = [] then mem_data (m_store m) = init
    else \<exists>bytes. encode cd (last (m_published m)) = Inr bytes \<and> mem_data (m_store m) = Some bytes"
proof -
  have "store_inv cd init (start cached (new_memory\<lparr>mem_data := init\<rparr>))"
    by (simp add: store_inv_def mutex_inv_def start_def stored_for_def)
  then have inv: "store_inv cd init m" by (rule store_inv_reach [OF assms(1)])
  then have "\<not> saved (m_phase m t)" for t
    using saved_critical [of "m_phase m t"] assms(2) by (auto simp: store_inv_def mutex_inv_def)
  with inv show ?thesis by (simp add: store_inv_def stored_for_def)
qed

theorem store_follows_published_witness:
  "mem_data (m_store (set_phase 1 Idle ((start None (new_memory\<lparr>mem_data := Some ''old''\<rparr>))
     \<lparr>m_cached := Some (build (sample_fetch 5) (sample_time 9) sample_options),
      m_published := m_published (start None (new_memory\<lparr>mem_data := Some ''old''\<rparr>))
        @ [build (sample_fetch 5) (sample_time 9) sample_options],
      m_store := fst (st_Save memory_ops (m_store (start None (new_memory\<lparr>mem_data := Some ''old''\<rparr>))) (sample_data (build (sample_fetch 5) (sample_time 9) sample_options)))\<rparr>)))
   = Some (sample_data (build (sample_fetch 5) (sample_time 9) sample_options))"
proof -
  let ?s0 = "start None (new_memory\<lparr>mem_data := Some ''old''\<rparr>)"
  let ?snap = "build (sample_fetch 5) (sample_time 9) sample_options"
  have "(step memory_ops sample_codec sample_options)\<^sup>*\<^sup>* ?s0
    (set_phase 1 Idle (?s0\<lparr>m_cached := Some ?snap, m_published := m_published ?s0 @ [?snap],
       m_store := fst (st_Save memory_ops (m_store ?s0) (sample_data (build (sample_fetch 5) (sample_time 9) sample_options)))\<rparr>))"
    by (rule refresh_runs) (simp_all add: start_def sample_encodes_at)
  from store_follows_published [OF this] show ?thesis by (simp add: start_def sample_encodes_at)
qed

end
