(* ===== verification/FloatNear.thy ===== *)
theory FloatNear
  imports GoTime
begin

text \<open>
  How far the \<open>float64\<close> results of the service are from the real ones: conversions of integers,
  quotients and sums of non-negative values, and the seconds of a duration, which truncate to the
  whole seconds for as long as half a unit in the last place is below a nanosecond.
\<close>

text \<open>Facts about non-negative floats, by their units.\<close>

definition nonneg_float :: "float64 \<Rightarrow> real \<Rightarrow> bool" where
  "nonneg_float x v \<longleftrightarrow> f64_ok x \<and> (\<exists>m e. x = FFin False m e) \<and> real_of_int (f64_units x) = v * 2 ^ 1074"

lemma f64_round_unsigned: "f64_finite (f64_round False p q e) \<Longrightarrow> \<exists>m t. f64_round False p q e = FFin False m t"
  by (auto simp: f64_round_def f64_pack_def Let_def split: if_splits)

lemma units_le_finite:
  assumes "x \<le> 2 ^ 60 * (2 ^ 1074 :: real)"
  shows "x < 2 ^ 2097"
proof -
  have "(2::real) ^ 60 * 2 ^ 1074 < 2 ^ 2097" unfolding power_add [symmetric] by (rule power_strict_increasing) simp_all
  with assms show ?thesis by linarith
qed

lemma f64_round_int:
  assumes "0 \<le> p" "0 < q" "units_of p q e = real_of_int n * 2 ^ 1074" "n < 2 ^ 53"
  shows "nonneg_float (f64_round False p q e) (real_of_int n)"
proof -
  have u: "units_of p q e = real_of_int (n * 2 ^ 1074)" using assms(3) by simp
  have "real_of_int n \<le> 2 ^ 60" using assms(4) by simp
  then have "units_of p q e \<le> 2 ^ 60 * 2 ^ 1074" unfolding u of_int_mult by (simp add: mult_right_mono)
  then have fin: "f64_finite (f64_round False p q e)"
    using assms(1,2) by (intro f64_round_finite units_le_finite)
  have "f64_units (f64_round False p q e) = n * 2 ^ 1074"
    using f64_round_exact [OF assms(1,2) u assms(4) fin] by simp
  then show ?thesis
    using f64_round_unsigned [OF fin] f64_ok_round [OF assms(1,2)] unfolding nonneg_float_def
    by (simp only: of_int_mult of_int_power of_int_numeral)
qed

lemma nonneg_float_of_int:
  assumes "0 \<le> n" "n < 2 ^ 53"
  shows "nonneg_float (f64_of_int n) (real_of_int n)"
proof -
  have "f64_of_int n = f64_round False n 1 1074" using assms by (simp add: f64_of_int_def)
  moreover have "units_of n 1 1074 = real_of_int n * 2 ^ 1074" by (simp add: units_of_def)
  ultimately show ?thesis using f64_round_int [OF assms(1)] assms(2) by simp
qed

text \<open>A rounded ratio \<open>v\<close>, in units, is off by at most the 53rd part of a bound of at least one.\<close>

lemma f64_round_near:
  assumes "0 \<le> p" "0 < q" "units_of p q e = v * 2 ^ 1074" "v \<le> b" "1 \<le> b" "b \<le> 2 ^ 60"
  shows "\<exists>r. nonneg_float (f64_round False p q e) r \<and> \<bar>r - v\<bar> \<le> b / 2 ^ 53"
proof -
  define U where "U = (2::real) ^ 1074"
  have U: "2 ^ 53 \<le> U" unfolding U_def by (rule power_increasing) simp_all
  then have U0: "0 < U" by (rule less_le_trans [rotated]) simp
  have x: "units_of p q e = v * U" unfolding U_def by (rule assms(3))
  have "v * U \<le> 2 ^ 60 * U" using assms(4,6) U0 by (intro mult_right_mono) auto
  then have fin: "f64_finite (f64_round False p q e)"
    using assms(1,2) x unfolding U_def by (intro f64_round_finite units_le_finite) simp_all
  define r where "r = real_of_int (f64_units (f64_round False p q e)) / U"
  have "\<bar>r * U - v * U\<bar> \<le> max (v * U / 2 ^ 53) (1 / 2)"
    using f64_round_err [OF assms(1,2) fin] U0 unfolding x by (simp add: r_def)
  also have "\<dots> \<le> b / 2 ^ 53 * U"
  proof -
    have "v * U \<le> b * U" using assms(4) U0 by (intro mult_right_mono) auto
    moreover have "1 * U \<le> b * U" using assms(5) U0 by (intro mult_right_mono) auto
    ultimately have "v * U / 2 ^ 53 \<le> b / 2 ^ 53 * U" "2 ^ 53 \<le> b * U" using U by (simp_all only: mult_1) simp_all
    then have "v * U / 2 ^ 53 \<le> b / 2 ^ 53 * U" "1 / 2 \<le> b / 2 ^ 53 * U" by simp_all
    then show ?thesis by (rule max.boundedI)
  qed
  finally have "\<bar>r - v\<bar> * U \<le> b / 2 ^ 53 * U"
    using U0 by (simp flip: left_diff_distrib add: abs_mult)
  then have "\<bar>r - v\<bar> \<le> b / 2 ^ 53" using U0 by (rule mult_right_le_imp_le)
  moreover have "f64_ok (f64_round False p q e)" using assms(1,2) by (rule f64_ok_round)
  moreover have "real_of_int (f64_units (f64_round False p q e)) = r * 2 ^ 1074"
    using U0 by (simp add: r_def U_def)
  ultimately show ?thesis
    using f64_round_unsigned [OF fin] unfolding nonneg_float_def by blast
qed


lemma f64_div_near:
  assumes "nonneg_float x a" "nonneg_float y c" "0 < c" "a \<le> c"
  shows "\<exists>r. nonneg_float (f64_div x y) r \<and> \<bar>r - a / c\<bar> \<le> 1 / 2 ^ 53"
proof -
  define U where "U = (2::real) ^ 1074"
  have U0: "0 < U" by (simp add: U_def)
  obtain m e where x: "x = FFin False m e" "0 \<le> m" "0 \<le> e" "real_of_int m * 2 ^ nat e = a * U"
    using assms(1) by (auto simp: nonneg_float_def f64_ok_def U_def)
  obtain m' e' where y: "y = FFin False m' e'" "0 \<le> m'" "0 \<le> e'" "real_of_int m' * 2 ^ nat e' = c * U"
    using assms(2) by (auto simp: nonneg_float_def f64_ok_def U_def)
  have m': "0 < m'"
  proof -
    have "0 < real_of_int m' * 2 ^ nat e'" using y(4) assms(3) U0 by simp
    then show ?thesis by (simp add: zero_less_mult_iff)
  qed
  show ?thesis
  proof (cases "m = 0")
    case True
    then have "a = 0" using x(4) U0 by simp
    moreover have "f64_div x y = FFin False 0 0" using True m' by (simp add: x(1) y(1))
    ultimately show ?thesis
      by (intro exI [of _ 0]) (simp add: nonneg_float_def f64_ok_def)
  next
    case False
    have "units_of m m' (e - e' + 1074) = real_of_int m / real_of_int m' * (2 powi e / 2 powi e' * 2 powi 1074)"
      by (simp add: units_of_def power_int_add power_int_diff)
    also have "\<dots> = (real_of_int m * 2 ^ nat e) / (real_of_int m' * 2 ^ nat e') * U"
      using x(3) y(3) by (simp add: power_int_def U_def)
    also have "\<dots> = a / c * U" unfolding x(4) y(4) using U0 by simp
    finally have v: "units_of m m' (e - e' + 1074) = a / c * 2 ^ 1074" by (simp add: U_def)
    have "f64_div x y = f64_round False m m' (e - e' + 1074)" using False m' by (simp add: x(1) y(1))
    moreover have "a / c \<le> 1" using assms(3,4) by simp
    ultimately show ?thesis
      using f64_round_near [OF x(2) m' v, of 1] by simp
  qed
qed

lemma f64_add_ratio:
  assumes "nonneg_float x a" "nonneg_float y c"
  shows "\<exists>p l. 0 \<le> p \<and> f64_add x y = f64_round False p 1 l \<and> units_of p 1 l = (a + c) * 2 ^ 1074"
proof -
  define U where "U = (2::real) ^ 1074"
  obtain m e where x: "x = FFin False m e" "0 \<le> m" "0 \<le> e" "real_of_int (f64_units x) = a * U"
    using assms(1) by (auto simp: nonneg_float_def f64_ok_def U_def)
  obtain m' e' where y: "y = FFin False m' e'" "0 \<le> m'" "0 \<le> e'" "real_of_int (f64_units y) = c * U"
    using assms(2) by (auto simp: nonneg_float_def f64_ok_def U_def)
  let ?l = "min e e'"
  let ?s = "signed_mant False m * 2 ^ nat (e - ?l) + signed_mant False m' * 2 ^ nat (e' - ?l)"
  have l: "0 \<le> ?l" "?l \<le> e" "?l \<le> e'" using x(3) y(3) by auto
  have "?s * 2 ^ nat ?l = f64_units x + f64_units y"
    using f64_align [OF l(1,2), of False m] f64_align [OF l(1,3), of False m'] x(1) y(1) by (simp only: distrib_right)
  then have "real_of_int (?s * 2 ^ nat ?l) = (a + c) * U" using x(4) y(4) by (simp only: of_int_add distrib_right)
  then have sum: "real_of_int ?s * 2 ^ nat ?l = (a + c) * U" by simp
  have s0: "0 \<le> ?s" using x(2) y(2) by (simp add: signed_mant_def)
  have "f64_add x y = f64_round False ?s 1 ?l"
    using s0 by (cases "?s = 0") (simp_all add: x(1) y(1) Let_def f64_round_def)
  moreover have "units_of ?s 1 ?l = (a + c) * 2 ^ 1074"
    using sum l(1) by (simp add: units_of_def power_int_def U_def)
  ultimately show ?thesis using s0 by blast
qed

lemma f64_add_near:
  assumes "nonneg_float x a" "nonneg_float y c" "a + c \<le> b" "1 \<le> b" "b \<le> 2 ^ 60"
  shows "\<exists>r. nonneg_float (f64_add x y) r \<and> \<bar>r - (a + c)\<bar> \<le> b / 2 ^ 53"
  using f64_add_ratio [OF assms(1,2)] f64_round_near [OF _ _ _ assms(3-5)] by fastforce

lemma f64_add_exact:
  assumes "nonneg_float x a" "nonneg_float y c" "a + c = real_of_int n" "n < 2 ^ 53"
  shows "nonneg_float (f64_add x y) (a + c)"
  using f64_add_ratio [OF assms(1,2)] f64_round_int [where n = n] assms(3,4) by fastforce

lemma f64_to_int64_floor:
  assumes "nonneg_float x v" "v < 2 ^ 62"
  shows "f64_to_int64 x = Some \<lfloor>v\<rfloor>"
proof -
  obtain m e where x: "x = FFin False m e" "0 \<le> m" "0 \<le> e" "real_of_int m * 2 ^ nat e = v * 2 ^ 1074"
    using assms(1) by (auto simp: nonneg_float_def f64_ok_def)
  have v: "v = real_of_int (m * 2 ^ nat (e - 1074)) / real_of_int (2 ^ nat (1074 - e))"
  proof (cases "e \<le> 1074")
    case True
    then have "nat (1074 - e) + nat e = 1074" using x(3) by simp
    then have "(2::real) ^ 1074 = 2 ^ nat (1074 - e) * 2 ^ nat e" by (metis power_add)
    then have "real_of_int m * 2 ^ nat e = v * 2 ^ nat (1074 - e) * 2 ^ nat e" using x(4) by simp
    then show ?thesis using True by (simp add: field_simps)
  next
    case False
    then have "nat (e - 1074) + 1074 = nat e" by simp
    then have "(2::real) ^ nat e = 2 ^ nat (e - 1074) * 2 ^ 1074" by (metis power_add)
    then have "real_of_int m * 2 ^ nat (e - 1074) * 2 ^ 1074 = v * 2 ^ 1074" using x(4) by simp
    then show ?thesis using False by simp
  qed
  have "\<lfloor>v\<rfloor> = m * 2 ^ nat (e - 1074) div 2 ^ nat (1074 - e)"
    unfolding v by (rule floor_divide_of_int_eq)
  moreover have "0 \<le> v" unfolding v using x(2) by simp
  then have "0 \<le> \<lfloor>v\<rfloor>" by simp
  moreover have "\<lfloor>v\<rfloor> < 2 ^ 63" using assms(2) by (simp add: floor_less_iff)
  ultimately show ?thesis by (simp add: x(1) Let_def)
qed

section \<open>The seconds of a duration\<close>

lemma seconds_truncate:
  assumes "0 \<le> d" "d < 2 ^ 23 * Second"
  shows "f64_to_int64 (seconds d) = Some (d div Second)"
proof -
  let ?S = "d div Second" and ?n = "d mod Second"
  have parts: "quot0 d Second = ?S" "rem0 d Second = ?n" using assms(1) by (simp_all add: quot0_def rem0_def)
  have S: "0 \<le> ?S" "?S \<le> 2 ^ 23 - 1"
    using assms by (simp_all add: Second_def pos_imp_zdiv_nonneg_iff)
  have n: "0 \<le> ?n" "?n \<le> 10 ^ 9 - 1" by (simp_all add: Second_def)
  let ?x = "f64_of_int ?S" and ?y = "f64_div (f64_of_int ?n) (f64_of_int Second)"
  have x: "nonneg_float ?x (real_of_int ?S)" using S by (intro nonneg_float_of_int) auto
  have fn: "nonneg_float (f64_of_int ?n) (real_of_int ?n)" using n by (intro nonneg_float_of_int) auto
  have fs: "nonneg_float (f64_of_int Second) (real_of_int Second)" by (rule nonneg_float_of_int) (simp_all add: Second_def)
  have le: "real_of_int ?n \<le> real_of_int Second" using n by (simp add: Second_def)
  have pos: "0 < real_of_int Second" by (simp add: Second_def)
  obtain r1 where y: "nonneg_float ?y r1" "\<bar>r1 - real_of_int ?n / real_of_int Second\<bar> \<le> 1 / 2 ^ 53"
    using f64_div_near [OF fn fs pos le] by blast
  have sec: "seconds d = f64_add ?x ?y" by (simp add: seconds_def parts)
  have "\<exists>r. nonneg_float (seconds d) r \<and> \<lfloor>r\<rfloor> = ?S"
  proof (cases "?n = 0")
    case True
    have zero: "f64_of_int 0 = FFin False 0 0" by (simp add: f64_of_int_def f64_round_def)
    obtain m e where s: "f64_of_int Second = FFin False m e" using fs by (auto simp: nonneg_float_def)
    have "m \<noteq> 0" using fs pos by (auto simp: nonneg_float_def s)
    then have "?y = FFin False 0 0" by (simp only: True zero s) simp
    then have y0: "nonneg_float ?y 0" by (simp add: nonneg_float_def f64_ok_def)
    have "nonneg_float (f64_add ?x ?y) (real_of_int ?S + 0)"
      using S by (intro f64_add_exact [OF x y0, of ?S]) auto
    then show ?thesis unfolding sec by (intro exI [of _ "real_of_int ?S"]) simp
  next
    case False
    then have n1: "1 \<le> ?n" using n by linarith
    define q where "q = real_of_int ?n / real_of_int Second"
    have q: "1 / 10 ^ 9 \<le> q" "q \<le> 1 - 1 / 10 ^ 9"
      using n1 n(2) by (simp_all add: q_def Second_def field_simps)
    have SR: "0 \<le> real_of_int ?S" "real_of_int ?S \<le> 2 ^ 23 - 1" using S by simp_all
    have r1: "q - 1 / 2 ^ 53 \<le> r1" "r1 \<le> q + 1 / 2 ^ 53" using y(2) unfolding q_def by linarith+
    have le: "real_of_int ?S + r1 \<le> 2 ^ 23" using SR(2) r1(2) q(2) by simp
    obtain r where r: "nonneg_float (f64_add ?x ?y) r" "\<bar>r - (real_of_int ?S + r1)\<bar> \<le> 2 ^ 23 / 2 ^ 53"
      using f64_add_near [OF x y(1) le] by auto
    have half_ulp: "(2::real) ^ 23 / 2 ^ 53 + 1 / 2 ^ 53 < 1 / 10 ^ 9" by simp
    have "real_of_int ?S \<le> r" using r(2) r1(1) q(1) half_ulp by linarith
    moreover have "r < real_of_int ?S + 1" using r(2) r1(2) q(2) half_ulp by linarith
    ultimately have "\<lfloor>r\<rfloor> = ?S" by (simp add: floor_eq_iff)
    then show ?thesis using r(1) unfolding sec by blast
  qed
  then obtain r where r: "nonneg_float (seconds d) r" "\<lfloor>r\<rfloor> = ?S" by blast
  have "r < real_of_int ?S + 1" using r(2) by (simp add: floor_eq_iff)
  then have "r < 2 ^ 62" using S by simp
  then show ?thesis using f64_to_int64_floor [OF r(1)] r(2) by simp
qed

end
