(* ===== verification/HttpApi.thy ===== *)
theory HttpApi
  imports Auth Config Interleaving FloatNear
begin

text \<open>
  \<open>internal/httpapi\<close>, \<open>server.go\<close> and \<open>handlers.go\<close>: the routes, the guard in front of four of them
  and the handlers. A handler maps the refresher and what it observes of its surroundings, the
  clock and the result of a fetch, to the new refresher and the response. The body of a
  response is the text of a JSON value; it is empty when the encoder refuses the value, since the
  status has been sent by then.
\<close>

section \<open>Responses\<close>

record http_response =
  hp_Status :: int
  hp_Header :: "(string \<times> string) list"
  hp_Body :: string

text \<open>\<open>writeJSON\<close> on a response whose headers so far are given; the encoder writes all or nothing.\<close>

definition write_json :: "(string \<times> string) list \<Rightarrow> int \<Rightarrow> json \<Rightarrow> http_response" where
  "write_json header status body =
     \<lparr>hp_Status = status,
      hp_Header = header @ [(''Content-Type'', ''application/json; charset=utf-8'')],
      hp_Body = (case json_marshal body of Inl err \<Rightarrow> [] | Inr v \<Rightarrow> json_print v @ [chr 10])\<rparr>"

definition write_error :: "(string \<times> string) list \<Rightarrow> int \<Rightarrow> string \<Rightarrow> http_response" where
  "write_error header status message = write_json header status (JObj [(''error'', JStr message)])"

definition no_store :: "(string \<times> string) list" where
  "no_store = [(''Cache-Control'', ''no-store'')]"

section \<open>The server\<close>

text \<open>
  \<open>Server\<close>, with what its refresher was built from. \<open>srv_Mux\<close> is the answer of the router of
  \<open>net/http\<close> to a request that matches no route: not found, method not allowed or a redirect to
  the clean path.
\<close>

record 's server =
  srv_Ops :: "'s store_ops"
  srv_Codec :: codec
  srv_Options :: options
  srv_Sha :: "string \<Rightarrow> string"
  srv_Auth :: authenticator
  srv_StaleAfter :: int
  srv_Mux :: "http_request \<Rightarrow> http_response"

definition new_server ::
  "config \<Rightarrow> 's store_ops \<Rightarrow> codec \<Rightarrow> options \<Rightarrow> (string \<Rightarrow> string) \<Rightarrow> (http_request \<Rightarrow> http_response) \<Rightarrow> 's server" where
  "new_server cfg ops cd opts sha mux =
     \<lparr>srv_Ops = ops, srv_Codec = cd, srv_Options = opts, srv_Sha = sha,
      srv_Auth = new_authenticator sha (cfg_APITokens cfg),
      srv_StaleAfter = cfg_StaleAfter cfg, srv_Mux = mux\<rparr>"

text \<open>What a request observes: the clocks, the fetch it would make.\<close>

record surroundings =
  in_Started :: gotime
  in_Now :: gotime
  in_Ended :: gotime
  in_Fetched :: "goerr + fetch_result"
  in_FetchedAt :: gotime

record meta =
  meta_FetchedAt :: gotime
  meta_AgeSeconds :: int
  meta_Stale :: bool
  meta_SourceDurationMS :: int

text \<open>\<open>int64\<close> of a float truncates; the age of a snapshot is always in range.\<close>

definition int64_of :: "float64 \<Rightarrow> int" where
  "int64_of x = (case f64_to_int64 x of Some n \<Rightarrow> n | None \<Rightarrow> int64_min)"

definition meta_for :: "'s server \<Rightarrow> gotime \<Rightarrow> snapshot \<Rightarrow> meta" where
  "meta_for srv now snap =
     \<lparr>meta_FetchedAt = snap_FetchedAt snap,
      meta_AgeSeconds = int64_of (seconds (age snap now)),
      meta_Stale = stale snap now (srv_StaleAfter srv),
      meta_SourceDurationMS = snap_SourceDurationMS snap\<rparr>"

definition json_meta_fields :: "meta \<Rightarrow> (string \<times> json) list" where
  "json_meta_fields m =
     [(''fetched_at'', json_time (meta_FetchedAt m)), (''age_seconds'', JInt (meta_AgeSeconds m)),
      (''stale'', JBool (meta_Stale m)), (''source_duration_ms'', JInt (meta_SourceDurationMS m))]"

section \<open>The handlers\<close>

text \<open>The \<open>map[string]any\<close> bodies are written with their keys sorted.\<close>

definition handle_health ::
  "'s server \<Rightarrow> surroundings \<Rightarrow> http_request \<Rightarrow> 's refresher \<Rightarrow> 's refresher \<times> http_response" where
  "handle_health srv w req r =
     (case current (srv_Ops srv) (srv_Codec srv) r of
        (r', Inl err) \<Rightarrow>
          if is_not_found err then
            (r', write_json [] 200 (JObj [(''snapshot'', JStr ''missing''), (''status'', JStr ''ok'')]))
          else
            (r', write_json [] 503 (JObj [(''snapshot'', JStr ''unavailable''), (''status'', JStr ''error'')]))
      | (r', Inr snap) \<Rightarrow>
          let m = meta_for srv (in_Now w) snap
          in (r', write_json [] 200 (JObj
               [(''age_seconds'', JInt (meta_AgeSeconds m)), (''fetched_at'', json_time (meta_FetchedAt m)),
                (''snapshot'', JStr ''present''), (''stale'', JBool (meta_Stale m)), (''status'', JStr ''ok'')])))"

text \<open>\<open>snapshotOr503\<close>: the snapshot, or the response that says there is none.\<close>

definition snapshot_or_503 :: "'s server \<Rightarrow> 's refresher \<Rightarrow> 's refresher \<times> (http_response + snapshot)" where
  "snapshot_or_503 srv r =
     (case current (srv_Ops srv) (srv_Codec srv) r of
        (r', Inl err) \<Rightarrow>
          if is_not_found err then
            (r', Inl (write_error [(''Retry-After'', ''60'')] 503
               ''no snapshot yet; wait for the scheduled refresh or POST /v1/refresh''))
          else (r', Inl (write_error [] 500 ''reading the stored snapshot failed''))
      | (r', Inr snap) \<Rightarrow> (r', Inr snap))"

definition handle_summary ::
  "'s server \<Rightarrow> surroundings \<Rightarrow> http_request \<Rightarrow> 's refresher \<Rightarrow> 's refresher \<times> http_response" where
  "handle_summary srv w req r =
     (case snapshot_or_503 srv r of
        (r', Inl resp) \<Rightarrow> (r', resp)
      | (r', Inr snap) \<Rightarrow>
          (r', write_json [] 200 (JObj
             (json_meta_fields (meta_for srv (in_Now w) snap) @ json_summary_fields (snap_Summary snap)))))"

definition handle_sponsors ::
  "'s server \<Rightarrow> surroundings \<Rightarrow> http_request \<Rightarrow> 's refresher \<Rightarrow> 's refresher \<times> http_response" where
  "handle_sponsors srv w req r =
     (case snapshot_or_503 srv r of
        (r', Inl resp) \<Rightarrow> (r', resp)
      | (r', Inr snap) \<Rightarrow>
          let sponsors = (if snap_Sponsors snap = None then Some [] else snap_Sponsors snap)
          in (r', write_json no_store 200 (JObj
               (json_meta_fields (meta_for srv (in_Now w) snap) @ [(''sponsors'', json_slice json_sponsor sponsors)]))))"

definition handle_orders ::
  "'s server \<Rightarrow> surroundings \<Rightarrow> http_request \<Rightarrow> 's refresher \<Rightarrow> 's refresher \<times> http_response" where
  "handle_orders srv w req r =
     (case snapshot_or_503 srv r of
        (r', Inl resp) \<Rightarrow> (r', resp)
      | (r', Inr snap) \<Rightarrow>
          (r', write_json no_store 200 (JObj
             (json_meta_fields (meta_for srv (in_Now w) snap)
              @ [(''orders'', json_orders_response (snap_Orders snap))]))))"

definition handle_refresh ::
  "'s server \<Rightarrow> surroundings \<Rightarrow> http_request \<Rightarrow> 's refresher \<Rightarrow> 's refresher \<times> http_response" where
  "handle_refresh srv w req r =
     (case refresh (srv_Ops srv) (srv_Codec srv) (srv_Options srv) (in_Fetched w) (in_FetchedAt w) r of
        (r', snap, Some err) \<Rightarrow>
          if as_upstream err \<noteq> None then
            (r', write_error [] 502 ''ticketbutler rejected the request; check TICKETBUTLER_TOKEN'')
          else
            (case snap of
               Some s \<Rightarrow>
                 (r', write_json [] 207 (JObj
                    [(''counts'', json_counts (sum_Counts (snap_Summary s))), (''error'', JStr (err_text err)),
                     (''warning'', JStr ''refreshed but not stored; the snapshot will be lost when this instance stops'')]))
             | None \<Rightarrow>
                 (r', write_error [] 502 (''refreshing from ticketbutler failed: '' @ err_text err)))
      | (r', Some s, None) \<Rightarrow>
          (r', write_json [] 200 (JObj
             [(''counts'', json_counts (sum_Counts (snap_Summary s))),
              (''fetched_at'', json_time (snap_FetchedAt s)),
              (''orders_by_state'', json_map JInt (sum_OrdersByState (snap_Summary s))),
              (''source_duration_ms'', JInt (snap_SourceDurationMS s))]))
      | (r', None, None) \<Rightarrow> (r', write_error [] 500 []))"

text \<open>A nil snapshot without an error, which \<open>Refresh\<close> never returns, would be a nil dereference.\<close>

lemma refresh_snapshot_or_error:
  "fst (snd (refresh ops cd opts fetched now r)) = None \<Longrightarrow> snd (snd (refresh ops cd opts fetched now r)) \<noteq> None"
  by (auto simp: refresh_def Let_def split: sum.splits option.splits prod.splits)

section \<open>The guard and the routes\<close>

type_synonym 's handler =
  "'s server \<Rightarrow> surroundings \<Rightarrow> http_request \<Rightarrow> 's refresher \<Rightarrow> 's refresher \<times> http_response"

definition require_token :: "'s handler \<Rightarrow> 's handler" where
  "require_token next_handler srv w req r =
     (if \<not> allows (srv_Sha srv) (srv_Auth srv) req then
        (r, write_error [(''WWW-Authenticate'', ''Bearer realm=\"ticketbutler-proxy\"'')] 401
              ''a valid bearer token is required'')
      else next_handler srv w req r)"

datatype route = RHealth | RSummary | RSponsors | ROrders | RRefresh

text \<open>
  \<open>ServeMux\<close> matches the segments of the path as it came, each unescaped on its own; a segment that
  does not unescape stands for itself. A pattern with GET also matches HEAD.
\<close>

fun unescape :: "string \<Rightarrow> string option" where
  "unescape [] = Some []"
| "unescape (c # s) =
     (if c = CHR ''%'' then
        (case s of
           a # b # t \<Rightarrow>
             (case (hex_val a, hex_val b) of
                (Some x, Some y) \<Rightarrow> map_option ((#) (chr (nat (16 * x + y)))) (unescape t)
              | _ \<Rightarrow> None)
         | _ \<Rightarrow> None)
      else map_option ((#) c) (unescape s))"

definition path_unescape :: "string \<Rightarrow> string" where
  "path_unescape s = (case unescape s of Some u \<Rightarrow> u | None \<Rightarrow> s)"

definition segments :: "string \<Rightarrow> string list" where
  "segments path = map path_unescape (split_on path ''/'')"

definition route_of :: "http_request \<Rightarrow> route option" where
  "route_of req =
     (let get = (hq_Method req = ''GET'' \<or> hq_Method req = ''HEAD'');
          p = segments (hq_EscapedPath req)
      in if get \<and> p = [[], ''healthz''] then Some RHealth
         else if get \<and> p = [[], ''v1'', ''summary''] then Some RSummary
         else if get \<and> p = [[], ''v1'', ''sponsors''] then Some RSponsors
         else if get \<and> p = [[], ''v1'', ''orders''] then Some ROrders
         else if hq_Method req = ''POST'' \<and> p = [[], ''v1'', ''refresh''] then Some RRefresh
         else None)"

lemma segments_plain [simp]:
  "segments ''/healthz'' = [[], ''healthz'']" "segments ''/v1/summary'' = [[], ''v1'', ''summary'']"
  "segments ''/v1/sponsors'' = [[], ''v1'', ''sponsors'']" "segments ''/v1/orders'' = [[], ''v1'', ''orders'']"
  "segments ''/v1/refresh'' = [[], ''v1'', ''refresh'']"
  by code_simp+

text \<open>An escaped letter is the letter, an escaped slash does not separate.\<close>

lemma segments_escaped:
  "segments ''/v1/s%75mmary'' = [[], ''v1'', ''summary'']" "segments ''/v1%2Fsummary'' = [[], ''v1/summary'']"
  "segments ''/v1/summary%'' = [[], ''v1'', ''summary%'']"
  by code_simp+

definition mux :: "'s handler" where
  "mux srv w req r =
     (case route_of req of
        Some RHealth \<Rightarrow> handle_health srv w req r
      | Some RSummary \<Rightarrow> require_token handle_summary srv w req r
      | Some RSponsors \<Rightarrow> require_token handle_sponsors srv w req r
      | Some ROrders \<Rightarrow> require_token handle_orders srv w req r
      | Some RRefresh \<Rightarrow> require_token handle_refresh srv w req r
      | None \<Rightarrow> (r, srv_Mux srv req))"

text \<open>
  \<open>statusRecorder\<close>: the writer a handler writes to, and the status it was given last, 200 before
  the first. Every handler writes its header once, through \<open>WriteHeader\<close>.
\<close>

record status_recorder =
  rec_Written :: "http_response option"
  rec_Status :: int

definition write_header :: "http_response \<Rightarrow> status_recorder \<Rightarrow> status_recorder" where
  "write_header resp rec =
     (let rec = rec\<lparr>rec_Status := hp_Status resp\<rparr>
      in rec\<lparr>rec_Written := Some resp\<rparr>)"

text \<open>The line logged for a request.\<close>

record log_line =
  log_method :: string
  log_path :: string
  log_status :: int
  log_duration_ms :: int

definition log_requests :: "'s handler \<Rightarrow> 's server \<Rightarrow> surroundings \<Rightarrow> http_request \<Rightarrow> 's refresher \<Rightarrow>
    's refresher \<times> http_response \<times> log_line" where
  "log_requests next_handler srv w req r =
     (case next_handler srv w req r of
        (r', resp) \<Rightarrow>
          let recorder = write_header resp \<lparr>rec_Written = None, rec_Status = 200\<rparr>
          in (r', resp,
              \<lparr>log_method = hq_Method req, log_path = hq_Path req, log_status = rec_Status recorder,
               log_duration_ms = milliseconds (time_sub (in_Ended w) (in_Started w))\<rparr>))"

definition handler :: "'s server \<Rightarrow> surroundings \<Rightarrow> http_request \<Rightarrow> 's refresher \<Rightarrow>
    's refresher \<times> http_response \<times> log_line" where
  "handler = log_requests mux"

section \<open>What a request does to the refresher\<close>

text \<open>The operations of the refresher a request amounts to.\<close>

definition request_ops :: "'s server \<Rightarrow> surroundings \<Rightarrow> http_request \<Rightarrow> operation list" where
  "request_ops srv w req =
     (case route_of req of
        None \<Rightarrow> []
      | Some RHealth \<Rightarrow> [OpCurrent]
      | Some RRefresh \<Rightarrow>
          if allows (srv_Sha srv) (srv_Auth srv) req then [OpRefresh (in_Fetched w) (in_FetchedAt w)] else []
      | Some _ \<Rightarrow> if allows (srv_Sha srv) (srv_Auth srv) req then [OpCurrent] else [])"

lemma snapshot_or_503_state: "fst (snapshot_or_503 srv r) = fst (current (srv_Ops srv) (srv_Codec srv) r)"
  by (auto simp: snapshot_or_503_def split: prod.split sum.split)

lemma fst_snapshot_handlers:
  "fst (handle_summary srv w req r) = fst (current (srv_Ops srv) (srv_Codec srv) r)"
  "fst (handle_sponsors srv w req r) = fst (current (srv_Ops srv) (srv_Codec srv) r)"
  "fst (handle_orders srv w req r) = fst (current (srv_Ops srv) (srv_Codec srv) r)"
  "fst (handle_health srv w req r) = fst (current (srv_Ops srv) (srv_Codec srv) r)"
  using snapshot_or_503_state [of srv r]
  by (auto simp: handle_summary_def handle_sponsors_def handle_orders_def handle_health_def Let_def
      split: prod.splits sum.splits)

lemma fst_handle_refresh:
  "fst (handle_refresh srv w req r) =
     fst (refresh (srv_Ops srv) (srv_Codec srv) (srv_Options srv) (in_Fetched w) (in_FetchedAt w) r)"
  by (auto simp: handle_refresh_def split: prod.split option.split)

lemma handler_state: "fst (handler srv w req r) = fst (mux srv w req r)"
  by (simp add: handler_def log_requests_def Let_def split: prod.split)

lemma handler_response: "fst (snd (handler srv w req r)) = snd (mux srv w req r)"
  by (simp add: handler_def log_requests_def Let_def split: prod.split)

lemma handler_ops:
  "fst (handler srv w req r) =
     fold (perform (srv_Ops srv) (srv_Codec srv) (srv_Options srv)) (request_ops srv w req) r"
  by (simp add: handler_state mux_def request_ops_def require_token_def fst_snapshot_handlers fst_handle_refresh
      split: option.split route.split)

text \<open>A sequence of requests, each with its own surroundings.\<close>

definition serve_all :: "'s server \<Rightarrow> (surroundings \<times> http_request) list \<Rightarrow> 's refresher \<Rightarrow> 's refresher" where
  "serve_all srv reqs r = fold (\<lambda>(w, req) r. fst (handler srv w req r)) reqs r"

definition all_ops :: "'s server \<Rightarrow> (surroundings \<times> http_request) list \<Rightarrow> operation list" where
  "all_ops srv reqs = concat (map (\<lambda>(w, req). request_ops srv w req) reqs)"

lemma serve_all_ops:
  "serve_all srv reqs r = fold (perform (srv_Ops srv) (srv_Codec srv) (srv_Options srv)) (all_ops srv reqs) r"
  by (induction reqs arbitrary: r) (auto simp: serve_all_def all_ops_def handler_ops)

lemma request_ops_no_restart: "list_all (\<lambda>a. a \<noteq> OpRestart) (request_ops srv w req)"
  by (simp add: request_ops_def split: option.split route.split)

lemma all_ops_no_restart: "list_all (\<lambda>a. a \<noteq> OpRestart) (all_ops srv reqs)"
  using request_ops_no_restart [of srv] by (induction reqs) (auto simp: all_ops_def)

text \<open>Requests served one after another are a run of the machine of \<open>Interleaving.thy\<close>.\<close>

lemma performs_run:
  "list_all (\<lambda>a. a \<noteq> OpRestart) as \<Longrightarrow>
     \<exists>qs. (step ops cd opts)\<^sup>*\<^sup>* (at_rest r ps) (at_rest (fold (perform ops cd opts) as r) (ps @ qs))"
proof (induction as arbitrary: r ps)
  case Nil
  then show ?case by (intro exI [of _ "[]"]) simp
next
  case (Cons a as)
  obtain ps' where first: "(step ops cd opts)\<^sup>*\<^sup>* (at_rest r ps) (at_rest (perform ops cd opts a r) (ps @ ps'))"
  proof (cases a)
    case (OpRefresh fetched now)
    then show ?thesis using refresh_run [of ops cd opts r ps fetched now] that by simp
  next
    case OpCurrent
    then show ?thesis using current_run [of ops cd opts r ps] that [of "[]"] by simp
  qed (use Cons.prems in simp)
  obtain qs where "(step ops cd opts)\<^sup>*\<^sup>* (at_rest (perform ops cd opts a r) (ps @ ps'))
      (at_rest (fold (perform ops cd opts) as (perform ops cd opts a r)) ((ps @ ps') @ qs))"
    using Cons.IH Cons.prems by fastforce
  with first show ?case by (intro exI [of _ "ps' @ qs"]) simp
qed

lemma serve_all_run:
  "\<exists>ps. (step (srv_Ops srv) (srv_Codec srv) (srv_Options srv))\<^sup>*\<^sup>* (start (rf_cached r) (rf_store r)) (at_rest (serve_all srv reqs r) ps)"
  using performs_run [OF all_ops_no_restart, of "srv_Ops srv" "srv_Codec srv" "srv_Options srv" r "[]" srv reqs]
  by (simp add: serve_all_ops) (simp add: at_rest_def start_def)

section \<open>Responses of the data routes\<close>

lemma performs_idle:
  assumes "rf_cached r = None" "st_Load ops (rf_store r) = Inl err"
  shows "list_all (\<lambda>a. publishes cd opts a = None) as \<Longrightarrow> list_all (\<lambda>a. a \<noteq> OpRestart) as \<Longrightarrow>
    fold (perform ops cd opts) as r = r"
proof (induction as)
  case (Cons a as)
  have "current ops cd r = (r, Inl err)" using assms by (simp add: current_def)
  then have "perform ops cd opts a r = r"
    using Cons.prems refresh_None [of cd opts _ _ ops r] by (cases a) simp_all
  with Cons show ?case by simp
qed simp

lemma current_of_cached:
  "rf_cached r = Some snap \<Longrightarrow> snapshot_or_503 srv r = (r, Inr snap)"
  by (simp add: snapshot_or_503_def current_cached)

lemma json_ok_meta: "time_writable (t_wall (meta_FetchedAt m)) \<Longrightarrow> list_all (\<lambda>(k, v). json_ok v) (json_meta_fields m)"
  by (simp add: json_meta_fields_def json_time_def)

lemma write_json_ok: "json_ok body \<Longrightarrow>
    write_json header status body =
      \<lparr>hp_Status = status, hp_Header = header @ [(''Content-Type'', ''application/json; charset=utf-8'')],
       hp_Body = json_print body @ [chr 10]\<rparr>"
  using json_bad_None(1) [of body] by (simp add: write_json_def json_marshal_def)

lemma json_ok_fields: "list_all (\<lambda>(k, v). json_ok v) kvs \<Longrightarrow> json_ok (JObj kvs)"
  by simp

text \<open>The header of every response ends in the content type; what precedes it marks the response.\<close>

lemma write_json_header [simp]:
  "hp_Header (write_json header status body) = header @ [(''Content-Type'', ''application/json; charset=utf-8'')]"
  "hp_Status (write_json header status body) = status"
  by (simp_all add: write_json_def)

lemma write_error_simps [simp]:
  "hp_Header (write_error header status msg) = header @ [(''Content-Type'', ''application/json; charset=utf-8'')]"
  "hp_Status (write_error header status msg) = status"
  "hp_Body (write_error header status msg) = json_print (JObj [(''error'', JStr msg)]) @ [chr 10]"
  by (simp_all add: write_error_def) (simp add: write_json_ok)

definition unauthorized :: http_response where
  "unauthorized = write_error [(''WWW-Authenticate'', ''Bearer realm=\"ticketbutler-proxy\"'')] 401
     ''a valid bearer token is required''"

lemma require_token_denied:
  "\<not> allows (srv_Sha srv) (srv_Auth srv) req \<Longrightarrow> require_token h srv w req r = (r, unauthorized)"
  by (simp add: require_token_def unauthorized_def)

lemma require_token_allowed:
  "allows (srv_Sha srv) (srv_Auth srv) req \<Longrightarrow> require_token h srv w req r = h srv w req r"
  by (simp add: require_token_def)

text \<open>What a data route adds to the ages of the snapshot it serves.\<close>

definition data_fields :: "snapshot \<Rightarrow> route \<Rightarrow> (string \<times> json) list option" where
  "data_fields snap route =
     (case route of
        RSummary \<Rightarrow> Some (json_summary_fields (snap_Summary snap))
      | RSponsors \<Rightarrow> Some [(''sponsors'', JArr (map json_sponsor (elems (snap_Sponsors snap))))]
      | ROrders \<Rightarrow> Some [(''orders'', json_orders_response (snap_Orders snap))]
      | _ \<Rightarrow> None)"

lemma json_slice_not_nil: "json_slice f (if xs = None then Some [] else xs) = JArr (map f (elems xs))"
  by (cases xs) (simp_all add: json_slice_def)

lemma data_fields_ok:
  "data_fields snap route = Some kvs \<Longrightarrow> json_ok (json_snapshot snap) \<Longrightarrow> list_all (\<lambda>(k, v). json_ok v) kvs"
  by (auto simp: data_fields_def json_snapshot_def json_ok_plain list_all_iff split: route.splits)

text \<open>The fields of a snapshot that was stored and read are printed as before.\<close>

lemma prints_same_fields:
  "list_all2 (\<lambda>(k, v) (k', v'). k = k' \<and> prints_same v v') kvs kvs' \<Longrightarrow> prints_same (JObj (a @ kvs)) (JObj (a @ kvs'))"
  by (intro prints_same_object list_all2_appendI) (auto intro!: list.rel_refl simp: prints_same_refl)

lemma data_fields_reread:
  assumes "snapshot_storable snap" "data_fields snap route = Some kvs"
  shows "\<exists>kvs'. data_fields (snapshot_reread snap) route = Some kvs' \<and> (\<forall>a. prints_same (JObj (a @ kvs')) (JObj (a @ kvs)))"
proof -
  have "prints_same (json_orders_response (orders_reread (snap_Orders snap))) (json_orders_response (snap_Orders snap))"
    using assms(1) by (intro prints_same_orders) (simp_all add: snapshot_storable_def json_snapshot_def)
  then have "prints_same (JObj (a @ [(''orders'', json_orders_response (orders_reread (snap_Orders snap)))]))
      (JObj (a @ [(''orders'', json_orders_response (snap_Orders snap))]))" for a
    by (intro prints_same_fields) simp
  then show ?thesis
    using assms(2) prints_same_refl by (cases route) (auto simp: data_fields_def snapshot_reread_def)
qed

text \<open>The response of a data route to an accepted request.\<close>

lemma data_response:
  assumes "rf_cached r = Some s" "route_of req = Some route" "data_fields s route = Some kvs"
    and "allows (srv_Sha srv) (srv_Auth srv) req"
  shows "fst (snd (handler srv w req r)) =
    write_json (if route = RSummary then [] else no_store) 200 (JObj (json_meta_fields (meta_for srv (in_Now w) s) @ kvs))"
  using assms(2-4)
  by (cases route)
    (auto simp: handler_response mux_def require_token_allowed handle_summary_def handle_sponsors_def
      handle_orders_def current_of_cached [OF assms(1)] data_fields_def json_slice_not_nil Let_def)

lemma write_json_same: "prints_same v v' \<Longrightarrow> write_json header status v = write_json header status v'"
  using json_bad_None(1) [of v] json_bad_None(1) [of v']
  by (cases "json_bad v"; cases "json_bad v'") (simp_all add: prints_same_def write_json_def json_marshal_def)

text \<open>
  Two refreshers that differ at most in this: one holds a snapshot, the other what was stored of it
  and read. Every request keeps them so, and they answer it alike.
\<close>

definition twins :: "snapshot \<Rightarrow> 's refresher \<Rightarrow> 's refresher \<Rightarrow> bool" where
  "twins snap r r' \<longleftrightarrow> r' = r \<or> rf_cached r = Some snap \<and> r' = r\<lparr>rf_cached := Some (snapshot_reread snap)\<rparr>"

lemma twins_perform:
  assumes "a \<noteq> OpRestart" "twins snap r r'"
  shows "twins snap (perform ops cd opts a r) (perform ops cd opts a r')"
proof (cases a)
  case (OpRefresh fetched now)
  then show ?thesis
    using assms(2) by (auto simp: twins_def refresh_def set_cached_def Let_def split: sum.split prod.split option.split)
next
  case OpCurrent
  then show ?thesis using assms(2) by (auto simp: twins_def current_cached)
qed (use assms(1) in simp)

lemma twins_performs:
  "list_all (\<lambda>a. a \<noteq> OpRestart) as \<Longrightarrow> twins snap r r' \<Longrightarrow>
     twins snap (fold (perform ops cd opts) as r) (fold (perform ops cd opts) as r')"
  by (induction as arbitrary: r r') (simp_all add: twins_perform)

lemma twins_meta:
  assumes "t_mono (snap_FetchedAt snap) = None"
  shows "meta_for srv now (snapshot_reread snap) = meta_for srv now snap"
proof -
  have "(snap_FetchedAt snap)\<lparr>t_mono := None\<rparr> = snap_FetchedAt snap" using assms by simp
  then show ?thesis by (simp add: meta_for_def age_def stale_def snapshot_reread_def)
qed

lemma twins_response:
  assumes "snapshot_storable snap" "t_mono (snap_FetchedAt snap) = None" "twins snap r r'"
  shows "snd (handler srv w req r') = snd (handler srv w req r)"
proof (cases "r' = r")
  case False
  then have c: "rf_cached r = Some snap" "rf_cached r' = Some (snapshot_reread snap)"
    and r': "r' = r\<lparr>rf_cached := Some (snapshot_reread snap)\<rparr>"
    using assms(3) by (auto simp: twins_def)
  obtain kvs where kvs: "data_fields (snapshot_reread snap) ROrders = Some kvs"
    "\<And>a. prints_same (JObj (a @ kvs)) (JObj (a @ [(''orders'', json_orders_response (snap_Orders snap))]))"
    using data_fields_reread [OF assms(1), of ROrders] by (auto simp: data_fields_def)
  note cached = current_of_cached [OF c(1)] current_of_cached [OF c(2)] current_cached [OF c(1)] current_cached [OF c(2)]
  have same: "snap_Summary (snapshot_reread snap) = snap_Summary snap" "snap_Sponsors (snapshot_reread snap) = snap_Sponsors snap"
    by (simp_all add: snapshot_reread_def)
  have "snd (handle_health srv w req r') = snd (handle_health srv w req r)"
    "snd (handle_summary srv w req r') = snd (handle_summary srv w req r)"
    "snd (handle_sponsors srv w req r') = snd (handle_sponsors srv w req r)"
    by (simp_all add: handle_health_def handle_summary_def handle_sponsors_def cached twins_meta [OF assms(2)] same Let_def)
  moreover have "snd (handle_orders srv w req r') = snd (handle_orders srv w req r)"
    using kvs(1) write_json_same [OF kvs(2)]
    by (simp add: handle_orders_def cached twins_meta [OF assms(2)] data_fields_def)
  moreover have "snd (handle_refresh srv w req r') = snd (handle_refresh srv w req r)"
    by (auto simp: r' handle_refresh_def refresh_def Let_def split: sum.split prod.split option.split)
  ultimately have "snd (mux srv w req r') = snd (mux srv w req r)"
    by (auto simp: mux_def require_token_def split: option.split route.split)
  then show ?thesis
    by (simp add: handler_def log_requests_def Let_def case_prod_unfold)
qed simp

lemma publishes_ok: "publishes cd opts a = Some s \<Longrightarrow> json_ok (json_snapshot s)"
  using isl_encode [of cd s] by (auto simp: publishes_def split: operation.splits sum.splits if_splits)

lemma last_published_ok:
  "last_published cd opts as s0 = Some s \<Longrightarrow> (\<And>t. s0 = Some t \<Longrightarrow> json_ok (json_snapshot t)) \<Longrightarrow>
     json_ok (json_snapshot s)"
  by (induction as arbitrary: s0) (auto split: option.splits dest: publishes_ok)

section \<open>Witness data\<close>

definition sample_server :: "memory server" where
  "sample_server = new_server (fst (load (sample_env []))) memory_ops sample_codec sample_options
     (\<lambda>s. s) (\<lambda>req. \<lparr>hp_Status = 404, hp_Header = [], hp_Body = []\<rparr>)"

definition sample_request :: "string \<Rightarrow> string \<Rightarrow> string \<Rightarrow> http_request" where
  "sample_request method path key =
     \<lparr>hq_Method = method, hq_Path = path, hq_EscapedPath = path, hq_Header = (\<lambda>h. if h = ''X-Api-Key'' then key else [])\<rparr>"

lemma sample_allowed:
  "allows (srv_Sha sample_server) (srv_Auth sample_server) (sample_request m p ''a-token-of-sufficient-length'')"
proof -
  have "presented_tokens (sample_request m p ''a-token-of-sufficient-length'') = [''a-token-of-sufficient-length'']"
    by (simp add: presented_tokens_def sample_request_def Let_def) code_simp
  moreover have "auth_digests (srv_Auth sample_server) = [''a-token-of-sufficient-length'']" by code_simp
  ultimately show ?thesis by (simp add: allows_iff sample_server_def new_server_def)
qed

definition sample_surroundings :: "goerr + fetch_result \<Rightarrow> surroundings" where
  "sample_surroundings fetched =
     \<lparr>in_Started = sample_time 5, in_Now = sample_time 6, in_Ended = sample_time 7,
      in_Fetched = fetched, in_FetchedAt = sample_time 0\<rparr>"

section \<open>Properties\<close>

text \<open>
  C4. Without a valid token a request learns nothing and changes nothing: apart from the health
  check, its response and the refresher do not depend on any snapshot, on the store, on the clock
  or on the upstream, and on the four data routes it is the 401.
\<close>

theorem unauthorized_reveals_nothing:
  assumes "\<not> allows (srv_Sha srv) (srv_Auth srv) req" "route_of req \<noteq> Some RHealth"
  shows "fst (handler srv w req r) = r
    \<and> fst (snd (handler srv w req r)) = (if route_of req = None then srv_Mux srv req else unauthorized)"
  using assms(2)
  by (simp add: handler_state handler_response mux_def require_token_denied [OF assms(1)]
      split: option.split route.split)

theorem unauthorized_reveals_nothing_witness:
  "fst (snd (handler sample_server (sample_surroundings (Inl ErrDeadline))
      (sample_request ''GET'' ''/v1/orders'' ''wrong'') (memory_refresher (Some (sample_data sample_snapshot))))) = unauthorized"
proof -
  have "\<not> allows (srv_Sha sample_server) (srv_Auth sample_server) (sample_request ''GET'' ''/v1/orders'' ''wrong'')"
    by code_simp
  moreover have r: "route_of (sample_request ''GET'' ''/v1/orders'' ''wrong'') = Some ROrders" by code_simp
  ultimately show ?thesis by (subst unauthorized_reveals_nothing) simp_all
qed

text \<open>
  C23. A token of a loaded configuration works in either header, next to whatever the other one
  carries, and the scheme is compared without case.
\<close>

theorem configured_token_accepted:
  assumes "snd (load ev) = []" "t \<in> set (cfg_APITokens (fst (load ev)))"
    and "hq_Header req ''X-Api-Key'' = t
      \<or> hq_Header req ''Authorization'' = scheme @ '' '' @ t \<and> CHR '' '' \<notin> set scheme \<and> equal_fold scheme ''Bearer''"
  shows "allows sha (new_authenticator sha (cfg_APITokens (fst (load ev)))) req"
proof -
  obtain c where c: "load_fields ev = Inr c" "fst (load ev) = c"
    using assms(1) by (cases "load_fields ev") (auto simp: load_def)
  have "t \<in> set (split_list (ev ''API_TOKENS''))"
    using assms(2) by (simp add: c(2) load_fields_base(8) [OF c(1)])
  then have t: "t \<noteq> []" "trim_space t = t" by (auto dest: split_list_entry)
  have "t \<in> set (presented_tokens req)"
    using assms(3)
  proof
    assume "hq_Header req ''X-Api-Key'' = t"
    then show ?thesis using t by (intro api_key_presented) simp_all
  next
    assume "hq_Header req ''Authorization'' = scheme @ '' '' @ t \<and> CHR '' '' \<notin> set scheme \<and> equal_fold scheme ''Bearer''"
    then show ?thesis using t by (intro bearer_presented [of req scheme t]) simp_all
  qed
  then show ?thesis using assms(2) by (auto simp: allows_iff new_authenticator_def)
qed

theorem configured_token_accepted_witness:
  "allows rev (new_authenticator rev (cfg_APITokens (fst (load (sample_env [])))))
     \<lparr>hq_Method = ''POST'', hq_Path = ''/v1/refresh'', hq_EscapedPath = ''/v1/refresh'',
      hq_Header = (\<lambda>h. if h = ''X-Api-Key'' then ''a-token-of-sufficient-length''
                       else if h = ''Authorization'' then ''Bearer eyJ.oidc.token'' else [])\<rparr>"
proof (rule configured_token_accepted)
  show "snd (load (sample_env [])) = []" by code_simp
  show "''a-token-of-sufficient-length'' \<in> set (cfg_APITokens (fst (load (sample_env []))))" by code_simp
qed simp

text \<open>
  C25. The summary carries no personal data: the responses of the health check and of the summary
  depend on the snapshot only through its summary, its times and its duration; two snapshots that
  differ in sponsors and orders cannot be told apart.
\<close>

theorem summary_no_personal_data:
  assumes "route_of req = Some RHealth \<or> route_of req = Some RSummary"
    and "rf_cached r1 = Some s1" "rf_cached r2 = Some s2"
    and "snap_FetchedAt s1 = snap_FetchedAt s2" "snap_SourceDurationMS s1 = snap_SourceDurationMS s2"
    and "snap_Summary s1 = snap_Summary s2"
  shows "fst (snd (handler srv w req r1)) = fst (snd (handler srv w req r2))"
proof -
  have "meta_for srv (in_Now w) s1 = meta_for srv (in_Now w) s2"
    using assms(4,5) by (simp add: meta_for_def age_def stale_def)
  then have "snd (handle_summary srv w req r1) = snd (handle_summary srv w req r2)"
    "snd (handle_health srv w req r1) = snd (handle_health srv w req r2)"
    using assms(6)
    by (simp_all add: handle_summary_def handle_health_def current_of_cached [OF assms(2)]
        current_of_cached [OF assms(3)] current_cached [OF assms(2)] current_cached [OF assms(3)] Let_def)
  then show ?thesis
    using assms(1) by (auto simp: handler_response mux_def require_token_def)
qed

theorem summary_no_personal_data_witness:
  "fst (snd (handler sample_server (sample_surroundings (Inl ErrDeadline)) (sample_request ''GET'' ''/healthz'' [])
      \<lparr>rf_cached = Some sample_snapshot, rf_store = new_memory\<rparr>))
   = fst (snd (handler sample_server (sample_surroundings (Inl ErrDeadline)) (sample_request ''GET'' ''/healthz'' [])
      \<lparr>rf_cached = Some (sample_snapshot\<lparr>snap_Orders := sample_response\<rparr>), rf_store = new_memory\<rparr>))"
  by (rule summary_no_personal_data [where ?s1.0 = sample_snapshot and ?s2.0 = "sample_snapshot\<lparr>snap_Orders := sample_response\<rparr>"])
    (simp_all add: route_of_def sample_request_def)

text \<open>
  C27. Personal data is never cacheable: a successful response of the sponsors or the orders route
  says \<open>no-store\<close>, and these two are the only ones that carry sponsors or orders.
\<close>

theorem personal_data_no_store:
  "(case route_of req of
      Some route \<Rightarrow>
        (if hp_Status (fst (snd (handler srv w req r))) = 200
         then (route = RSponsors \<or> route = ROrders)
           = ((''Cache-Control'', ''no-store'') \<in> set (hp_Header (fst (snd (handler srv w req r)))))
         else True)
    | None \<Rightarrow> fst (snd (handler srv w req r)) = srv_Mux srv req)"
  by (auto simp: handler_response mux_def require_token_def handle_health_def handle_summary_def handle_sponsors_def
      handle_orders_def handle_refresh_def snapshot_or_503_def no_store_def Let_def
      split: option.splits route.splits prod.splits sum.splits)

text \<open>
  C26. Reads never fetch: a request to any route but the refresh leaves the store as it is, and
  neither its response nor the refresher after it depends on what a fetch would return.
\<close>

theorem reads_never_fetch:
  "(if route_of req = Some RRefresh then True
    else rf_store (fst (handler srv w req r)) = rf_store r
      \<and> handler srv (w\<lparr>in_Fetched := fetched, in_FetchedAt := at_time\<rparr>) req r = handler srv w req r)"
proof -
  have "h srv (w\<lparr>in_Fetched := fetched, in_FetchedAt := at_time\<rparr>) req r = h srv w req r"
    if "h = handle_health \<or> h = handle_summary \<or> h = handle_sponsors \<or> h = handle_orders" for h :: "'a handler"
    using that
    by (auto simp: handle_health_def handle_summary_def handle_sponsors_def handle_orders_def split: prod.split sum.split)
  then have "route_of req \<noteq> Some RRefresh \<Longrightarrow>
      mux srv (w\<lparr>in_Fetched := fetched, in_FetchedAt := at_time\<rparr>) req r = mux srv w req r"
    by (auto simp: mux_def require_token_def split: option.split route.split)
  moreover have "route_of req \<noteq> Some RRefresh \<Longrightarrow> rf_store (fst (mux srv w req r)) = rf_store r"
    by (auto simp: mux_def require_token_def fst_snapshot_handlers current_store split: option.split route.split)
  ultimately show ?thesis by (simp add: handler_state) (simp add: handler_def log_requests_def write_header_def Let_def)
qed

text \<open>
  C2. End to end, under concurrent requests: let a refresh publish its snapshot, in any state the
  service can reach in which it had warmed up with a snapshot or no read was on its way from the
  store. Then, however the requests that follow are interleaved, an accepted request to a data route
  is answered 200, with the data and the ages of the snapshot that was published last when the
  request reads the cache, and changes nothing; the encoding of its body cannot fail, since that snapshot
  has been encoded before. The state of the cache at that read is the refresher the handler is given.
\<close>

theorem data_after_refresh:
  assumes "(step (srv_Ops srv) (srv_Codec srv) (srv_Options srv))\<^sup>*\<^sup>* (start cached st) m0"
    and "cached \<noteq> None \<or> (\<forall>t. \<not> loading (m_phase m0 t))"
    and "step (srv_Ops srv) (srv_Codec srv) (srv_Options srv) m0 m1" "m_published m1 = m_published m0 @ [s0]"
    and "(step (srv_Ops srv) (srv_Codec srv) (srv_Options srv))\<^sup>*\<^sup>* m1 m"
    and "snap = last (m_published m)" "r = \<lparr>rf_cached = m_cached m, rf_store = m_store m\<rparr>"
    and "route_of req = Some route" "data_fields snap route = Some kvs" "allows (srv_Sha srv) (srv_Auth srv) req"
  shows "fst (handler srv w req r) = r
    \<and> fst (snd (handler srv w req r)) =
      \<lparr>hp_Status = 200,
       hp_Header = (if route = RSummary then [] else no_store) @ [(''Content-Type'', ''application/json; charset=utf-8'')],
       hp_Body = json_print (JObj (json_meta_fields (meta_for srv (in_Now w) snap) @ kvs)) @ [chr 10]\<rparr>"
proof -
  have "\<forall>t. \<not> loading (m_phase m0 t)"
    using assms(2)
  proof
    assume "cached \<noteq> None"
    then obtain s' where "cached = Some s'" by blast
    then have "quiet s' m0" using assms(1) by (intro quiet_reach [OF _ quiet_start]) simp
    then show ?thesis by (simp add: quiet_def)
  qed
  then have m: "m_cached m = Some snap" "m_published m \<noteq> []"
    using published_stays [OF assms(3) _ assms(4,5)] unfolding assms(6) by blast+
  then have cached: "rf_cached r = Some snap" by (simp add: assms(7))
  have "(step (srv_Ops srv) (srv_Codec srv) (srv_Options srv))\<^sup>*\<^sup>* (start cached st) m"
    using assms(1,3,5) by (meson rtranclp.rtrancl_into_rtrancl rtranclp_trans)
  then have "\<not> isl (encode (srv_Codec srv) snap)"
    using published_encoded m(2) unfolding assms(6) by (metis last_in_set)
  then have ok: "json_ok (json_snapshot snap)" by (simp add: isl_encode)
  then have "json_ok (JObj (json_meta_fields (meta_for srv (in_Now w) snap) @ kvs))"
    using data_fields_ok [OF assms(9) ok] json_ok_meta [of "meta_for srv (in_Now w) snap"]
    by (simp add: json_ok_snapshot meta_for_def)
  moreover have "request_ops srv w req = [OpCurrent]"
    using assms(8-10) by (cases route) (auto simp: request_ops_def data_fields_def)
  then have "fst (handler srv w req r) = r" by (simp add: handler_ops current_cached [OF cached])
  ultimately show ?thesis
    using data_response [OF cached assms(8-10), of w] by (simp add: write_json_ok)
qed

text \<open>A cold start: a first read that found nothing, a refresh, and then a request for the sponsors.\<close>

theorem data_after_refresh_witness:
  "\<exists>m :: memory machine. m_cached m = Some (build (sample_fetch 5) (sample_time 0) sample_options)
   \<and> hp_Status (fst (snd (handler sample_server (sample_surroundings (Inl ErrDeadline))
      (sample_request ''GET'' ''/v1/sponsors'' ''a-token-of-sufficient-length'')
      \<lparr>rf_cached = m_cached m, rf_store = m_store m\<rparr>))) = 200"
proof -
  let ?go = "step (srv_Ops sample_server) (srv_Codec sample_server) (srv_Options sample_server)"
  let ?snap = "build (sample_fetch 5) (sample_time 0) sample_options"
  let ?before = "set_phase 1 (Saved ?snap) ((set_phase 1 Fetching ((set_phase 1 WantsRefresh (start None new_memory))\<lparr>m_mutex := Some 1\<rparr>))
      \<lparr>m_store := fst (memory_save new_memory (sample_data ?snap))\<rparr>)"
  let ?after = "set_phase 1 Published (?before\<lparr>m_cached := Some ?snap, m_published := m_published ?before @ [?snap]\<rparr>)"
  have srv: "srv_Ops sample_server = memory_ops" "srv_Codec sample_server = sample_codec" "srv_Options sample_server = sample_options"
    by (simp_all add: sample_server_def new_server_def)
  let ?f = "set_phase 1 Fetching ((set_phase 1 WantsRefresh (start None new_memory))\<lparr>m_mutex := Some 1\<rparr>)"
  have "?go (start None new_memory) (set_phase 1 WantsRefresh (start None new_memory))"
    by (rule call_refresh) (simp add: start_def)
  moreover have "?go (set_phase 1 WantsRefresh (start None new_memory)) ?f"
    by (rule lock) (simp_all add: start_def)
  moreover have "?go ?f (set_phase 1 (Fetched ?snap (sample_data ?snap)) ?f)"
    using step.fetched [of ?f 1 sample_codec "sample_fetch 5" "sample_time 0" sample_options "sample_data ?snap" memory_ops]
    by (simp add: srv sample_encodes_at)
  moreover have "?go (set_phase 1 (Fetched ?snap (sample_data ?snap)) ?f) ?before"
    using save [of "set_phase 1 (Fetched ?snap (sample_data ?snap)) ?f" 1 ?snap "sample_data ?snap" memory_ops sample_codec sample_options]
    by (simp add: srv memory_ops_def set_phase_def start_def)
  ultimately have a: "?go\<^sup>*\<^sup>* (start None new_memory) ?before" by auto
  have b: "?go ?before ?after" by (rule publish) simp
  have p: "m_published ?before = []" by (simp add: start_def)
  have "data_fields ?snap RSponsors \<noteq> None" by (simp add: data_fields_def)
  then obtain kvs where d: "data_fields ?snap RSponsors = Some kvs" by blast
  have e: "?snap = last (m_published ?after)" by simp
  have q: "None \<noteq> None \<or> (\<forall>t. \<not> loading (m_phase ?before t))" by (simp add: start_def)
  have route: "route_of (sample_request ''GET'' ''/v1/sponsors'' ''a-token-of-sufficient-length'') = Some RSponsors"
    by (simp add: route_of_def sample_request_def)
  from data_after_refresh [OF a q b _ _ e refl route d sample_allowed, of ?snap "sample_surroundings (Inl ErrDeadline)"]
  have "hp_Status (fst (snd (handler sample_server (sample_surroundings (Inl ErrDeadline))
      (sample_request ''GET'' ''/v1/sponsors'' ''a-token-of-sufficient-length'')
      \<lparr>rf_cached = m_cached ?after, rf_store = m_store ?after\<rparr>))) = 200"
    by simp
  moreover have "m_cached ?after = Some ?snap" by simp
  ultimately show ?thesis by (intro exI [of _ ?after] conjI)
qed

text \<open>
  C22. Before the first refresh there is an honest answer: while the store has no snapshot and no
  refresh produces one, requests change nothing, a data route answers an accepted request with 503 and
  \<open>Retry-After: 60\<close>, and the health check says, with or without a token, that the service is fine and
  the snapshot missing.
\<close>

theorem nothing_to_serve:
  assumes "rf_cached r = None" "st_Load (srv_Ops srv) (rf_store r) = Inl err" "is_not_found err"
    and "list_all (\<lambda>a. publishes (srv_Codec srv) (srv_Options srv) a = None) (all_ops srv reqs)"
    and "route_of req = Some route" "route = RHealth \<or> allows (srv_Sha srv) (srv_Auth srv) req"
  shows "serve_all srv reqs r = r
    \<and> (case route of
         RHealth \<Rightarrow> fst (snd (handler srv w req r)) =
           write_json [] 200 (JObj [(''snapshot'', JStr ''missing''), (''status'', JStr ''ok'')])
       | RRefresh \<Rightarrow> True
       | _ \<Rightarrow> fst (snd (handler srv w req r)) =
           write_error [(''Retry-After'', ''60'')] 503
             ''no snapshot yet; wait for the scheduled refresh or POST /v1/refresh'')"
proof -
  have "current (srv_Ops srv) (srv_Codec srv) r = (r, Inl err)"
    using assms(1,2) by (simp add: current_def)
  then show ?thesis
    using performs_idle [OF assms(1,2) assms(4) all_ops_no_restart] assms(3,5,6)
    by (cases route) (simp_all add: serve_all_ops handler_response mux_def require_token_allowed handle_health_def
        handle_summary_def handle_sponsors_def handle_orders_def snapshot_or_503_def)
qed

theorem nothing_to_serve_witness:
  "serve_all sample_server
      [(sample_surroundings (Inl ErrDeadline), sample_request ''POST'' ''/v1/refresh'' ''a-token-of-sufficient-length'')]
      (memory_refresher None) = memory_refresher None
   \<and> fst (snd (handler sample_server (sample_surroundings (Inl ErrDeadline))
      (sample_request ''GET'' ''/v1/summary'' ''a-token-of-sufficient-length'') (memory_refresher None))) =
     write_error [(''Retry-After'', ''60'')] 503
       ''no snapshot yet; wait for the scheduled refresh or POST /v1/refresh''
   \<and> fst (snd (handler sample_server (sample_surroundings (Inl ErrDeadline))
      (sample_request ''GET'' ''/healthz'' []) (memory_refresher None))) =
     write_json [] 200 (JObj [(''snapshot'', JStr ''missing''), (''status'', JStr ''ok'')])"
proof -
  let ?reqs = "[(sample_surroundings (Inl ErrDeadline), sample_request ''POST'' ''/v1/refresh'' ''a-token-of-sufficient-length'')]"
  have a: "rf_cached (memory_refresher None) = None" by (simp add: memory_refresher_def)
  have b: "st_Load (srv_Ops sample_server) (rf_store (memory_refresher None)) = Inl ErrNotFound"
    by (simp add: sample_server_def new_server_def memory_refresher_def memory_ops_def memory_load_def new_memory_def)
  have c: "list_all (\<lambda>a. publishes (srv_Codec sample_server) (srv_Options sample_server) a = None) (all_ops sample_server ?reqs)"
    by (simp add: all_ops_def request_ops_def sample_allowed route_of_def)
      (simp add: sample_request_def sample_surroundings_def publishes_def)
  have d: "route_of (sample_request ''GET'' ''/v1/summary'' ''a-token-of-sufficient-length'') = Some RSummary"
    by (simp add: route_of_def sample_request_def)
  have h: "route_of (sample_request ''GET'' ''/healthz'' []) = Some RHealth"
    by (simp add: route_of_def sample_request_def)
  show ?thesis
    using nothing_to_serve [OF a b _ c d disjI2 [OF sample_allowed]] nothing_to_serve [OF a b _ c h] by simp
qed

text \<open>
  C21. What an accepted refresh request reports is what happened: 502 and an unchanged service when
  fetching or encoding failed, 200 when the new snapshot is stored, 207 with the counts of the new
  snapshot, which is served from then on, when only storing it failed.
\<close>

theorem refresh_reports:
  assumes "route_of req = Some RRefresh" "allows (srv_Sha srv) (srv_Auth srv) req"
  shows "(case publishes (srv_Codec srv) (srv_Options srv) (OpRefresh (in_Fetched w) (in_FetchedAt w)) of
      None \<Rightarrow> fst (handler srv w req r) = r \<and> hp_Status (fst (snd (handler srv w req r))) = 502
    | Some snap \<Rightarrow> rf_cached (fst (handler srv w req r)) = Some snap
        \<and> (case snd (st_Save (srv_Ops srv) (rf_store r) (projr (encode (srv_Codec srv) snap))) of
             None \<Rightarrow> hp_Status (fst (snd (handler srv w req r))) = 200
           | Some err \<Rightarrow> hp_Status (fst (snd (handler srv w req r))) = (if as_upstream err = None then 207 else 502)))"
proof (cases "publishes (srv_Codec srv) (srv_Options srv) (OpRefresh (in_Fetched w) (in_FetchedAt w))")
  case None
  then show ?thesis
    using refresh_None [OF None, of "srv_Ops srv" r] assms
    by (auto simp: handler_state handler_response mux_def require_token_allowed fst_handle_refresh handle_refresh_def
        split: prod.split option.split)
next
  case (Some snap)
  then obtain result data where f: "in_Fetched w = Inr result" "snap = build result (in_FetchedAt w) (srv_Options srv)"
    "encode (srv_Codec srv) snap = Inr data"
    by (auto simp: publishes_def split: sum.splits if_splits elim: sum.expand) (metis isl_def sum.exhaust)
  then show ?thesis
    unfolding Some option.case using assms
    by (auto simp: handler_state handler_response mux_def require_token_allowed fst_handle_refresh
        handle_refresh_def refresh_def set_cached_def Let_def split: prod.split option.split)
qed

theorem refresh_reports_witness:
  "hp_Status (fst (snd (handler sample_server (sample_surroundings (Inl ErrDeadline))
      (sample_request ''POST'' ''/v1/refresh'' ''a-token-of-sufficient-length'') (memory_refresher None)))) = 502"
  using refresh_reports [of "sample_request ''POST'' ''/v1/refresh'' ''a-token-of-sufficient-length''" sample_server
      "sample_surroundings (Inl ErrDeadline)" "memory_refresher None", OF _ sample_allowed]
  by (simp add: route_of_def) (simp add: sample_request_def sample_surroundings_def publishes_def)

text \<open>
  C32. The refresh blames the token for whatever the upstream answers: when the last attempt of the
  client failed with a status of any kind, such as a 503 after all retries, the response says to
  check \<open>TICKETBUTLER_TOKEN\<close>.
\<close>

theorem refresh_blames_token:
  assumes "route_of req = Some RRefresh" "allows (srv_Sha srv) (srv_Auth srv) req"
    and "cl_File c = []" "fetch_once c n (last_attempt c n) = Inl err" "as_upstream err = Some (status, body)"
    and "in_Fetched w = snd (fetch_orders c n)"
  shows "fst (handler srv w req r) = r
    \<and> fst (snd (handler srv w req r)) =
        write_error [] 502 ''ticketbutler rejected the request; check TICKETBUTLER_TOKEN''"
proof -
  obtain e where "in_Fetched w = Inl e" "as_upstream e = Some (status, body)"
    using upstream_survives [OF assms(3-5)] assms(6) by auto
  then show ?thesis
    using assms(1,2)
    by (simp add: handler_state handler_response mux_def require_token_allowed handle_refresh_def refresh_def)
qed

theorem refresh_blames_token_witness:
  "fst (snd (handler sample_server (sample_surroundings (snd (fetch_orders sample_client (sample_net [503]))))
      (sample_request ''POST'' ''/v1/refresh'' ''a-token-of-sufficient-length'') (memory_refresher None))) =
    write_error [] 502 ''ticketbutler rejected the request; check TICKETBUTLER_TOKEN''"
proof -
  have "fetch_once sample_client (sample_net [503]) (last_attempt sample_client (sample_net [503])) = Inl (ErrUpstream 503 ''{}'')"
    by code_simp
  moreover have "route_of (sample_request ''POST'' ''/v1/refresh'' ''a-token-of-sufficient-length'') = Some RRefresh"
    by (simp add: route_of_def sample_request_def)
  moreover have "cl_File sample_client = []" by (simp add: sample_client_def)
  ultimately show ?thesis
    by (intro conjunct2 [OF refresh_blames_token [where c = sample_client and n = "sample_net [503]"]])
      (auto simp: sample_allowed sample_surroundings_def)
qed

text \<open>
  C38. The ages reported agree: up to 97 days \<open>age_seconds\<close> is the age rounded down, although it
  takes a detour through \<open>float64\<close>, and with a limit of whole seconds a snapshot marked stale is
  at least as old as the limit and one older than the limit by a second is marked.
\<close>

theorem meta_ages:
  "(if 0 \<le> age snap now \<and> age snap now < 2 ^ 23 * Second
    then meta_AgeSeconds (meta_for srv now snap) = age snap now div Second
      \<and> (if srv_StaleAfter srv = k * Second
         then (if meta_Stale (meta_for srv now snap) then k \<le> meta_AgeSeconds (meta_for srv now snap)
               else meta_AgeSeconds (meta_for srv now snap) \<le> k) else True)
    else True)"
proof -
  have "meta_AgeSeconds (meta_for srv now snap) = age snap now div Second"
    if "0 \<le> age snap now" "age snap now < 2 ^ 23 * Second"
    using seconds_truncate [OF that] by (simp add: meta_for_def int64_of_def)
  moreover have "meta_Stale (meta_for srv now snap) \<longleftrightarrow> srv_StaleAfter srv < age snap now"
    by (simp add: meta_for_def stale_def)
  moreover have "k * Second < a \<Longrightarrow> k \<le> a div Second" "\<not> k * Second < a \<Longrightarrow> a div Second \<le> k" for a
    by (simp_all add: Second_def)
  ultimately show ?thesis by simp
qed

text \<open>
  C19. A restart is invisible: once a refresh has published a snapshot of a payload the client
  returned, it makes no difference to any later request, to whatever route and after whatever other
  requests, whether the service still holds that snapshot or what was stored of it and read after a
  restart. Status, headers and body are the same to the last byte, the ages, the staleness and the
  source duration included, although neither the amounts nor the discounts are kept in memory as
  they were; and so is the line logged. The requests are served one after another.
\<close>

theorem restart_invisible:
  assumes "snd (fetch_orders c n) = Inr result"
    and "publishes (srv_Codec srv) (srv_Options srv) (OpRefresh (Inr result) now) = Some snap"
    and "orders_storable (res_Orders result)" "discounts_fit (res_Orders result)"
    and "length (snapshot_text snap) \<le> max_decompressed"
    and "rf_cached r = Some snap"
  shows "snd (handler srv w req (serve_all srv reqs (r\<lparr>rf_cached := Some (snapshot_reread snap)\<rparr>)))
    = snd (handler srv w req (serve_all srv reqs r))"
proof -
  obtain data where snap: "snap = build result now (srv_Options srv)" "encode (srv_Codec srv) snap = Inr data"
    using assms(2) by (cases "encode (srv_Codec srv) (build result now (srv_Options srv))") (auto simp: publishes_def split: if_splits)
  have "snapshot_storable snap"
    using assms(1,3-5) snap(2) unfolding snap(1) by (intro client.built_storable)
  moreover have "t_mono (snap_FetchedAt snap) = None" by (simp add: snap(1))
  moreover have "twins snap (serve_all srv reqs r) (serve_all srv reqs (r\<lparr>rf_cached := Some (snapshot_reread snap)\<rparr>))"
    unfolding serve_all_ops
    by (rule twins_performs [OF all_ops_no_restart]) (simp add: twins_def assms(6))
  ultimately show ?thesis by (rule twins_response)
qed

text \<open>A payload with a discount that is kept as it came and stored without its blank.\<close>

theorem restart_invisible_witness:
  "\<exists>s. map order_Discount (elems (resp_Orders (snap_Orders s))) \<noteq>
        map order_Discount (elems (resp_Orders (snap_Orders (snapshot_reread s))))
     \<and> snd (handler sample_server (sample_surroundings (Inl ErrDeadline))
        (sample_request ''GET'' ''/v1/orders'' ''a-token-of-sufficient-length'')
        \<lparr>rf_cached = Some (snapshot_reread s), rf_store = new_memory\<rparr>)
      = snd (handler sample_server (sample_surroundings (Inl ErrDeadline))
        (sample_request ''GET'' ''/v1/orders'' ''a-token-of-sufficient-length'')
        \<lparr>rf_cached = Some s, rf_store = new_memory\<rparr>)"
proof -
  obtain r where f: "fetch_orders sample_body_client sample_body_net = ([], Inr r)" and c: "sample_checks r"
    by (rule sample_body_fetched)
  let ?s = "build r (sample_time 0) sample_options"
  let ?r = "\<lparr>rf_cached = Some ?s, rf_store = new_memory\<rparr>"
  have o: "snd (fetch_orders sample_body_client sample_body_net) = Inr r" by (simp add: f)
  have srv: "srv_Codec sample_server = sample_codec" "srv_Options sample_server = sample_options"
    by (simp_all add: sample_server_def new_server_def)
  have p: "publishes (srv_Codec sample_server) (srv_Options sample_server) (OpRefresh (Inr r) (sample_time 0)) = Some ?s"
    unfolding srv using c by (simp add: publishes_def isl_encode sample_checks_def) (simp add: sample_codec_def)
  have l: "length (snapshot_text ?s) \<le> max_decompressed" using c by (simp add: sample_checks_def max_decompressed_def)
  have st: "orders_storable (res_Orders r)" "discounts_fit (res_Orders r)" using c by (simp_all add: sample_checks_def)
  have "rf_cached ?r = Some ?s" by simp
  from restart_invisible [OF o p st l this, of "sample_surroundings (Inl ErrDeadline)"
      "sample_request ''GET'' ''/v1/orders'' ''a-token-of-sufficient-length''" "[]"]
  have "snd (handler sample_server (sample_surroundings (Inl ErrDeadline))
        (sample_request ''GET'' ''/v1/orders'' ''a-token-of-sufficient-length'')
        \<lparr>rf_cached = Some (snapshot_reread ?s), rf_store = new_memory\<rparr>)
      = snd (handler sample_server (sample_surroundings (Inl ErrDeadline))
        (sample_request ''GET'' ''/v1/orders'' ''a-token-of-sufficient-length'') ?r)"
    by (simp add: serve_all_def)
  moreover have "map order_Discount (elems (resp_Orders (snap_Orders ?s))) \<noteq>
      map order_Discount (elems (resp_Orders (snap_Orders (snapshot_reread ?s))))"
    using c by (simp add: sample_checks_def snapshot_reread_def build_def)
  ultimately show ?thesis by blast
qed

end
