(* ===== verification/Delivery.thy ===== *)
theory Delivery
  imports HttpApi
begin

text \<open>
  What the caller reads: the bodies of the data routes are JSON texts, and decoding them gives back
  the aggregates of the payload that was fetched, and the payload itself with its amounts to the
  cent.
\<close>

section \<open>Bodies\<close>

lemma is_int64_int64_of: "is_int64 (int64_of x)"
proof -
  have "is_int64 n" if "f64_to_int64 x = Some n" for n
    using that by (cases x) (auto simp: is_int64_def int64_min_def int64_max_def Let_def split: if_splits)
  then show ?thesis by (auto simp: int64_of_def is_int64_def int64_min_def int64_max_def split: option.splits)
qed

lemma readable_meta:
  assumes "snapshot_storable snap" "s = snap \<or> s = snapshot_reread snap"
  shows "readable (JObj (json_meta_fields (meta_for srv now s)))"
  using assms
  by (auto simp: snapshot_storable_def json_snapshot_def json_meta_fields_def meta_for_def json_time_def is_int64_int64_of
      snapshot_reread_def valid_utf8_ascii byte_def)

lemma readable_append: "readable (JObj (kvs @ kvs')) \<longleftrightarrow> readable (JObj kvs) \<and> readable (JObj kvs')"
  by simp

lemma readable_data:
  assumes "snapshot_storable snap" "data_fields snap route = Some kvs"
  shows "readable (JObj kvs)"
  using assms
  by (cases route) (auto simp: snapshot_storable_def json_snapshot_def data_fields_def readable_slice list.pred_map comp_def
      valid_utf8_ascii byte_def)

lemma printable_meta: "0 < d \<Longrightarrow> printable d (JObj (json_meta_fields m))"
  by (simp add: json_meta_fields_def json_time_def)

lemma printable_data:
  assumes "snapshot_storable snap" "data_fields snap route = Some kvs"
  shows "printable max_depth (JObj kvs)"
proof -
  have st: "readable (JObj (json_summary_fields (snap_Summary snap)))" "readable (json_orders_response (snap_Orders snap))"
    "discounts_fit (snap_Orders snap)"
    using assms(1) by (simp_all add: snapshot_storable_def json_snapshot_def)
  have "4 \<le> max_depth" "0 < max_depth" "0 < max_depth - 1" "0 < max_depth - 2" by (simp_all add: max_depth_def)
  with st show ?thesis
    using assms(2) printable_orders [OF st(2,3)] printable_summary [OF st(1)]
    by (cases route) (auto simp: data_fields_def list.pred_map comp_def printable_sponsor list_all_True
        simp del: printable.simps(9), auto simp: printable_sponsor list_all_iff)
qed

text \<open>What a caller gets out of a response: the value its body is decoded to, or the member of an object.\<close>

definition read_body :: "'a decoder \<Rightarrow> http_response \<Rightarrow> goerr + 'a" where
  "read_body dec resp = res_bind (json_parse (hp_Body resp) None) dec"

definition member_of :: "string \<Rightarrow> 'a decoder \<Rightarrow> 'a decoder" where
  "member_of name dec = unmarshal_struct (\<lambda>kvs. field kvs name dec)"

lemma served_body:
  assumes "snapshot_storable snap" "rf_cached r = Some snap \<or> rf_cached r = Some (snapshot_reread snap)"
    and "route_of req = Some route" "data_fields snap route = Some kvs" "allows (srv_Sha srv) (srv_Auth srv) req"
  shows "\<exists>m. read_body dec (fst (snd (handler srv w req r))) = dec (parsed_of (JObj (json_meta_fields m @ kvs)))
    \<and> readable (JObj (json_meta_fields m @ kvs))"
proof -
  obtain s kvs' where s: "rf_cached r = Some s" "s = snap \<or> s = snapshot_reread snap" "data_fields s route = Some kvs'"
    and same: "\<And>a. prints_same (JObj (a @ kvs')) (JObj (a @ kvs))"
    using assms(2,4) data_fields_reread [OF assms(1,4)] prints_same_refl by blast
  let ?m = "meta_for srv (in_Now w) s"
  let ?v = "JObj (json_meta_fields ?m @ kvs)"
  have v: "readable ?v" unfolding readable_append
    by (intro conjI readable_meta [OF assms(1) s(2)] readable_data [OF assms(1,4)])
  have "fst (snd (handler srv w req r)) = write_json (if route = RSummary then [] else no_store) 200 ?v"
    unfolding data_response [OF s(1) assms(3) s(3) assms(5)] by (rule write_json_same [OF same])
  then have b: "hp_Body (fst (snd (handler srv w req r))) = json_print ?v @ [chr 10]"
    using readable_ok [OF v] by (simp only: write_json_ok) simp
  have "printable max_depth ?v"
    using printable_meta [of max_depth] printable_data [OF assms(1,4)] by (simp add: max_depth_def)
  then have "json_parse (json_print ?v @ [chr 10]) None = Inr (parsed_of ?v)"
    by (rule json_parse_print) simp
  then show ?thesis using v by (intro exI [of _ ?m]) (simp only: read_body_def b res_bind.simps)
qed

section \<open>What the bodies decode to\<close>

lemma read_summary_fields:
  assumes "readable (JObj (json_meta_fields m @ json_summary_fields s))" "maps_sorted s"
  shows "unmarshal_summary (parsed_of (JObj (json_meta_fields m @ json_summary_fields s))) = Inr s"
proof -
  have "unmarshal_map unmarshal_int (parsed_of (json_map JInt (sum_OrdersByState s))) = Inr (sum_OrdersByState s)"
    using assms by (intro unmarshal_json_map unmarshal_json_kinds) (simp_all add: maps_sorted_def json_summary_fields_def)
  then show ?thesis
    using assms unfolding json_summary_fields_def json_meta_fields_def unmarshal_summary_def
    by (subst unmarshal_json_struct)
      (simp_all add: field_exact unmarshal_json_map read_counts read_ticket_group read_size_counts maps_sorted_def
      del: parsed_of.simps)
qed

lemma read_member:
  assumes "readable (JObj (json_meta_fields m @ [(name, v)]))"
    and "name \<notin> {''fetched_at'', ''age_seconds'', ''stale'', ''source_duration_ms''}"
  shows "member_of name dec (parsed_of (JObj (json_meta_fields m @ [(name, v)]))) = dec (parsed_of v)"
  using assms unfolding member_of_def json_meta_fields_def
  by (subst unmarshal_json_struct) (simp_all add: field_exact del: parsed_of.simps)

lemma served_member:
  assumes "snapshot_storable snap" "rf_cached r = Some snap \<or> rf_cached r = Some (snapshot_reread snap)"
    and "route_of req = Some route" "data_fields snap route = Some [(name, v)]" "allows (srv_Sha srv) (srv_Auth srv) req"
    and "name \<notin> {''fetched_at'', ''age_seconds'', ''stale'', ''source_duration_ms''}"
  shows "read_body (member_of name dec) (fst (snd (handler srv w req r))) = dec (parsed_of v)"
proof -
  obtain m where "read_body (member_of name dec) (fst (snd (handler srv w req r)))
      = member_of name dec (parsed_of (JObj (json_meta_fields m @ [(name, v)])))"
    "readable (JObj (json_meta_fields m @ [(name, v)]))"
    using served_body [OF assms(1-5)] by blast
  with read_member [OF _ assms(6)] show ?thesis by (simp only:)
qed

section \<open>Properties\<close>

text \<open>
  C3. What was fetched is what is delivered: of a payload the client returned and a refresh published,
  whether the snapshot is still the one in memory or was read back after a restart, decoding the body
  of \<open>/v1/summary\<close> gives exactly the summary of that payload, that of \<open>/v1/sponsors\<close> exactly its
  sponsors, with an empty list for none, and that of \<open>/v1/orders\<close> the payload with its amounts to the
  cent and its discounts compacted.
\<close>

theorem data_delivered:
  assumes "snd (fetch_orders c n) = Inr result" "publishes cd opts (OpRefresh (Inr result) now) = Some snap"
    and "orders_storable (res_Orders result)" "discounts_fit (res_Orders result)"
    and "length (snapshot_text snap) \<le> max_decompressed"
    and "rf_cached r = Some snap \<or> rf_cached r = Some (snapshot_reread snap)"
    and "route_of req = Some route" "allows (srv_Sha srv) (srv_Auth srv) req"
  shows "let resp = fst (snd (handler srv w req r)) in
    (case route of
       RSummary \<Rightarrow> read_body unmarshal_summary resp = Inr (summarise (res_Orders result) opts)
     | RSponsors \<Rightarrow> read_body (member_of ''sponsors'' (unmarshal_slice unmarshal_sponsor)) resp
         = Inr (Some (elems (sponsors (res_Orders result) opts)))
     | ROrders \<Rightarrow> read_body (member_of ''orders'' unmarshal_orders_response) resp = Inr (orders_reread (res_Orders result))
     | _ \<Rightarrow> True)"
proof -
  obtain data where snap: "snap = build result now opts" "encode cd snap = Inr data"
    using assms(2) by (cases "encode cd (build result now opts)") (auto simp: publishes_def split: if_splits)
  have st: "snapshot_storable snap"
    using assms(1,3-5) snap(2) unfolding snap(1) by (intro client.built_storable)
  have r: "readable (json_orders_response (snap_Orders snap))" "orders_storable (snap_Orders snap)"
    using st by (simp_all add: snapshot_storable_def json_snapshot_def)
  note body = served_body [OF st assms(6,7) _ assms(8), of _ unmarshal_summary w]
  note member = served_member [OF st assms(6,7) _ assms(8), of _ _ _ w]
  show ?thesis
  proof (cases route)
    case RSummary
    have "data_fields snap route = Some (json_summary_fields (snap_Summary snap))" by (simp add: data_fields_def RSummary)
    from body [OF this] show ?thesis
      using read_summary_fields [of _ "snap_Summary snap"] build_maps_sorted [of result now opts]
      by (auto simp: RSummary Let_def snap(1) build_def)
  next
    case RSponsors
    let ?list = "json_slice json_sponsor (Some (elems (snap_Sponsors snap)))"
    have f: "data_fields snap route = Some [(''sponsors'', ?list)]" by (simp add: data_fields_def RSponsors json_slice_def)
    have "readable ?list" using readable_data [OF st f] by simp
    from unmarshal_json_slice_same [OF read_sponsor this] show ?thesis
      by (simp add: RSponsors member [OF f] snap(1) build_def del: parsed_of.simps)
  next
    case ROrders
    have f: "data_fields snap route = Some [(''orders'', json_orders_response (snap_Orders snap))]"
      by (simp add: data_fields_def ROrders)
    from read_orders_response [OF r] show ?thesis
      by (simp add: ROrders member [OF f] snap(1) build_def)
  qed simp_all
qed

text \<open>The payload of a file, refreshed and served again by a process that read the snapshot back.\<close>

theorem data_delivered_witness:
  "\<exists>result. fetch_orders sample_body_client sample_body_net = ([], Inr result)
     \<and> read_body (member_of ''orders'' unmarshal_orders_response)
         (fst (snd (handler sample_server (sample_surroundings (Inl ErrDeadline))
           (sample_request ''GET'' ''/v1/orders'' ''a-token-of-sufficient-length'')
           \<lparr>rf_cached = Some (snapshot_reread (build result (sample_time 0) sample_options)), rf_store = new_memory\<rparr>)))
       = Inr (orders_reread (res_Orders result))"
proof -
  obtain r where f: "fetch_orders sample_body_client sample_body_net = ([], Inr r)" and c: "sample_checks r"
    by (rule sample_body_fetched)
  let ?s = "build r (sample_time 0) sample_options"
  let ?r = "\<lparr>rf_cached = Some (snapshot_reread ?s), rf_store = new_memory\<rparr>"
  have o: "snd (fetch_orders sample_body_client sample_body_net) = Inr r" by (simp add: f)
  have p: "publishes sample_codec sample_options (OpRefresh (Inr r) (sample_time 0)) = Some ?s"
    using c by (simp add: publishes_def isl_encode sample_checks_def) (simp add: sample_codec_def)
  have l: "length (snapshot_text ?s) \<le> max_decompressed" using c by (simp add: sample_checks_def max_decompressed_def)
  have st: "orders_storable (res_Orders r)" "discounts_fit (res_Orders r)" using c by (simp_all add: sample_checks_def)
  have d: "route_of (sample_request ''GET'' ''/v1/orders'' ''a-token-of-sufficient-length'') = Some ROrders"
    by (simp add: route_of_def sample_request_def)
  have "rf_cached ?r = Some ?s \<or> rf_cached ?r = Some (snapshot_reread ?s)" by simp
  from data_delivered [OF o p st l this d sample_allowed, of "sample_surroundings (Inl ErrDeadline)"] f show ?thesis
    by (auto simp: Let_def)
qed

end
