(* ===== verification/JsonIndent.thy ===== *)
theory JsonIndent
  imports JsonCompact
begin

text \<open>
  \<open>json.Indent\<close> as \<open>Encoder.SetIndent\<close> applies it to the compact text of a value: two spaces for every
  array and object that is open, a line break after every opening bracket, comma and before every
  closing bracket, and nothing inside an empty array or object.
\<close>

definition indent_newline :: "nat \<Rightarrow> string" where
  "indent_newline d = chr 10 # replicate (2 * d) (CHR '' '')"

text \<open>\<open>d\<close> is the depth; \<open>need\<close> says that a bracket was opened and nothing written after it yet.\<close>

fun indent_json :: "in_text \<Rightarrow> nat \<Rightarrow> bool \<Rightarrow> string \<Rightarrow> string" where
  "indent_json st d need [] = []"
| "indent_json Escaped d need (c # cs) = c # indent_json Inside d need cs"
| "indent_json Inside d need (c # cs) =
     c # indent_json (if c = quote_char then Outside else if c = backslash then Escaped else Inside) d need cs"
| "indent_json Outside d need (c # cs) =
     (if is_space c then indent_json Outside d need cs
      else if c = CHR ''}'' \<or> c = CHR '']'' then
        (if need then c # indent_json Outside d False cs
         else indent_newline (d - 1) @ c # indent_json Outside (d - 1) False cs)
      else
        let d' = (if need then d + 1 else d);
            lead = (if need then indent_newline d' else [])
        in lead @
           (if c = CHR ''{'' \<or> c = CHR ''['' then c # indent_json Outside d' True cs
            else if c = CHR '','' then c # indent_newline d' @ indent_json Outside d' False cs
            else if c = CHR '':'' then c # CHR '' '' # indent_json Outside d' False cs
            else c # indent_json (if c = quote_char then Inside else Outside) d' False cs))"

text \<open>Only space outside strings is added, so compacting undoes it.\<close>

lemma compact_newline: "compact_json Outside (indent_newline d @ t) = compact_json Outside t"
proof -
  have "compact_json Outside (replicate n (CHR '' '') @ t) = compact_json Outside t" for n
    by (induction n) (simp_all add: is_space_def byte_def)
  moreover have "is_space (chr 10)" by code_simp
  ultimately show ?thesis by (simp add: indent_newline_def)
qed

lemma indent_inside_head:
  "separator_rest (indent_json Inside d need s) = separator_rest s"
  by (cases s; cases "tl s") (auto simp: separator_rest_def numeral_2_eq_2)

lemma compact_space: "is_space (CHR '' '')" "compact_json Outside (CHR '' '' # t) = compact_json Outside t"
  by (simp_all add: is_space_def byte_def)

lemma compact_indent: "compact_json st (indent_json st d need s) = compact_json st s"
proof (induction st s arbitrary: d need rule: compact_json.induct)
  case (2 c cs)
  show ?case
  proof (cases "is_space c")
    case False
    have lead: "compact_json Outside ((if need then indent_newline n else []) @ t) = compact_json Outside t" for n t
      by (simp add: compact_newline)
    show ?thesis
    proof (cases "c = CHR ''}'' \<or> c = CHR '']''")
      case True
      then show ?thesis using 2(2) [OF False] False by (auto simp: compact_newline)
    next
      case nb: False
      consider "c = CHR ''{'' \<or> c = CHR ''[''" | "c = CHR '',''" | "c = CHR '':''"
        | "c \<noteq> CHR ''{'' \<and> c \<noteq> CHR ''['' \<and> c \<noteq> CHR '','' \<and> c \<noteq> CHR '':''" by blast
      then show ?thesis
        using 2(2) [OF False] False nb
        by cases (auto simp: Let_def lead compact_newline compact_space)
    qed
  qed (use 2(1) in simp)
next
  case (4 c cs)
  show ?case
  proof (cases "c = CHR 0xE2 \<and> separator_rest cs")
    case True
    then obtain x r where r: "cs = CHR 0x80 # x # r" "x = CHR 0xA8 \<or> x = CHR 0xA9" by (elim conjE separator_rest_split)
    then show ?thesis using 4(3) True by (auto simp: separator_rest_def numeral_2_eq_2)
  next
    case False
    then show ?thesis using 4 by (auto simp: indent_inside_head)
  qed
qed simp_all

end
