(* ===== verification/Tbproxy.thy ===== *)
theory Tbproxy
  imports Delivery JsonIndent
begin

text \<open>
  \<open>cmd/tbproxy/main.go\<close>: the command, from its arguments to its exit code. What it observes of its
  surroundings is the record \<open>process\<close>: the environment, the connection to Cloud Storage and the
  content of the bucket, the network and, for \<open>serve\<close>, the requests that arrive until it ends.
  Log lines are left out; so is the text \<open>flag\<close> prints for a bad flag.
\<close>

section \<open>Assembling the service\<close>

datatype command_error =
  ConfigErrors "config_error list"
| RunError goerr
| BadSponsorPKs string
| NoPayload

text \<open>What \<open>build\<close> returns; no bucket stands for the memory store.\<close>

record service =
  sv_Config :: config
  sv_Client :: client
  sv_Bucket :: "gcs option"
  sv_Options :: options

definition build_service :: "goerr option \<Rightarrow> getenv \<Rightarrow> command_error + service" where
  "build_service connect ev =
     (case load ev of
        (cfg, e # errs) \<Rightarrow> Inl (ConfigErrors (e # errs))
      | (cfg, []) \<Rightarrow>
          res_bind
            (if cfg_Bucket cfg = [] then Inr None
             else (case new_gcs connect (cfg_Bucket cfg) (cfg_Object cfg) of
                     Inl err \<Rightarrow> Inl (RunError err)
                   | Inr b \<Rightarrow> Inr (Some b)))
            (\<lambda>bucket. Inr
              \<lparr>sv_Config = cfg,
               sv_Client =
                 \<lparr>cl_URL = orders_url cfg, cl_Token = cfg_Token cfg, cl_File = cfg_File cfg,
                  cl_Timeout = cfg_UpstreamTimeout cfg, cl_Attempts = cfg_UpstreamAttempts cfg,
                  cl_Now = None, cl_Sleep = None\<rparr>,
               sv_Bucket = bucket,
               sv_Options =
                 \<lparr>opt_MerchNamePatterns = cfg_MerchNamePatterns cfg,
                  opt_SponsorTicketTypePKs = cfg_SponsorTicketTypePKs cfg\<rparr>\<rparr>))"

section \<open>verify\<close>

text \<open>\<open>FlagSet.Parse\<close> for flags that all take a value; \<open>ExitOnError\<close> leaves with 0 or 2.\<close>

datatype flags_result = FlagsOk "string \<Rightarrow> string" "string list" | FlagsHelp | FlagsBad string

fun parse_flags :: "string list \<Rightarrow> (string \<Rightarrow> string) \<Rightarrow> string list \<Rightarrow> flags_result" where
  "parse_flags names vals [] = FlagsOk vals []"
| "parse_flags names vals (s # args) =
     (if length s < 2 \<or> hd s \<noteq> CHR ''-'' then FlagsOk vals (s # args)
      else if s = ''--'' then FlagsOk vals args
      else
        let name = (if s ! 1 = CHR ''-'' then drop 2 s else drop 1 s)
        in if name = [] \<or> hd name = CHR ''-'' \<or> hd name = CHR ''='' then FlagsBad (''bad flag syntax: '' @ s)
           else
             (case cut_byte name (CHR ''='') of (n, v, found) \<Rightarrow>
                if n \<notin> set names then
                  (if n = ''help'' \<or> n = ''h'' then FlagsHelp
                   else FlagsBad (''flag provided but not defined: -'' @ n))
                else if found then parse_flags names (vals(n := v)) args
                else
                  (case args of
                     [] \<Rightarrow> FlagsBad (''flag needs an argument: -'' @ n)
                   | v # rest \<Rightarrow> parse_flags names (vals(n := v)) rest)))"

definition verify_options :: "string \<Rightarrow> string \<Rightarrow> command_error + options" where
  "verify_options merch sponsor_pks =
     (case parse_int_list sponsor_pks of
        Inl part \<Rightarrow> Inl (BadSponsorPKs part)
      | Inr pks \<Rightarrow> Inr \<lparr>opt_MerchNamePatterns = parse_merch_patterns merch, opt_SponsorTicketTypePKs = pks\<rparr>)"

datatype verify_result = VerifyExit int | VerifyFailed command_error | VerifyPrinted string

definition verify_defaults :: "string \<Rightarrow> string" where
  "verify_defaults = (\<lambda>_. [])(''file'' := [], ''merch-patterns'' := ''hoodie'', ''sponsor-pks'' := [])"

definition json_verify :: "summary \<Rightarrow> sponsor slice \<Rightarrow> json" where
  "json_verify sm sps =
     JObj [(''summary'', JObj (json_summary_fields sm)), (''sponsors'', json_slice json_sponsor sps)]"

text \<open>\<open>Encoder.Encode\<close> after \<open>SetIndent\<close>: the indented text and a line break.\<close>

definition encode_indented :: "json \<Rightarrow> string" where
  "encode_indented v = indent_json Outside 0 False (json_print v) @ [chr 10]"

definition verify :: "getenv \<Rightarrow> net \<Rightarrow> string list \<Rightarrow> verify_result" where
  "verify ev n args =
     (case parse_flags [''file'', ''merch-patterns'', ''sponsor-pks''] verify_defaults args of
        FlagsHelp \<Rightarrow> VerifyExit 0
      | FlagsBad msg \<Rightarrow> VerifyExit 2
      | FlagsOk vals rest \<Rightarrow>
          let path = vals ''file'';
              path = (if path = [] then ev ''TICKETBUTLER_FILE'' else path)
          in if path = [] then VerifyFailed NoPayload
             else
               (case verify_options (vals ''merch-patterns'') (vals ''sponsor-pks'') of
                  Inl err \<Rightarrow> VerifyFailed err
                | Inr opts \<Rightarrow>
                    (case snd (fetch_orders \<lparr>cl_URL = [], cl_Token = [], cl_File = path, cl_Timeout = 0, cl_Attempts = 0, cl_Now = None, cl_Sleep = None\<rparr> n) of
                       Inl err \<Rightarrow> VerifyFailed (RunError err)
                     | Inr result \<Rightarrow>
                         (case json_marshal (json_verify (summarise (res_Orders result) opts) (sponsors (res_Orders result) opts)) of
                            Inl err \<Rightarrow> VerifyFailed (RunError err)
                          | Inr v \<Rightarrow> VerifyPrinted (encode_indented v)))))"

section \<open>refresh and serve\<close>

text \<open>One accepted connection: the network it finds when it fetches, its surroundings, its request.\<close>

type_synonym arrival = "net \<times> surroundings \<times> http_request"

text \<open>What \<open>serve\<close> waits for: the listener fails, or a signal and the result of the shutdown.\<close>

datatype ended = ListenFailed goerr | SignalReceived "goerr option"

record 'g process =
  pr_Env :: getenv
  pr_Connect :: "goerr option"
  pr_Api :: "'g gcs_api"
  pr_Store :: 'g
  pr_Codec :: codec
  pr_Net :: net
  pr_FetchedAt :: gotime
  pr_Sha :: "string \<Rightarrow> string"
  pr_Mux :: "http_request \<Rightarrow> http_response"
  pr_Arrivals :: "arrival list"
  pr_Ended :: ended
  pr_Version :: string

definition refresh_error :: "'s refresher \<times> snapshot option \<times> goerr option \<Rightarrow> 's \<times> command_error option" where
  "refresh_error res = (case res of (r, snap, err) \<Rightarrow> (rf_store r, map_option RunError err))"

text \<open>Both stores of the command side by side: the memory dies with the process.\<close>

definition refresh_once :: "'g process \<Rightarrow> 'g \<times> command_error option" where
  "refresh_once p =
     (case build_service (pr_Connect p) (pr_Env p) of
        Inl err \<Rightarrow> (pr_Store p, Some err)
      | Inr sv \<Rightarrow>
          let fetched = snd (fetch_orders (sv_Client sv) (pr_Net p))
          in case sv_Bucket sv of
               None \<Rightarrow>
                 (pr_Store p,
                  snd (refresh_error (refresh memory_ops (pr_Codec p) (sv_Options sv) fetched (pr_FetchedAt p)
                    \<lparr>rf_cached = None, rf_store = new_memory\<rparr>)))
             | Some b \<Rightarrow>
                 refresh_error (refresh (gcs_ops (pr_Api p) b) (pr_Codec p) (sv_Options sv) fetched (pr_FetchedAt p)
                   \<lparr>rf_cached = None, rf_store = pr_Store p\<rparr>))"

record http_server =
  hs_Addr :: string
  hs_ReadHeaderTimeout :: int
  hs_WriteTimeout :: int
  hs_ReadTimeout :: int

text \<open>The sum of two durations wraps.\<close>

definition http_server_of :: "config \<Rightarrow> http_server" where
  "http_server_of cfg =
     \<lparr>hs_Addr = '':'' @ cfg_Port cfg, hs_ReadHeaderTimeout = 20 * Second,
      hs_WriteTimeout = wrap64 (cfg_UpstreamTimeout cfg + Minute),
      hs_ReadTimeout = wrap64 (cfg_UpstreamTimeout cfg + Minute)\<rparr>"

definition arrive :: "client \<Rightarrow> arrival \<Rightarrow> surroundings \<times> http_request" where
  "arrive c = (\<lambda>(n, w, req). (w\<lparr>in_Fetched := snd (fetch_orders c n)\<rparr>, req))"

text \<open>The refresher when the service ends, over the store it was built with.\<close>

definition serve_on :: "'s store_ops \<Rightarrow> 'g process \<Rightarrow> service \<Rightarrow> 's \<Rightarrow> 's refresher" where
  "serve_on ops p sv s =
     serve_all
       (new_server (sv_Config sv) ops (pr_Codec p) (sv_Options sv) (pr_Sha p) (pr_Mux p))
       (map (arrive (sv_Client sv)) (pr_Arrivals p))
       (fst (warm ops (pr_Codec p) \<lparr>rf_cached = None, rf_store = s\<rparr>))"

definition serve :: "'g process \<Rightarrow> 'g \<times> command_error option" where
  "serve p =
     (case build_service (pr_Connect p) (pr_Env p) of
        Inl err \<Rightarrow> (pr_Store p, Some err)
      | Inr sv \<Rightarrow>
          ((case sv_Bucket sv of
              None \<Rightarrow> pr_Store p
            | Some b \<Rightarrow> rf_store (serve_on (gcs_ops (pr_Api p) b) p sv (pr_Store p))),
           (case pr_Ended p of
              ListenFailed err \<Rightarrow> Some (RunError err)
            | SignalReceived err \<Rightarrow> map_option RunError err)))"

section \<open>main\<close>

definition usage :: string where
  "usage = join
    [''tbproxy caches TicketButler order data for the Cloud Native Denmark sheets.'', [], ''Usage:'',
     ''  tbproxy serve              Run the HTTP API.'',
     ''  tbproxy refresh            Fetch, aggregate and store one snapshot, then exit.'',
     ''  tbproxy verify [-file f]   Print the summary for a payload. Stores nothing.'',
     ''  tbproxy version            Print the version.'', [],
     ''Configuration comes from the environment; see README.md.'', []] [chr 10]"

text \<open>What is printed, with the parts a message is formatted from.\<close>

datatype printed = Nothing | Text string | UnknownCommand string

record exit =
  ex_Code :: int
  ex_Stdout :: printed
  ex_Stderr :: printed

definition finish :: "printed \<Rightarrow> command_error option \<Rightarrow> exit" where
  "finish printed err =
     \<lparr>ex_Code = (if err \<noteq> None then 1 else 0), ex_Stdout = printed, ex_Stderr = Nothing\<rparr>"

definition main :: "'g process \<Rightarrow> string list \<Rightarrow> 'g \<times> exit" where
  "main p args =
     (if length args < 2 then (pr_Store p, \<lparr>ex_Code = 2, ex_Stdout = Nothing, ex_Stderr = Text usage\<rparr>)
      else
        let command = args ! 1
        in if command = ''serve'' then (case serve p of (g, err) \<Rightarrow> (g, finish Nothing err))
           else if command = ''refresh'' then (case refresh_once p of (g, err) \<Rightarrow> (g, finish Nothing err))
           else if command = ''verify'' then
             (pr_Store p,
              case verify (pr_Env p) (pr_Net p) (drop 2 args) of
                VerifyExit code \<Rightarrow> \<lparr>ex_Code = code, ex_Stdout = Nothing, ex_Stderr = Nothing\<rparr>
              | VerifyFailed err \<Rightarrow> finish Nothing (Some err)
              | VerifyPrinted out \<Rightarrow> finish (Text out) None)
           else if command = ''version'' then (pr_Store p, finish (Text (pr_Version p @ [chr 10])) None)
           else if command = ''-h'' \<or> command = ''--help'' \<or> command = ''help'' then (pr_Store p, finish (Text usage) None)
           else (pr_Store p,
                 \<lparr>ex_Code = 2, ex_Stdout = Nothing,
                  ex_Stderr = UnknownCommand command\<rparr>))"

section \<open>A configuration that loads\<close>

lemma build_service_Inr:
  assumes "build_service connect ev = Inr sv"
  shows "load_fields ev = Inr (sv_Config sv)" "snd (load ev) = []"
    "sv_Client sv = \<lparr>cl_URL = orders_url (sv_Config sv), cl_Token = cfg_Token (sv_Config sv),
       cl_File = cfg_File (sv_Config sv), cl_Timeout = cfg_UpstreamTimeout (sv_Config sv),
       cl_Attempts = cfg_UpstreamAttempts (sv_Config sv), cl_Now = None, cl_Sleep = None\<rparr>"
    "sv_Options sv = \<lparr>opt_MerchNamePatterns = cfg_MerchNamePatterns (sv_Config sv),
       opt_SponsorTicketTypePKs = cfg_SponsorTicketTypePKs (sv_Config sv)\<rparr>"
    "sv_Bucket sv = None \<longleftrightarrow> cfg_Bucket (sv_Config sv) = []"
  using assms
  by (auto simp: build_service_def load_def res_bind_Inr_iff split: sum.splits list.splits if_splits)

lemma build_service_refused: "snd (load ev) \<noteq> [] \<Longrightarrow> build_service connect ev = Inl (ConfigErrors (snd (load ev)))"
  by (auto simp: build_service_def split: prod.split list.split)

lemma load_fields_pks:
  "load_fields ev = Inr c \<Longrightarrow> parse_int_list (ev ''SPONSOR_TICKET_TYPE_PKS'') = Inr (cfg_SponsorTicketTypePKs c)"
  by (cases "parse_int_list (ev ''SPONSOR_TICKET_TYPE_PKS'')") (auto simp: load_fields_def res_bind_Inr_iff ints_def)

lemma service_options:
  assumes "build_service connect ev = Inr sv"
  shows "verify_options (ev ''MERCH_NAME_PATTERNS'') (ev ''SPONSOR_TICKET_TYPE_PKS'') = Inr (sv_Options sv)"
  using load_fields_pks [OF build_service_Inr(1) [OF assms]] load_fields_base(9) [OF build_service_Inr(1) [OF assms]]
  by (simp add: verify_options_def build_service_Inr(4) [OF assms])

text \<open>A payload read from a file does not depend on the rest of the client.\<close>

lemma fetch_file:
  "cl_File c = cl_File c' \<Longrightarrow> cl_Now c = cl_Now c' \<Longrightarrow> cl_File c \<noteq> [] \<Longrightarrow> fetch_orders c n = fetch_orders c' n"
  by (simp add: fetch_orders_def read_file_def time_now_def)

lemma json_verify_ok: "json_ok (json_snapshot s) \<Longrightarrow> json_ok (json_verify (snap_Summary s) (snap_Sponsors s))"
  by (simp add: json_snapshot_def json_verify_def)

lemma json_marshal_ok: "json_ok v \<Longrightarrow> json_marshal v = Inr v"
  using json_bad_None(1) [of v] by (simp add: json_marshal_def)

lemma parse_verify_flags:
  "parse_flags [''file'', ''merch-patterns'', ''sponsor-pks''] vals [''-merch-patterns'', m, ''-sponsor-pks'', k] =
     FlagsOk (vals(''merch-patterns'' := m, ''sponsor-pks'' := k)) []"
  by simp

section \<open>How long a refresh may take\<close>

text \<open>Every attempt of the trace takes its timeout, every sleep its duration.\<close>

fun longest :: "client \<Rightarrow> event list \<Rightarrow> int" where
  "longest c [] = 0"
| "longest c (Attempt k # tr) = (if cl_Timeout c \<le> 0 then 10 * Minute else cl_Timeout c) + longest c tr"
| "longest c (Sleep d # tr) = d + longest c tr"

text \<open>An upstream that never answers.\<close>

definition unanswered :: net where
  "unanswered =
     \<lparr>net_NewRequest = (\<lambda>url. None), net_Do = (\<lambda>k req. Inl ErrDeadline),
      net_Open = (\<lambda>path. Inl (ErrText ''no such file'')),
      net_CtxErr = (\<lambda>k. None), net_Select = (\<lambda>k d. TimerFired), net_Now = (\<lambda>k. sample_time k)\<rparr>"

lemma longest_append: "longest c (xs @ ys) = longest c xs + longest c ys"
  by (induction c xs rule: longest.induct) auto

lemma longest_total:
  "0 < cl_Timeout c \<Longrightarrow> longest c tr = int (length (filter (\<lambda>e. case e of Attempt k \<Rightarrow> True | Sleep d \<Rightarrow> False) tr)) * cl_Timeout c + total_sleep tr"
  by (induction c tr rule: longest.induct) (auto simp: algebra_simps)

lemma attempts_upto_count:
  "length (filter (\<lambda>e. case e of Attempt k \<Rightarrow> True | Sleep d \<Rightarrow> False) (attempts_upto 1 k)) = Suc (nat (k - 1))"
proof -
  have "length (filter (\<lambda>e. case e of Attempt k \<Rightarrow> True | Sleep d \<Rightarrow> False)
      (concat (map (\<lambda>i. [Attempt i, Sleep (backoff i)]) is))) = length is" for "is"
    by (induction "is") simp_all
  then show ?thesis by (simp add: attempts_upto_def)
qed

lemma unanswered_trace:
  assumes "cl_File c = []" "cl_Sleep c = None"
  shows "fst (fetch_orders c unanswered) = attempts_upto 1 (max_attempts c)"
proof -
  have once: "fetch_once c unanswered k = Inl ErrDeadline" for k
    by (simp add: fetch_once_def unanswered_def Let_def)
  then have "k < max_attempts c \<Longrightarrow> goes_on c unanswered k" for k
    using assms(2) by (simp add: goes_on_def refused_def unanswered_def sleep_for_def)
  from this [of "last_attempt c unanswered"] have k: "last_attempt c unanswered = max_attempts c"
    using last_attempt(2,3) [of c unanswered] by fastforce
  show ?thesis
    by (simp add: fetch_orders_run [OF assms(1)] k interrupted_sleep_def once)
qed

section \<open>Witness data\<close>

text \<open>A service that reads its payload from a file, with and without a bucket.\<close>

definition sample_file_env :: "(string \<times> string) list \<Rightarrow> getenv" where
  "sample_file_env over = sample_env ((''TICKETBUTLER_FILE'', ''p.json'') # over)"

definition sample_payload :: string where
  "sample_payload = json_print (json_orders_response (res_Orders (sample_fetch 0))) @ [chr 10]"

definition sample_file_net :: net where
  "sample_file_net = unanswered\<lparr>net_Open := (\<lambda>path. Inr (sample_payload, None))\<rparr>"

definition sample_service :: "gcs option \<Rightarrow> string \<Rightarrow> service" where
  "sample_service bucket name =
     (let cfg = (fst (load (sample_file_env [(''SNAPSHOT_BUCKET'', name)])))
      in \<lparr>sv_Config = cfg,
          sv_Client = \<lparr>cl_URL = orders_url cfg, cl_Token = ''upstream-token'', cl_File = ''p.json'',
                       cl_Timeout = 10 * Minute, cl_Attempts = 3, cl_Now = None, cl_Sleep = None\<rparr>,
          sv_Bucket = bucket, sv_Options = \<lparr>opt_MerchNamePatterns = [''hoodie''], opt_SponsorTicketTypePKs = []\<rparr>\<rparr>)"

lemma sample_service:
  "build_service None (sample_file_env [(''SNAPSHOT_BUCKET'', [])]) = Inr (sample_service None [])"
  "build_service None (sample_file_env [(''SNAPSHOT_BUCKET'', ''cnd'')]) = Inr (sample_service (Some sample_bucket) ''cnd'')"
proof -
  let ?ev = "\<lambda>name. sample_file_env [(''SNAPSHOT_BUCKET'', name)]"
  define settings where "settings = (\<lambda>c :: config. (cfg_Token c, cfg_File c, cfg_UpstreamTimeout c, cfg_UpstreamAttempts c,
    cfg_MerchNamePatterns c, cfg_SponsorTicketTypePKs c))"
  have same: "cfg_Token c = ''upstream-token'' \<and> cfg_File c = ''p.json'' \<and> cfg_UpstreamTimeout c = 10 * Minute
      \<and> cfg_UpstreamAttempts c = 3 \<and> cfg_MerchNamePatterns c = [''hoodie''] \<and> cfg_SponsorTicketTypePKs c = []"
    if "(snd (load (?ev name)), settings (fst (load (?ev name)))) =
      ([], ''upstream-token'', ''p.json'', 600000000000, 3, [''hoodie''], [])" "c = fst (load (?ev name))" for name c
    using that by (simp add: settings_def Minute_def Second_def)
  have "(snd (load (?ev [])), settings (fst (load (?ev [])))) = ([], ''upstream-token'', ''p.json'', 600000000000, 3, [''hoodie''], [])"
    "cfg_Bucket (fst (load (?ev []))) = []"
    unfolding settings_def by code_simp+
  then show "build_service None (?ev []) = Inr (sample_service None [])"
    using same [of "[]"] by (cases "load (?ev [])") (simp add: build_service_def sample_service_def Let_def)
  have "(snd (load (?ev ''cnd'')), settings (fst (load (?ev ''cnd'')))) = ([], ''upstream-token'', ''p.json'', 600000000000, 3, [''hoodie''], [])"
    "cfg_Bucket (fst (load (?ev ''cnd''))) \<noteq> []"
    "new_gcs None (cfg_Bucket (fst (load (?ev ''cnd'')))) (cfg_Object (fst (load (?ev ''cnd'')))) = Inr sample_bucket"
    unfolding settings_def by code_simp+
  then show "build_service None (?ev ''cnd'') = Inr (sample_service (Some sample_bucket) ''cnd'')"
    using same [of "''cnd''"] by (cases "load (?ev ''cnd'')") (simp add: build_service_def sample_service_def Let_def)
qed

lemma sample_file_fetch:
  "snd (fetch_orders (sv_Client (sample_service bucket name)) sample_file_net) = Inr (sample_fetch 1)"
proof -
  let ?v = "json_orders_response (res_Orders (sample_fetch 0))"
  have "snapshot_storable (build (sample_fetch 0) (sample_time 0) sample_options)"
    by (rule sample_storable) (simp_all add: Second_def)
  then have "unmarshal_orders_response (parsed_of ?v) = Inr (orders_reread (res_Orders (sample_fetch 0)))"
    by (intro read_orders_response) (simp_all add: snapshot_storable_def json_snapshot_def build_def)
  moreover have "orders_reread (res_Orders (sample_fetch 0)) = res_Orders (sample_fetch 1)"
    by (simp add: orders_reread_def sample_fetch_def order_reread_def sample_order_def)
  moreover have "printable max_depth ?v" by code_simp
  then have "json_parse sample_payload None = Inr (parsed_of ?v)"
    unfolding sample_payload_def by (rule json_parse_print) (simp add: json_orders_response_def)
  ultimately show ?thesis
    by (simp add: sample_service_def Let_def fetch_orders_def read_file_def sample_file_net_def unanswered_def
        time_now_def time_sub_def sample_time_def sat64_def int64_min_def int64_max_def) (simp add: sample_fetch_def)
qed

section \<open>Properties\<close>

text \<open>
  C16. The parity check is faithful: given the settings of the environment as flags, \<open>verify\<close> prints
  the summary and the sponsors of the very snapshot a refresh of the service from the same payload
  publishes, whenever it publishes one: the text of both, indented, which adds space outside strings only.
\<close>

theorem verify_parity:
  assumes "build_service connect ev = Inr sv" "ev ''TICKETBUTLER_FILE'' \<noteq> []"
    and "publishes cd (sv_Options sv) (OpRefresh (snd (fetch_orders (sv_Client sv) n)) now) = Some snap"
  shows "let text = json_print (json_verify (snap_Summary snap) (snap_Sponsors snap));
             printed = indent_json Outside 0 False text
         in verify ev n [''-merch-patterns'', ev ''MERCH_NAME_PATTERNS'', ''-sponsor-pks'', ev ''SPONSOR_TICKET_TYPE_PKS'']
              = VerifyPrinted (printed @ [chr 10])
            \<and> compact_json Outside printed = compact_json Outside text"
proof -
  let ?c = "\<lparr>cl_URL = [], cl_Token = [], cl_File = ev ''TICKETBUTLER_FILE'', cl_Timeout = 0, cl_Attempts = 0, cl_Now = None, cl_Sleep = None\<rparr>"
  have "cl_File (sv_Client sv) = cl_File ?c" "cl_Now (sv_Client sv) = cl_Now ?c"
    by (simp_all add: build_service_Inr(3) [OF assms(1)] load_fields_base(5) [OF build_service_Inr(1) [OF assms(1)]])
  then have same: "fetch_orders ?c n = fetch_orders (sv_Client sv) n"
    using assms(2) by (intro fetch_file) simp_all
  obtain result where "snd (fetch_orders (sv_Client sv) n) = Inr result" "snap = build result now (sv_Options sv)"
    using assms(3) by (auto simp: publishes_def split: sum.splits if_splits)
  moreover have "json_marshal (json_verify (snap_Summary snap) (snap_Sponsors snap)) =
      Inr (json_verify (snap_Summary snap) (snap_Sponsors snap))"
    by (intro json_marshal_ok json_verify_ok publishes_ok [OF assms(3)])
  ultimately show ?thesis
    using assms(2)
    by (simp add: verify_def parse_verify_flags verify_defaults_def service_options [OF assms(1)] same build_def encode_indented_def compact_indent del: parse_flags.simps)
qed

theorem verify_parity_witness:
  "verify (sample_file_env [(''SNAPSHOT_BUCKET'', [])]) sample_file_net
      [''-merch-patterns'', [], ''-sponsor-pks'', []]
   = VerifyPrinted (let snap = build (sample_fetch 1) (sample_time 0) \<lparr>opt_MerchNamePatterns = [''hoodie''], opt_SponsorTicketTypePKs = []\<rparr>
       in encode_indented (json_verify (snap_Summary snap) (snap_Sponsors snap)))"
proof -
  have ev: "sample_file_env [(''SNAPSHOT_BUCKET'', [])] ''MERCH_NAME_PATTERNS'' = []"
    "sample_file_env [(''SNAPSHOT_BUCKET'', [])] ''SPONSOR_TICKET_TYPE_PKS'' = []"
    "sample_file_env [(''SNAPSHOT_BUCKET'', [])] ''TICKETBUTLER_FILE'' \<noteq> []"
    by (simp_all add: sample_file_env_def sample_env_def)
  have "sv_Options (sample_service None []) = \<lparr>opt_MerchNamePatterns = [''hoodie''], opt_SponsorTicketTypePKs = []\<rparr>"
    by (simp add: sample_service_def Let_def)
  moreover have "publishes sample_codec (sv_Options (sample_service None []))
      (OpRefresh (snd (fetch_orders (sv_Client (sample_service None [])) sample_file_net)) (sample_time 0))
    = Some (build (sample_fetch 1) (sample_time 0) (sv_Options (sample_service None [])))"
    by (simp add: sample_file_fetch publishes_def sample_encodes_at)
  ultimately show ?thesis
    using verify_parity [OF sample_service(1) ev(3), of "sample_codec" sample_file_net "sample_time 0"]
    by (simp add: ev Let_def encode_indented_def)
qed

text \<open>
  C40. Only a configured \<open>serve\<close> or \<open>refresh\<close> can change the bucket, \<open>verify\<close> never does; and
  with a configuration that does not load these two exit with 1 and have not touched it.
\<close>

theorem main_leaves_bucket:
  "(if 2 \<le> length args \<and> (args ! 1 = ''serve'' \<or> args ! 1 = ''refresh'')
    then (if snd (load (pr_Env p)) \<noteq> []
          then main p args = (pr_Store p, \<lparr>ex_Code = 1, ex_Stdout = Nothing, ex_Stderr = Nothing\<rparr>)
          else if cfg_Bucket (fst (load (pr_Env p))) = [] then fst (main p args) = pr_Store p else True)
    else fst (main p args) = pr_Store p)"
proof -
  have bad: "serve p = (pr_Store p, Some (ConfigErrors (snd (load (pr_Env p)))))"
    "refresh_once p = (pr_Store p, Some (ConfigErrors (snd (load (pr_Env p)))))" if "snd (load (pr_Env p)) \<noteq> []"
    by (simp_all add: serve_def refresh_once_def build_service_refused [OF that])
  have memory: "fst (serve p) = pr_Store p \<and> fst (refresh_once p) = pr_Store p"
    if "snd (load (pr_Env p)) = []" "cfg_Bucket (fst (load (pr_Env p))) = []"
    using that
    by (auto simp: serve_def refresh_once_def build_service_def Let_def split: prod.splits)
  show ?thesis
    using bad memory by (auto simp: main_def finish_def Let_def split: prod.split)
qed

text \<open>
  C31. The write timeout of the server, a minute more than the timeout of one attempt at the upstream,
  always covers one attempt; but of the configurations that allow up to 30 attempts, exactly those with
  three or more, or with two of more than 30 seconds each, have a fetch that outlasts it when the
  upstream never answers: a refresh that succeeds on its last attempt after that can no longer report
  it. With the default settings, three attempts of 10 minutes, it is 11 minutes, the fetch up to 31 and
  a half.
\<close>

theorem retries_outlast_write_timeout:
  assumes "build_service connect ev = Inr sv" "cl_File (sv_Client sv) = []"
    and "cfg_UpstreamAttempts (sv_Config sv) \<le> 30" "cfg_UpstreamTimeout (sv_Config sv) + Minute \<le> int64_max"
  shows "cfg_UpstreamTimeout (sv_Config sv) < hs_WriteTimeout (http_server_of (sv_Config sv))
    \<and> (hs_WriteTimeout (http_server_of (sv_Config sv))
        < longest (sv_Client sv) (fst (fetch_orders (sv_Client sv) unanswered))
      \<longleftrightarrow> 3 \<le> cfg_UpstreamAttempts (sv_Config sv)
        \<or> cfg_UpstreamAttempts (sv_Config sv) = 2 \<and> 30 * Second < cfg_UpstreamTimeout (sv_Config sv))"
proof -
  let ?T = "cfg_UpstreamTimeout (sv_Config sv)" and ?c = "sv_Client sv"
  define n where "n = nat (cfg_UpstreamAttempts (sv_Config sv) - 1)"
  have sl: "cl_Sleep ?c = None" by (simp add: build_service_Inr(3) [OF assms(1)])
  have T: "cl_Timeout ?c = ?T" "0 < ?T" and pos: "1 \<le> cfg_UpstreamAttempts (sv_Config sv)"
    using load_fields_settings [OF build_service_Inr(1) [OF assms(1)]] by (simp_all add: build_service_Inr(3) [OF assms(1)])
  have n: "cfg_UpstreamAttempts (sv_Config sv) = int n + 1" using pos by (simp add: n_def)
  have m: "max_attempts ?c = int n + 1" "n \<le> 29"
    using assms(3) n by (simp_all add: max_attempts_def build_service_Inr(3) [OF assms(1)])
  have w: "hs_WriteTimeout (http_server_of (sv_Config sv)) = ?T + Minute"
    using T(2) assms(4) by (simp add: http_server_of_def wrap64_id is_int64_def int64_min_def Minute_def Second_def)
  have l: "longest ?c (fst (fetch_orders ?c unanswered)) = (int n + 1) * ?T + 30 * Second * (2 ^ n - 1)"
    using T m total_sleep_attempts [of n]
    by (simp add: unanswered_trace [OF assms(2) sl] longest_total attempts_upto_count)
  have units: "30 * Second = 30000000000" "Minute = 60000000000" by (simp_all add: Minute_def Second_def)
  consider "n = 0" | "n = 1" | "2 \<le> n" by linarith
  then show ?thesis
  proof cases
    case 3
    have "(4::int) \<le> 2 ^ n" using power_increasing [of 2 n "2::int"] 3 by simp
    then have "30 * Second * 3 \<le> 30 * Second * (2 ^ n - 1)" by (intro mult_left_mono) (simp_all add: Second_def)
    moreover have "3 * ?T \<le> (int n + 1) * ?T" using T(2) 3 by (intro mult_right_mono) auto
    ultimately have "?T + Minute < (int n + 1) * ?T + 30 * Second * (2 ^ n - 1)" using T(2) units by linarith
    then show ?thesis using 3 n by (simp add: w l Minute_def Second_def)
  qed (use T(2) n in \<open>simp_all add: w l Minute_def Second_def\<close>)
qed

text \<open>The defaults, and two attempts of ten seconds each.\<close>

theorem retries_outlast_write_timeout_witness:
  "(\<exists>sv. build_service None (sample_env []) = Inr sv
    \<and> hs_WriteTimeout (http_server_of (sv_Config sv)) < longest (sv_Client sv) (fst (fetch_orders (sv_Client sv) unanswered)))
   \<and> (\<exists>sv. build_service None (sample_env [(''UPSTREAM_TIMEOUT'', ''10s''), (''UPSTREAM_ATTEMPTS'', ''2'')]) = Inr sv
    \<and> \<not> hs_WriteTimeout (http_server_of (sv_Config sv)) < longest (sv_Client sv) (fst (fetch_orders (sv_Client sv) unanswered)))"
proof -
  have sv: "\<exists>sv. build_service None ev = Inr sv \<and> cl_File (sv_Client sv) = []
      \<and> cfg_UpstreamAttempts (sv_Config sv) = k \<and> cfg_UpstreamTimeout (sv_Config sv) = T"
    if "case build_service None ev of Inl e \<Rightarrow> False
      | Inr sv \<Rightarrow> cl_File (sv_Client sv) = [] \<and> cfg_UpstreamAttempts (sv_Config sv) = k
          \<and> cfg_UpstreamTimeout (sv_Config sv) = T" for ev k T
    using that by (cases "build_service None ev") auto
  have "case build_service None (sample_env []) of Inl e \<Rightarrow> False
      | Inr sv \<Rightarrow> cl_File (sv_Client sv) = [] \<and> cfg_UpstreamAttempts (sv_Config sv) = 3
          \<and> cfg_UpstreamTimeout (sv_Config sv) = 600000000000"
    by code_simp
  from sv [OF this] obtain s1 where s1: "build_service None (sample_env []) = Inr s1" "cl_File (sv_Client s1) = []"
    "cfg_UpstreamAttempts (sv_Config s1) = 3" "cfg_UpstreamTimeout (sv_Config s1) = 600000000000" by blast
  have "case build_service None (sample_env [(''UPSTREAM_TIMEOUT'', ''10s''), (''UPSTREAM_ATTEMPTS'', ''2'')]) of Inl e \<Rightarrow> False
      | Inr sv \<Rightarrow> cl_File (sv_Client sv) = [] \<and> cfg_UpstreamAttempts (sv_Config sv) = 2
          \<and> cfg_UpstreamTimeout (sv_Config sv) = 10000000000"
    by code_simp
  from sv [OF this] obtain s2 where s2: "build_service None (sample_env [(''UPSTREAM_TIMEOUT'', ''10s''), (''UPSTREAM_ATTEMPTS'', ''2'')]) = Inr s2"
    "cl_File (sv_Client s2) = []" "cfg_UpstreamAttempts (sv_Config s2) = 2" "cfg_UpstreamTimeout (sv_Config s2) = 10000000000" by blast
  show ?thesis
    using retries_outlast_write_timeout [OF s1(1,2)] retries_outlast_write_timeout [OF s2(1,2)] s1 s2
    by (simp add: Second_def Minute_def int64_max_def)
qed

text \<open>
  C15. From one process to the next: when the command \<open>refresh\<close> succeeded and the bucket can be
  read, a service started afterwards serves the snapshot it stored, as far as the JSON keeps it, over
  any requests one after another, until a refresh of its own publishes another.
\<close>

theorem refresh_then_serve:
  assumes "build_service (pr_Connect p) (pr_Env p) = Inr sv" "sv_Bucket sv = Some b" "cloud_ok (pr_Api p) b obj"
    and "refresh_once p = (g, None)" "snd (fetch_orders (sv_Client sv) (pr_Net p)) = Inr result"
    and "snap = build result (pr_FetchedAt p) (sv_Options sv)"
    and "codec_ok (pr_Codec p) snap" "orders_storable (res_Orders result)" "discounts_fit (res_Orders result)"
    and "length (snapshot_text snap) \<le> max_decompressed"
    and "gcs_load (pr_Api p) b g = Inr data"
  shows "rf_cached (serve_on (gcs_ops (pr_Api p) b) (p\<lparr>pr_Arrivals := arrivals\<rparr>) sv g) =
    last_published (pr_Codec p) (sv_Options sv)
      (all_ops (new_server (sv_Config sv) (gcs_ops (pr_Api p) b) (pr_Codec p) (sv_Options sv) (pr_Sha p) (pr_Mux p))
        (map (arrive (sv_Client sv)) arrivals))
      (Some (snapshot_reread snap))"
proof -
  let ?ops = "gcs_ops (pr_Api p) b"
  let ?srv = "new_server (sv_Config sv) ?ops (pr_Codec p) (sv_Options sv) (pr_Sha p) (pr_Mux p)"
  obtain r' where r': "refresh ?ops (pr_Codec p) (sv_Options sv) (Inr result) (pr_FetchedAt p)
      \<lparr>rf_cached = None, rf_store = pr_Store p\<rparr> = (r', Some snap, None)" "g = rf_store r'"
    using assms(4)
    by (auto simp: refresh_once_def assms(1,2,5) refresh_error_def Let_def assms(6) refresh_def
        split: prod.splits sum.splits option.splits)
  obtain written where "encode (pr_Codec p) snap = Inr written"
    using r'(1) assms(6) by (auto simp: refresh_def Let_def split: sum.splits)
  then have st: "snapshot_storable snap"
    using assms(5,8-10) unfolding assms(6) by (intro client.built_storable)
  have "current ?ops (pr_Codec p) \<lparr>rf_cached = None, rf_store = g\<rparr> =
      (\<lparr>rf_cached = Some (snapshot_reread snap), rf_store = g\<rparr>, Inr (snapshot_reread snap))"
    using gcs_restart_current [OF assms(3) r'(1) assms(7) st assms(10)] assms(11) r'(2) by simp
  then have "fst (warm ?ops (pr_Codec p) \<lparr>rf_cached = None, rf_store = g\<rparr>) = \<lparr>rf_cached = Some (snapshot_reread snap), rf_store = g\<rparr>"
    by (simp add: warm_def)
  moreover have "rf_cached (fold (perform ?ops (pr_Codec p) (sv_Options sv))
      (all_ops ?srv (map (arrive (sv_Client sv)) arrivals)) \<lparr>rf_cached = Some (snapshot_reread snap), rf_store = g\<rparr>) =
    last_published (pr_Codec p) (sv_Options sv) (all_ops ?srv (map (arrive (sv_Client sv)) arrivals)) (Some (snapshot_reread snap))"
    by (rule performs_cached [OF all_ops_no_restart]) simp
  moreover have "srv_Ops ?srv = ?ops" "srv_Codec ?srv = pr_Codec p" "srv_Options ?srv = sv_Options sv"
    by (simp_all add: new_server_def)
  ultimately show ?thesis by (simp add: serve_on_def serve_all_ops)
qed

text \<open>The command and the service share the environment, the bucket and the payload.\<close>

definition sample_process :: "string option process" where
  "sample_process =
     \<lparr>pr_Env = sample_file_env [(''SNAPSHOT_BUCKET'', ''cnd'')], pr_Connect = None, pr_Api = sample_cloud 2000,
      pr_Store = None,
      pr_Codec = sample_codec,
      pr_Net = sample_file_net, pr_FetchedAt = sample_time 0, pr_Sha = (\<lambda>s. s),
      pr_Mux = (\<lambda>req. \<lparr>hp_Status = 404, hp_Header = [], hp_Body = []\<rparr>), pr_Arrivals = [],
      pr_Ended = SignalReceived None, pr_Version = ''dev''\<rparr>"

lemma sample_text_length_at:
  "length (snapshot_text (build (sample_fetch 1) (sample_time 0) (sv_Options (sample_service (Some sample_bucket) ''cnd'')))) \<le> 1000"
  by code_simp

theorem refresh_then_serve_witness:
  "rf_cached (serve_on (gcs_ops (sample_cloud 2000) sample_bucket) (sample_process\<lparr>pr_Arrivals := []\<rparr>)
      (sample_service (Some sample_bucket) ''cnd'') (Some (sample_data (build (sample_fetch 1) (sample_time 0) (sv_Options (sample_service (Some sample_bucket) ''cnd'')))))) =
    Some (build (sample_fetch 1) (sample_time 0) (sv_Options (sample_service (Some sample_bucket) ''cnd'')))"
proof -
  let ?sv = "sample_service (Some sample_bucket) ''cnd''"
  let ?snap = "build (sample_fetch 1) (sample_time 0) (sv_Options ?sv)"
  have sv: "build_service (pr_Connect sample_process) (pr_Env sample_process) = Inr ?sv"
    by (simp add: sample_process_def sample_service(2))
  have b: "sv_Bucket ?sv = Some sample_bucket" by (simp add: sample_service_def Let_def)
  have cl: "cloud_ok (pr_Api sample_process) sample_bucket (\<lambda>g. g)"
    by (simp add: sample_process_def sample_cloud_ok)
  have f: "snd (fetch_orders (sv_Client ?sv) (pr_Net sample_process)) = Inr (sample_fetch 1)"
    by (simp add: sample_process_def sample_file_fetch)
  have r: "refresh_once sample_process = (Some (sample_data ?snap), None)"
    unfolding refresh_once_def sv sum.case b option.case f Let_def
    using sample_text_length_at
    by (simp add: sample_process_def refresh_def refresh_error_def sample_encodes_at sample_data_def gcs_ops_def gcs_save_def
        sample_cloud_def set_cached_def Let_def)
  have c: "codec_ok (pr_Codec sample_process) ?snap"
    "length (snapshot_text ?snap) \<le> max_decompressed"
    using sample_text_length_at by (simp_all add: sample_process_def sample_codec_ok max_decompressed_def)
  have "snapshot_storable ?snap" by (rule sample_storable) (simp_all add: Second_def)
  then have st: "orders_storable (res_Orders (sample_fetch 1))" "discounts_fit (res_Orders (sample_fetch 1))"
    by (simp_all add: snapshot_storable_def build_def)
  have l: "gcs_load (pr_Api sample_process) sample_bucket (Some (sample_data ?snap)) = Inr (sample_data ?snap)"
    by (simp add: sample_process_def gcs_load_def sample_cloud_def)
  have "?snap = build (sample_fetch 1) (pr_FetchedAt sample_process) (sv_Options ?sv)"
    by (simp add: sample_process_def)
  from refresh_then_serve [OF sv b cl r f this c(1) st c(2) l, of "[]"] show ?thesis
    by (simp add: all_ops_def sample_reread) (simp add: sample_process_def)
qed

end
