(* ===== verification/Spec2Isabelle.thy ===== *)
theory Spec2Isabelle
  imports Tbproxy
begin

text \<open>
  A model of the TicketButler proxy, the service that fetches the orders of an event from
  TicketButler, aggregates them, keeps the result as one stored snapshot and serves it to the
  spreadsheets.

  \<^bold>\<open>The program.\<close> \<open>internal/ticketbutler\<close> fetches the payload
  with a retry loop, \<open>internal/aggregate\<close> turns it into a summary and a list of
  sponsors, \<open>internal/snapshot\<close> puts both and the payload into a snapshot, encodes it
  and keeps it in a cache in front of a store, \<open>internal/store\<close> is the store, in
  memory or in a Cloud Storage bucket, \<open>internal/httpapi\<close> serves the cached snapshot
  and triggers refreshes, \<open>internal/config\<close> reads the settings and
  \<open>cmd/tbproxy\<close> puts the parts together for its three commands.

  \<^bold>\<open>What Go does.\<close>

  \<^item> \<open>Prelude\<close>: Go maps as sorted association lists, results as sums, maps and
    slices that may be nil, sorting.
  \<^item> \<open>UnicodeData\<close>, \<open>GoUtf8\<close>, \<open>GoStrings\<close>: strings
    are lists of bytes; decoding and encoding of runes, case conversion and the functions of
    \<open>strings\<close> the program uses.
  \<^item> \<open>GoFloat\<close>, \<open>FloatNear\<close>: \<open>float64\<close> with sign,
    53-bit mantissa and exponent, rounded to nearest even; bounds on its error.
  \<^item> \<open>GoStrconv\<close>: numbers from and to text.
  \<^item> \<open>GoErrors\<close>: error trees and the searches through them.
  \<^item> \<open>GoTime\<close>: durations and sums that wrap at 64 bits, instants with and
    without a monotonic reading, which \<open>UTC\<close> strips, \<open>ParseDuration\<close>.
  \<^item> \<open>FloatText\<close>, \<open>Rfc3339\<close>: the shortest decimal text of a
    float and the text of a time, and that parsing gives both back.
  \<^item> \<open>JsonScan\<close>, \<open>JsonGrammar\<close>, \<open>JsonParse\<close>: the
    scanner of \<open>encoding/json\<close>, the grammar as inductive predicates, that the scanner
    accepts exactly the texts of the grammar with the trees they have, and the outcomes of a
    decoder, with its limit of 10000 levels.
  \<^item> \<open>JsonCompact\<close>, \<open>JsonTokens\<close>, \<open>JsonIndent\<close>:
    compacting and indenting a text, quoting strings, numbers and times as tokens.
  \<^item> \<open>Json\<close>: the JSON value and the text written for each type, and which
    values the encoder refuses.
  \<^item> \<open>JsonDecode\<close>: decoding the tree of a text into the structs, by the
    tags of their fields.
  \<^item> \<open>JsonText\<close>, \<open>JsonRead\<close>: what is printed is scanned to the tree
    of the value, and what each value is read back as.
  \<^item> \<open>ValidText\<close>, \<open>Payload\<close>: UTF-8 is preserved, and whatever
    decodes from a text is a value of its type: strings of UTF-8, integers of 64 bits, finite
    rates, discounts that are JSON.

  \<^bold>\<open>The components.\<close>

  \<^item> \<open>TbTypes\<close> (\<open>ticketbutler/types.go\<close>): one record per struct,
    the accessors and the JSON form of amounts.
  \<^item> \<open>Sizes\<close>, \<open>Summary\<close>, \<open>Sponsors\<close>
    (\<open>aggregate\<close>): the loops are folds over the payload, one definition per step; the
    lemmas give the content of every row as a function of the list of tickets.
  \<^item> \<open>TbClient\<close> (\<open>ticketbutler/client.go\<close>): one fetch, which decodes
    the body of the answer, and the retry loop, over a record of what the network, the context, the
    timers and the clock answer; the hooks of a test replace the last two as in the source;
    the loop ends after \<open>max_attempts\<close> by its measure, and a trace records its
    attempts and sleeps.
  \<^item> \<open>Config\<close> (\<open>config/config.go\<close>): the environment as a function,
    errors with what their messages are made of.
  \<^item> \<open>Store\<close> (\<open>store\<close>): the interface as a record of operations,
    its promises as the locale \<open>store_contract\<close>, interpreted on the memory store and
    established of the bucket under the documented behaviour \<open>cloud_ok\<close> of Cloud
    Storage.
  \<^item> \<open>Snapshot\<close>, \<open>Storable\<close>, \<open>Refresher\<close>,
    \<open>Interleaving\<close> (\<open>snapshot\<close>): building, ageing, encoding and decoding; what
    the interface \<open>Fetcher\<close> promises, as the locale \<open>fetcher\<close> interpreted on
    the client, and that a snapshot built from what it returns can be stored and read back; refresh and read as
    functions on cache and store, and again as a step relation of any number of threads in which
    each lock, store access and assignment of the cache is a step; the functions, performed one after
    the other, are runs of that relation.
  \<^item> \<open>Auth\<close>, \<open>HttpApi\<close>, \<open>Delivery\<close>
    (\<open>httpapi\<close>): tokens, guard, routes, handlers and the request log, as functions from the
    refresher and the surroundings of a request to the new refresher and the response, whose body is
    the text written; and what a caller decodes from that text. Routes are matched by the segments of
    the escaped path, as \<open>ServeMux\<close> does.
  \<^item> \<open>Tbproxy\<close> (\<open>cmd/tbproxy/main.go\<close>): assembling the service
    from the environment, the commands, their exit codes and the timeouts of the server.

  \<^bold>\<open>What the theorems show.\<close> The rows of the summary and the sponsors are
  those the payload determines; of the summary only the rounding of the incomes depends on the order
  of the payload, and the sponsors do not depend on which sorter is used. The retry loop
  ends, with the outcome of its last attempt. Refreshes exclude each other; when the service
  started with a snapshot, reads are linear, and when it did not, a read can undo a refresh. After a
  refresh that no such read overlapped, accepted requests are served what was published last, however
  they are interleaved; one after another they cannot tell whether the service was restarted, and a
  service serves what a command stored before. What a store gives back is the snapshot with its
  amounts to the cent, which the data served do not show. From the bytes the upstream sends to what a
  spreadsheet decodes from a response, the summary and the sponsors are exactly those of the payload,
  and only an income that is not finite, the clock or the compression can keep a fetched payload from
  being encoded. Requests without a token learn and change nothing, the summary reveals no personal
  data, reads never fetch. A configuration that loads is well formed. The \<open>verify\<close> command
  computes what the service would.

  \<^bold>\<open>Bounds.\<close> No fuel is used; every loop is structural or ends by a measure.
  The back-off is exact up to the 29th attempt and shown to wrap at the 30th.
  \<open>age_seconds\<close> is exact below \<open>2 ^ 23\<close> seconds, 97 days. The decoder
  accepts 256 MiB and texts that nest 10000 deep, so a discount, which a snapshot holds four levels
  down, is read back when it nests at most 9996 deep; amounts are read back below \<open>2 ^ 52\<close>
  hundredths. These three are the hypotheses \<open>length (snapshot_text s) \<le> max_decompressed\<close>,
  \<open>discounts_fit\<close> and \<open>orders_storable\<close>.

  \<^bold>\<open>Not modelled.\<close> \<open>compress/gzip\<close> is the record \<open>codec\<close>, and what
  its package documents is \<open>codec_ok\<close>. The messages of JSON errors are named by their kind,
  without the offset and the character. Objects whose keys repeat are not considered, and of several
  fields that cannot be decoded the first one's error is reported. The router of
  \<open>net/http\<close> for requests that match no route, the network, the Cloud Storage client and
  \<open>sha256\<close> are parameters too. Log lines are left out, except the one of a request, and with
  them the choice of a logger; \<open>GCS.Close\<close> releases a connection and has no effect on the
  bucket. The Apps Script clients and the deployment scripts are other programs that only call this one.
\<close>

end
